(* ===== verification/Prelude.thy ===== *)
theory Prelude
  imports Main "HOL-Library.Word" "HOL-Library.Multiset"
begin

text \<open>
  Shared vocabulary of the development: the machine integers of the C++ sources, the
  faults an execution can end in, the result type of an operation that may fault, and
  the generic facts on lists that the component theories use (swapping two elements of
  an array, segments of an array, removing one element).

  A C++ expression whose behaviour the language leaves undefined (an index outside the
  storage, a null dereference, a read of storage nothing has written) and a failed
  \<open>assert\<close> are values here: an operation that can meet one returns \<open>'a run\<close>, that is
  \<open>Inl\<close> the fault or \<open>Inr\<close> the result. Every other branch of the source is a branch
  of the model.
\<close>

type_synonym u16 = "16 word"
type_synonym u32 = "32 word"
type_synonym u64 = "64 word"

datatype fault =
    Out_Of_Bounds
  | Null_Deref
  | Assert_Failed
  | Uninitialised
  | Dangling
  | Killed
  | Diverges
  | Signed_Overflow
  | Bad_Alloc

type_synonym 'a run = "fault + 'a"

text \<open>Sequencing: a fault ends the execution, as it does in the code.\<close>

definition and_then :: "'a run \<Rightarrow> ('a \<Rightarrow> 'b run) \<Rightarrow> 'b run" where
  "and_then r f = (case r of Inl e \<Rightarrow> Inl e | Inr x \<Rightarrow> f x)"

named_theorems run_simps "unfolding of the fault monad"

lemma and_then_Inl [simp, run_simps]: "and_then (Inl e) f = Inl e"
  by (simp add: and_then_def)

lemma and_then_Inr [simp, run_simps]: "and_then (Inr x) f = f x"
  by (simp add: and_then_def)

lemma and_then_eq_Inr: "and_then r f = Inr y \<longleftrightarrow> (\<exists>x. r = Inr x \<and> f x = Inr y)"
  by (cases r) auto

lemma and_then_eq_InrE [elim!]:
  assumes "and_then r f = Inr y"
  obtains x where "r = Inr x" and "f x = Inr y"
  using assms by (auto simp: and_then_eq_Inr)

definition run_map :: "('a \<Rightarrow> 'b) \<Rightarrow> 'a run \<Rightarrow> 'b run" where
  "run_map f r = and_then r (\<lambda>x. Inr (f x))"

lemma run_map_simps [simp, run_simps]:
  "run_map f (Inl e) = Inl e" "run_map f (Inr x) = Inr (f x)"
  by (simp_all add: run_map_def)

lemma run_map_eq_Inr: "run_map f r = Inr y \<longleftrightarrow> (\<exists>x. r = Inr x \<and> y = f x)"
  by (cases r) auto

text \<open>Reading and writing one cell of an array of known extent.\<close>

definition at :: "'a list \<Rightarrow> nat \<Rightarrow> 'a run" where
  "at xs i = (if i < length xs then Inr (xs ! i) else Inl Out_Of_Bounds)"

lemma at_Inr [simp]: "i < length xs \<Longrightarrow> at xs i = Inr (xs ! i)"
  by (simp add: at_def)

lemma at_Inl [simp]: "length xs \<le> i \<Longrightarrow> at xs i = Inl Out_Of_Bounds"
  by (simp add: at_def)

lemma at_eq_Inr: "at xs i = Inr x \<longleftrightarrow> i < length xs \<and> x = xs ! i"
  by (auto simp: at_def)

subsection \<open>Swapping two cells\<close>

definition swap :: "nat \<Rightarrow> nat \<Rightarrow> 'a list \<Rightarrow> 'a list" where
  "swap i j xs = xs[i := xs ! j, j := xs ! i]"

lemma length_swap [simp]: "length (swap i j xs) = length xs"
  by (simp add: swap_def)

lemma swap_same [simp]: "swap i i xs = xs"
  by (simp add: swap_def)

lemma swap_nth:
  "i < length xs \<Longrightarrow> j < length xs \<Longrightarrow> k < length xs \<Longrightarrow>
   swap i j xs ! k = (if k = i then xs ! j else if k = j then xs ! i else xs ! k)"
  by (auto simp: swap_def nth_list_update)

lemma swap_nth_right [simp]: "i < length xs \<Longrightarrow> j < length xs \<Longrightarrow> swap i j xs ! j = xs ! i"
  by (simp add: swap_nth)

lemma swap_nth_left [simp]: "i < length xs \<Longrightarrow> j < length xs \<Longrightarrow> swap i j xs ! i = xs ! j"
  by (simp add: swap_nth)

lemma swap_zero_last [simp]: "n < length xs \<Longrightarrow> swap 0 n xs ! n = xs ! 0"
  by (rule swap_nth_right) auto

lemma mset_swap_cells [simp]:
  "i < length xs \<Longrightarrow> j < length xs \<Longrightarrow> mset (swap i j xs) = mset xs"
  by (simp add: swap_def mset_swap)

lemma set_swap [simp]: "i < length xs \<Longrightarrow> j < length xs \<Longrightarrow> set (swap i j xs) = set xs"
  by (simp add: swap_def)

lemma distinct_swap_cells [simp]:
  "i < length xs \<Longrightarrow> j < length xs \<Longrightarrow> distinct (swap i j xs) = distinct xs"
  by (simp add: swap_def)

text \<open>A function that only swaps cells inside \<open>[l, h)\<close> leaves the rest alone.\<close>

definition same_outside :: "nat \<Rightarrow> nat \<Rightarrow> 'a list \<Rightarrow> 'a list \<Rightarrow> bool" where
  "same_outside l h xs ys \<longleftrightarrow>
     length ys = length xs \<and> (\<forall>i < length xs. i < l \<or> h \<le> i \<longrightarrow> ys ! i = xs ! i)"

lemma same_outside_refl [simp, intro]: "same_outside l h xs xs"
  by (simp add: same_outside_def)

lemma same_outside_trans [trans]:
  "same_outside l h xs ys \<Longrightarrow> same_outside l h ys zs \<Longrightarrow> same_outside l h xs zs"
  by (simp add: same_outside_def)

lemma same_outside_mono:
  "same_outside l h xs ys \<Longrightarrow> l' \<le> l \<Longrightarrow> h \<le> h' \<Longrightarrow> same_outside l' h' xs ys"
  unfolding same_outside_def by fastforce

lemma same_outside_swap:
  "l \<le> i \<Longrightarrow> i < h \<Longrightarrow> l \<le> j \<Longrightarrow> j < h \<Longrightarrow> h \<le> length xs \<Longrightarrow> same_outside l h xs (swap i j xs)"
  by (auto simp: same_outside_def swap_nth)

lemma same_outside_length: "same_outside l h xs ys \<Longrightarrow> length ys = length xs"
  by (simp add: same_outside_def)

lemma same_outside_nth:
  "same_outside l h xs ys \<Longrightarrow> i < l \<or> h \<le> i \<Longrightarrow> i < length xs \<Longrightarrow> ys ! i = xs ! i"
  by (auto simp: same_outside_def)

lemma same_outside_drop:
  assumes "same_outside l h xs ys"
  shows "drop h ys = drop h xs"
  using assms by (intro nth_equalityI) (auto simp: same_outside_def)

lemma same_outside_take:
  assumes "same_outside l h xs ys"
  shows "take l ys = take l xs"
  using assms by (intro nth_equalityI) (auto simp: same_outside_def)

lemma mset_take_same:
  assumes "mset ys = mset xs" and "drop n ys = drop n xs"
  shows "mset (take n ys) = mset (take n xs)"
proof -
  have "mset (take n ys) + mset (drop n ys) = mset (take n xs) + mset (drop n xs)"
    using assms(1) by (metis append_take_drop_id mset_append)
  then show ?thesis using assms(2) by simp
qed

lemma take_last_cell:
  "0 < n \<Longrightarrow> n \<le> length xs \<Longrightarrow> take n xs = take (n - 1) xs @ [xs ! (n - 1)]"
  by (metis Suc_diff_1 Suc_le_lessD take_Suc_conv_app_nth)

end
