(* ===== verification/Timer.thy ===== *)
theory Timer
  imports Prelude
begin

text \<open>
  One timer object: \<open>timer/Timer.h\<close>, \<open>timer/Timer.cpp\<close>. Expiry and interval are
  \<open>UINT64\<close> microseconds. The callback and its argument are opaque numbers; what a callback
  returns is a parameter of \<open>action\<close>. \<open>m_index\<close> is not written by the constructor, so
  it is \<open>None\<close> until \<open>set_index\<close>.
\<close>

datatype timer_type = ONE_SHOT | UNLIMIT | LIMITED | MAX_TYPE

record timeval =
  tv_sec :: int
  tv_usec :: int

record timer =
  m_expire_time :: u64
  m_interval_time :: u64
  m_cb :: nat
  m_para :: nat
  m_timer_type :: timer_type
  m_last_times :: int
  m_last_error :: int
  m_index :: "int option"

definition change_timeval :: "timeval \<Rightarrow> u64" where
  "change_timeval tm = word_of_int (tv_sec tm * 1000000 + tv_usec tm)"

definition new_timer :: "timeval \<Rightarrow> timeval \<Rightarrow> nat \<Rightarrow> nat \<Rightarrow> int \<Rightarrow> timer" where
  "new_timer tm interval cb para ct =
     \<lparr>m_expire_time = change_timeval tm, m_interval_time = change_timeval interval,
      m_cb = cb, m_para = para,
      m_timer_type = (if ct = 0 then UNLIMIT else if 1 < ct then LIMITED else ONE_SHOT),
      m_last_times = (if ct = 0 then ct else if 1 < ct then ct else 1),
      m_last_error = 0, m_index = None\<rparr>"

definition action :: "(nat \<Rightarrow> nat \<Rightarrow> int) \<Rightarrow> timer \<Rightarrow> timer" where
  "action callback t = t\<lparr>m_last_error := callback (m_cb t) (m_para t)\<rparr>"

definition get_expire_time :: "timer \<Rightarrow> u64" where
  "get_expire_time t = m_expire_time t"

definition set_timeout :: "timeval \<Rightarrow> timer \<Rightarrow> timer" where
  "set_timeout tm t = t\<lparr>m_expire_time := change_timeval tm\<rparr>"

definition set_interval_time :: "timeval \<Rightarrow> timer \<Rightarrow> timer" where
  "set_interval_time tm t = t\<lparr>m_interval_time := change_timeval tm\<rparr>"

text \<open>Called after the callback: does the timer run again, and when? \<open>now\<close> is the clock.\<close>

definition continue_timer :: "timeval \<Rightarrow> timer \<Rightarrow> bool \<times> timer" where
  "continue_timer now t =
     (let t1 = (if m_timer_type t = UNLIMIT then t else t\<lparr>m_last_times := m_last_times t - 1\<rparr>);
          ret = (m_timer_type t = UNLIMIT \<or> 0 < m_last_times t1)
      in (ret, if ret then t1\<lparr>m_expire_time := change_timeval now + m_interval_time t1\<rparr> else t1))"

definition get_last_times :: "timer \<Rightarrow> int" where
  "get_last_times t = m_last_times t"

definition set_last_times :: "int \<Rightarrow> timer \<Rightarrow> timer" where
  "set_last_times cnt t =
     (if cnt = 0 then t\<lparr>m_timer_type := UNLIMIT\<rparr>
      else if 1 < cnt then t\<lparr>m_last_times := cnt, m_timer_type := LIMITED\<rparr>
      else t\<lparr>m_last_times := 1, m_timer_type := ONE_SHOT\<rparr>)"

definition get_last_error :: "timer \<Rightarrow> int" where
  "get_last_error t = m_last_error t"

definition set_index :: "int \<Rightarrow> timer \<Rightarrow> timer" where
  "set_index i t = t\<lparr>m_index := Some i\<rparr>"

definition get_index :: "timer \<Rightarrow> int run" where
  "get_index t = (case m_index t of None \<Rightarrow> Inl Uninitialised | Some i \<Rightarrow> Inr i)"

lemmas timer_ops = new_timer_def action_def get_expire_time_def set_timeout_def
  set_interval_time_def set_last_times_def set_index_def get_last_times_def get_last_error_def

subsection \<open>Conversion of a time\<close>

lemma uint_change_timeval:
  "uint (change_timeval tm) = (tv_sec tm * 1000000 + tv_usec tm) mod 2 ^ 64"
  unfolding change_timeval_def uint_word_of_int by simp

lemma uint_change_timeval_small:
  assumes "0 \<le> tv_sec tm" "0 \<le> tv_usec tm" "tv_sec tm * 1000000 + tv_usec tm < 2 ^ 64"
  shows "uint (change_timeval tm) = tv_sec tm * 1000000 + tv_usec tm"
  using assms by (simp add: uint_change_timeval)

lemma change_timeval_carry:
  "change_timeval \<lparr>tv_sec = s + 1, tv_usec = u - 1000000\<rparr> = change_timeval \<lparr>tv_sec = s, tv_usec = u\<rparr>"
  by (simp add: change_timeval_def algebra_simps)

subsection \<open>How often a timer runs\<close>

text \<open>The answers of successive calls of \<open>continue_timer\<close>, one per clock reading.\<close>

fun continue_run :: "timeval list \<Rightarrow> timer \<Rightarrow> bool list" where
  "continue_run [] t = []"
| "continue_run (now # nows) t =
     (let (r, t') = continue_timer now t in r # continue_run nows t')"

lemma continue_timer_type: "m_timer_type (snd (continue_timer now t)) = m_timer_type t"
  by (simp add: continue_timer_def Let_def)

lemma continue_timer_interval: "m_interval_time (snd (continue_timer now t)) = m_interval_time t"
  by (simp add: continue_timer_def Let_def)

lemma continue_timer_index [simp]: "m_index (snd (continue_timer now t)) = m_index t"
  by (simp add: continue_timer_def Let_def)

lemma continue_run_unlimited:
  "m_timer_type t = UNLIMIT \<Longrightarrow> continue_run nows t = replicate (length nows) True"
  by (induction nows arbitrary: t) (auto simp: continue_timer_def Let_def)

lemma continue_run_counted:
  assumes "m_timer_type t \<noteq> UNLIMIT" "m_last_times t = int (Suc n)" "length nows = Suc n"
  shows "continue_run nows t = replicate n True @ [False]"
  using assms
proof (induction n arbitrary: t nows)
  case 0
  then obtain now where "nows = [now]" by (cases nows) auto
  with 0 show ?case by (simp add: continue_timer_def Let_def)
next
  case (Suc n)
  then obtain now nows' where nows: "nows = now # nows'" "length nows' = Suc n"
    by (cases nows) auto
  let ?t' = "snd (continue_timer now t)"
  have "m_timer_type ?t' \<noteq> UNLIMIT" "m_last_times ?t' = int (Suc n)"
    using Suc.prems by (simp_all add: continue_timer_def Let_def)
  then have "continue_run nows' ?t' = replicate n True @ [False]"
    using Suc.IH nows(2) by blast
  moreover have "fst (continue_timer now t)"
    using Suc.prems by (simp add: continue_timer_def Let_def)
  ultimately show ?case by (simp add: nows split_beta)
qed

subsection \<open>Properties\<close>

text \<open>
  A \<open>Timer\<close> constructed with a count \<open>ct\<close> above zero is told to run again by exactly the
  first \<open>ct - 1\<close> calls of \<open>continue_timer\<close> and dropped by the one after, whatever the clock
  says: its callback runs \<open>ct\<close> times.
\<close>

theorem timer_runs_count:
  assumes "length nows = Suc n"
  shows "continue_run nows (new_timer tm interval cb para (int (Suc n))) = replicate n True @ [False]"
proof -
  let ?t = "new_timer tm interval cb para (int (Suc n))"
  have "m_timer_type ?t \<noteq> UNLIMIT" "m_last_times ?t = int (Suc n)"
    by (auto simp: new_timer_def)
  then show ?thesis using assms by (rule continue_run_counted)
qed

lemma timer_runs_count_witness:
  "continue_run [\<lparr>tv_sec = 1, tv_usec = 0\<rparr>, \<lparr>tv_sec = 2, tv_usec = 0\<rparr>]
     (new_timer \<lparr>tv_sec = 1, tv_usec = 0\<rparr> \<lparr>tv_sec = 1, tv_usec = 0\<rparr> 0 0 2) = [True, False]"
  using timer_runs_count[of "[\<lparr>tv_sec = 1, tv_usec = 0\<rparr>, \<lparr>tv_sec = 2, tv_usec = 0\<rparr>]" 1
      "\<lparr>tv_sec = 1, tv_usec = 0\<rparr>" "\<lparr>tv_sec = 1, tv_usec = 0\<rparr>" 0 0] by simp

text \<open>
  The count \<open>0\<close> makes a timer that always runs again, and the count \<open>-1\<close>, as every
  negative one, a timer that runs once: the comment on \<open>TimerManager::add_timer\<close>, which
  gives \<open>-1\<close> for an unlimited timer, is not what the constructor does.
\<close>

theorem timer_runs_special:
  "continue_run nows (new_timer tm interval cb para 0) = replicate (length nows) True \<and>
   continue_run [now] (new_timer tm interval cb para (- 1)) = [False]"
proof
  show "continue_run nows (new_timer tm interval cb para 0) = replicate (length nows) True"
    by (rule continue_run_unlimited) (simp add: new_timer_def)
  show "continue_run [now] (new_timer tm interval cb para (- 1)) = [False]"
    using continue_run_counted[of "new_timer tm interval cb para (- 1)" 0 "[now]"]
    by (simp add: new_timer_def)
qed

end
