(* ===== verification/Heap_Order.thy ===== *)
theory Heap_Order
  imports Prelude
begin

text \<open>
  Binary heaps stored in an array, as \<open>timer/Heap.cpp\<close> and \<open>dymanicArray/sort.cpp\<close> keep
  them: the parent of cell \<open>j\<close> is cell \<open>(j - 1) div 2\<close>. The order is an interface: a
  strict weak order \<open>before\<close> (the expiry times of the timer heap, the comparison function
  handed to the sorting routines). The locale \<open>weak_order\<close> proves once what a sift-up and
  a sift-down step keep; both components interpret it on their own comparison.
\<close>

definition parent :: "nat \<Rightarrow> nat" where
  "parent j = (j - 1) div 2"

lemma parent_less [simp, intro]: "0 < j \<Longrightarrow> parent j < j"
  unfolding parent_def by linarith

lemma parent_le: "parent j \<le> j"
  unfolding parent_def by linarith

lemma parent_bound [simp]: "j < n \<Longrightarrow> parent j < n"
  using parent_le[of j] by linarith

lemma parent_children: "0 < j \<Longrightarrow> parent j = k \<longleftrightarrow> j = 2 * k + 1 \<or> j = 2 * k + 2"
  unfolding parent_def by linarith

lemma parent_child [simp]: "parent (2 * k + 1) = k" "parent (2 * k + 2) = k"
  by (simp_all add: parent_def)

definition edge_ok :: "('a \<Rightarrow> 'a \<Rightarrow> bool) \<Rightarrow> 'a list \<Rightarrow> nat \<Rightarrow> bool" where
  "edge_ok before xs j \<longleftrightarrow> \<not> before (xs ! j) (xs ! (parent j))"

text \<open>Every edge whose lower end lies in \<open>[lo, n)\<close> is in order.\<close>

definition heap_from :: "('a \<Rightarrow> 'a \<Rightarrow> bool) \<Rightarrow> nat \<Rightarrow> nat \<Rightarrow> 'a list \<Rightarrow> bool" where
  "heap_from before lo n xs \<longleftrightarrow> (\<forall>j. lo \<le> j \<and> j < n \<longrightarrow> edge_ok before xs j)"

abbreviation heap_on :: "('a \<Rightarrow> 'a \<Rightarrow> bool) \<Rightarrow> nat \<Rightarrow> 'a list \<Rightarrow> bool" where
  "heap_on before n xs \<equiv> heap_from before 1 n xs"

text \<open>A heap but for the edges below cell \<open>k\<close>, whose children fit under its parent.\<close>

definition hole_down :: "('a \<Rightarrow> 'a \<Rightarrow> bool) \<Rightarrow> nat \<Rightarrow> nat \<Rightarrow> nat \<Rightarrow> 'a list \<Rightarrow> bool" where
  "hole_down before lo n k xs \<longleftrightarrow>
     (\<forall>j. lo \<le> j \<and> j < n \<and> 0 < j \<and> parent j \<noteq> k \<longrightarrow> edge_ok before xs j) \<and>
     (lo \<le> k \<and> 0 < k \<longrightarrow>
        (\<forall>j < n. 0 < j \<and> parent j = k \<longrightarrow> \<not> before (xs ! j) (xs ! (parent k))))"

text \<open>A heap but for the edge above cell \<open>k\<close>, whose children fit under its parent.\<close>

definition hole_up :: "('a \<Rightarrow> 'a \<Rightarrow> bool) \<Rightarrow> nat \<Rightarrow> nat \<Rightarrow> 'a list \<Rightarrow> bool" where
  "hole_up before n k xs \<longleftrightarrow>
     (\<forall>j. 0 < j \<and> j < n \<and> j \<noteq> k \<longrightarrow> edge_ok before xs j) \<and>
     (0 < k \<longrightarrow>
        (\<forall>j < n. 0 < j \<and> parent j = k \<longrightarrow> \<not> before (xs ! j) (xs ! (parent k))))"

named_theorems heap_defs "unfolding of the heap predicates"
declare edge_ok_def [heap_defs] heap_from_def [heap_defs]

lemma heap_fromD: "heap_from before lo n xs \<Longrightarrow> lo \<le> j \<Longrightarrow> j < n \<Longrightarrow> edge_ok before xs j"
  by (simp add: heap_from_def)

lemma heap_from_mono:
  "heap_from before lo n xs \<Longrightarrow> lo \<le> lo' \<Longrightarrow> n' \<le> n \<Longrightarrow> heap_from before lo' n' xs"
  by (auto simp: heap_from_def)

lemma heap_from_empty [simp]: "n \<le> lo \<Longrightarrow> heap_from before lo n xs"
  by (auto simp: heap_from_def)

lemma heap_from_code [code]: "heap_from lt lo n xs = list_all (edge_ok lt xs) [lo..<n]"
  by (auto simp: heap_from_def list_all_iff)

lemma heap_from_take_cong:
  assumes "take n ys = take n xs" and "heap_from before lo n xs"
  shows "heap_from before lo n ys"
proof -
  have eq: "ys ! j = xs ! j" if "j < n" for j
    using that assms(1) by (metis nth_take)
  show ?thesis
    using assms(2) eq by (simp add: heap_from_def edge_ok_def)
qed

lemma hole_up_last: "heap_on before n xs \<Longrightarrow> hole_up before (Suc n) n xs"
proof -
  assume h: "heap_on before n xs"
  have "edge_ok before xs j" if "0 < j" "j < Suc n" "j \<noteq> n" for j
    using h that by (simp add: heap_from_def)
  moreover have "parent j \<noteq> n" if "j < Suc n" "0 < j" for j
    using that parent_less[of j] by linarith
  ultimately show ?thesis by (auto simp: hole_up_def)
qed

lemma heap_hole_up: "hole_up before n k xs \<Longrightarrow> k = 0 \<or> edge_ok before xs k \<Longrightarrow> heap_on before n xs"
  unfolding hole_up_def heap_from_def by (metis less_le_trans less_one linorder_not_le zero_less_one)

lemma hole_down_root:
  assumes "\<And>j. 2 < j \<Longrightarrow> j < n \<Longrightarrow> edge_ok before xs j"
  shows "hole_down before 1 n 0 xs"
  unfolding hole_down_def
proof (intro conjI allI impI)
  fix j assume "1 \<le> j \<and> j < n \<and> 0 < j \<and> parent j \<noteq> 0"
  then have "2 < j" "j < n" by (auto simp: parent_def)
  then show "edge_ok before xs j" by (rule assms)
qed simp_all

text \<open>The interface.\<close>

locale weak_order =
  fixes before :: "'a \<Rightarrow> 'a \<Rightarrow> bool"
  assumes irrefl: "\<not> before x x"
    and trans: "before x y \<Longrightarrow> before y z \<Longrightarrow> before x z"
    and neg_trans: "\<not> before x y \<Longrightarrow> \<not> before y z \<Longrightarrow> \<not> before x z"
begin

lemma asym: "before x y \<Longrightarrow> \<not> before y x"
  using irrefl trans by blast

lemma root_least:
  assumes "heap_on before n xs" and "j < n"
  shows "\<not> before (xs ! j) (xs ! 0)"
  using assms(2)
proof (induction j rule: less_induct)
  case (less j)
  show ?case
  proof (cases "j = 0")
    case True
    then show ?thesis using irrefl by simp
  next
    case False
    then have "parent j < j" by simp
    then have "\<not> before (xs ! (parent j)) (xs ! 0)"
      using less by simp
    moreover have "\<not> before (xs ! j) (xs ! (parent j))"
      using assms(1) less.prems False by (auto simp: heap_from_def edge_ok_def)
    ultimately show ?thesis using neg_trans by blast
  qed
qed

lemma sift_up_step:
  assumes h: "hole_up before n k xs" and k: "0 < k" "k < n" "n \<le> length xs"
    and lt: "before (xs ! k) (xs ! (parent k))"
  shows "hole_up before n (parent k) (swap k (parent k) xs)"
proof -
  let ?p = "parent k" let ?ys = "swap k ?p xs"
  have p: "?p < k" using k by simp
  have nth: "?ys ! j = (if j = k then xs ! ?p else if j = ?p then xs ! k else xs ! j)"
    if "j < n" for j
    using that k p by (simp add: swap_nth)
  have e: "\<not> before (xs ! j) (xs ! (parent j))" if "0 < j" "j < n" "j \<noteq> k" for j
    using h that by (simp add: hole_up_def edge_ok_def)
  have c: "\<not> before (xs ! j) (xs ! ?p)" if "0 < j" "j < n" "parent j = k" for j
    using h that k by (simp add: hole_up_def)
  have sib: "\<not> before (xs ! j) (xs ! k)" if "0 < j" "j < n" "parent j = ?p" "j \<noteq> k" for j
    using e[OF that(1,2,4)] that(3) lt trans by metis
  have "edge_ok before ?ys j" if j: "0 < j" "j < n" "j \<noteq> ?p" for j
  proof -
    consider "j = k" | "j \<noteq> k" "parent j = ?p" | "j \<noteq> k" "parent j = k"
      | "j \<noteq> k" "parent j \<noteq> ?p" "parent j \<noteq> k" by blast
    then show ?thesis
    proof cases
      case 1
      then show ?thesis
        using irrefl asym[OF lt] p k nth[of k] nth[of "parent k"] by (simp add: edge_ok_def)
    next
      case 2
      then show ?thesis
        using sib[of j] j p k nth[of j] nth[of "parent k"] by (simp add: edge_ok_def)
    next
      case 3
      then show ?thesis
        using c[of j] j k p nth[of j] nth[of k] by (simp add: edge_ok_def)
    next
      case 4
      then show ?thesis using e[of j] j by (simp add: edge_ok_def nth)
    qed
  qed
  moreover have "\<not> before (?ys ! j) (?ys ! (parent ?p))"
    if p0: "0 < ?p" and j: "0 < j" "j < n" "parent j = ?p" for j
  proof -
    have g: "parent ?p < ?p" using p0 by simp
    have pg: "\<not> before (xs ! ?p) (xs ! (parent ?p))"
      using e[of ?p] p0 p k by linarith
    have ysg: "?ys ! (parent ?p) = xs ! (parent ?p)"
    proof -
      have "parent ?p \<noteq> k" "parent ?p \<noteq> ?p" "parent ?p < n" using g p k by linarith+
      then show ?thesis by (simp add: nth)
    qed
    show ?thesis
    proof (cases "j = k")
      case True
      then show ?thesis using pg ysg nth[of j] j by simp
    next
      case False
      have "j \<noteq> ?p" using j parent_less by (metis less_irrefl)
      then have "?ys ! j = xs ! j" using nth[of j] j False by simp
      moreover have "\<not> before (xs ! j) (xs ! ?p)" using e[of j] j False by simp
      ultimately show ?thesis using pg ysg neg_trans by metis
    qed
  qed
  ultimately show ?thesis unfolding hole_up_def by blast
qed

lemma heap_hole_down:
  assumes "hole_down before lo n k xs" and "0 < lo"
    and "\<And>j. j < n \<Longrightarrow> 0 < j \<Longrightarrow> parent j = k \<Longrightarrow> edge_ok before xs j"
  shows "heap_from before lo n xs"
  using assms unfolding hole_down_def heap_from_def by (meson le_trans less_le_trans)

lemma sift_down_step:
  assumes h: "hole_down before lo n k xs" and lo: "0 < lo" "lo \<le> 2 * k + 1"
    and n: "n \<le> length xs" and i: "i < n" "0 < i" "parent i = k"
    and best: "\<And>j. j < n \<Longrightarrow> 0 < j \<Longrightarrow> parent j = k \<Longrightarrow> \<not> before (xs ! j) (xs ! i)"
    and lt: "before (xs ! i) (xs ! k)"
  shows "hole_down before lo n i (swap i k xs)"
proof -
  let ?ys = "swap i k xs"
  have ki: "k < i" using i by auto
  have nth: "?ys ! j = (if j = i then xs ! k else if j = k then xs ! i else xs ! j)"
    if "j < n" for j
    using that i ki n by (simp add: swap_nth)
  have e: "\<not> before (xs ! j) (xs ! (parent j))"
    if "lo \<le> j" "j < n" "0 < j" "parent j \<noteq> k" for j
    using h that by (simp add: hole_down_def edge_ok_def)
  have g: "\<not> before (xs ! j) (xs ! (parent k))"
    if "lo \<le> k" "0 < k" "j < n" "0 < j" "parent j = k" for j
    using h that by (simp add: hole_down_def)
  have "edge_ok before ?ys j" if j: "lo \<le> j" "j < n" "0 < j" "parent j \<noteq> i" for j
  proof -
    consider "j = i" | "j \<noteq> i" "parent j = k" | "j = k"
      | "j \<noteq> i" "j \<noteq> k" "parent j \<noteq> k" by blast
    then show ?thesis
    proof cases
      case 1
      then show ?thesis using asym lt i ki by (simp add: edge_ok_def nth)
    next
      case 2
      have "j \<noteq> k" using 2 j parent_less by (metis less_irrefl)
      then show ?thesis using best[of j] 2 j ki i by (simp add: edge_ok_def nth)
    next
      case 3
      have "parent k < k" using 3 j by simp
      then show ?thesis
        using irrefl g[of i] 3 j i ki nth[of k] nth[of "parent k"] by (auto simp: edge_ok_def)
    next
      case 4
      then show ?thesis using e[of j] j by (simp add: edge_ok_def nth)
    qed
  qed
  moreover have "\<not> before (?ys ! j) (?ys ! (parent i))"
    if j: "j < n" "0 < j" "parent j = i" for j
  proof -
    have "i < j" using j by auto
    moreover have "lo \<le> j" using lo ki \<open>i < j\<close> parent_children[of i k] parent_children[of j i] i j by auto
    ultimately have "\<not> before (xs ! j) (xs ! i)"
      using e[of j] j ki by simp
    moreover have "?ys ! j = xs ! j" using \<open>i < j\<close> ki nth[of j] j by simp
    moreover have "?ys ! (parent i) = xs ! i" using i ki nth[of k] by simp
    ultimately show ?thesis by simp
  qed
  ultimately show ?thesis unfolding hole_down_def by blast
qed

end

end
