(* ===== verification/Timer_Heap.thy ===== *)
theory Timer_Heap
  imports Heap_Order
begin

text \<open>
  The heap of timers: \<open>timer/Heap.h\<close>, \<open>timer/Heap.cpp\<close>. The vector holds pointers; the
  pointers are of any type \<open>'a\<close> here and \<open>ex\<close> reads the expiry time through one
  (\<open>Timer::get_expire_time\<close>), so that the object graph stays with the timer manager. The
  field \<open>m_last_expire\<close> is written by the constructor and never read; it is left out.
\<close>

record 'a theap =
  m_root :: "'a list"
  m_heap_size :: nat

definition new_theap :: "'a theap" where
  "new_theap = \<lparr>m_root = [], m_heap_size = 0\<rparr>"

text \<open>\<open>adjust_heap\<close>: sift the last element up.\<close>

function adjust_heap_loop :: "('a \<Rightarrow> u64) \<Rightarrow> nat \<Rightarrow> 'a list \<Rightarrow> 'a list" where
  "adjust_heap_loop ex i xs =
     (if i = 0 then xs
      else let par = (i - 1) div 2 in
        if ex (xs ! i) < ex (xs ! par) then adjust_heap_loop ex par (swap i par xs)
        else xs)"
  by pat_completeness auto
termination
  by (relation "measure (\<lambda>(ex, i, xs). i)") auto

definition adjust_heap :: "('a \<Rightarrow> u64) \<Rightarrow> 'a theap \<Rightarrow> 'a theap" where
  "adjust_heap ex h =
     (if m_heap_size h = 1 then h
      else h\<lparr>m_root := adjust_heap_loop ex (m_heap_size h - 1) (m_root h)\<rparr>)"

text \<open>
  \<open>adjust_heap_2\<close>: sift the element at \<open>k\<close> down. The code compares the children with
  \<open>max_index = m_heap_size - 1\<close> by \<open><\<close>, so the last element is never looked at.
\<close>

function adjust_heap_2_loop :: "('a \<Rightarrow> u64) \<Rightarrow> int \<Rightarrow> nat \<Rightarrow> 'a list \<Rightarrow> 'a list" where
  "adjust_heap_2_loop ex max_index k xs =
     (if 2 * int k + 1 < max_index then
        let i = (if max_index \<le> 2 * int k + 2 then 2 * k + 1
                 else if ex (xs ! (2 * k + 1)) < ex (xs ! (2 * k + 2)) then 2 * k + 1
                 else 2 * k + 2)
        in if ex (xs ! i) < ex (xs ! k) then adjust_heap_2_loop ex max_index i (swap i k xs)
           else xs
      else xs)"
  by pat_completeness auto
termination
  by (relation "measure (\<lambda>(ex, m, k, xs). nat (m - int k))") (auto split: if_splits)

definition adjust_heap_2 :: "('a \<Rightarrow> u64) \<Rightarrow> nat \<Rightarrow> nat \<Rightarrow> 'a list \<Rightarrow> 'a list" where
  "adjust_heap_2 ex heap_size start xs = adjust_heap_2_loop ex (int heap_size - 1) start xs"

definition add_timer_to_heap :: "('a \<Rightarrow> u64) \<Rightarrow> 'a \<Rightarrow> 'a theap \<Rightarrow> bool \<times> 'a theap" where
  "add_timer_to_heap ex tmr h =
     (let expire = (if m_root h = [] then 0 else ex (m_root h ! 0));
          h1 = adjust_heap ex (h\<lparr>m_root := m_root h @ [tmr], m_heap_size := m_heap_size h + 1\<rparr>)
      in (expire = 0 \<or> ex (m_root h1 ! 0) < expire, h1))"

definition get_root_time :: "('a \<Rightarrow> u64) \<Rightarrow> 'a theap \<Rightarrow> u64" where
  "get_root_time ex h = (if m_root h = [] then - 1 else ex (m_root h ! 0))"

text \<open>The loop of \<open>get_and_remove_expire_timers\<close>, over the heap size and the vector.\<close>

fun expire_loop :: "('a \<Rightarrow> u64) \<Rightarrow> u64 \<Rightarrow> nat \<Rightarrow> 'a list \<Rightarrow> nat \<times> 'a list" where
  "expire_loop ex tm 0 xs = (0, xs)"
| "expire_loop ex tm (Suc n) xs =
     (if ex (xs ! 0) < tm then expire_loop ex tm n (adjust_heap_2 ex n 0 (swap 0 n xs))
      else (Suc n, xs))"

definition get_and_remove_expire_timers ::
    "('a \<Rightarrow> u64) \<Rightarrow> u64 \<Rightarrow> 'a theap \<Rightarrow> 'a list \<times> 'a theap" where
  "get_and_remove_expire_timers ex tm h =
     (let backup_size = m_heap_size h;
          (n, xs) = expire_loop ex tm backup_size (m_root h)
      in (drop n (take backup_size xs), \<lparr>m_root = take n xs @ drop backup_size xs, m_heap_size = n\<rparr>))"

fun find_elememt_in_vector :: "'a \<Rightarrow> 'a list \<Rightarrow> int" where
  "find_elememt_in_vector tmr [] = - 1"
| "find_elememt_in_vector tmr (x # xs) =
     (if x = tmr then 0
      else let r = find_elememt_in_vector tmr xs in if r = - 1 then - 1 else r + 1)"

text \<open>
  \<open>delete_timer_from_heap\<close>. After the erase the code reads \<open>m_root[0]\<close>, which is outside the
  vector when the timer was the last one.
\<close>

definition delete_timer_from_heap :: "('a \<Rightarrow> u64) \<Rightarrow> 'a \<Rightarrow> 'a theap \<Rightarrow> (bool \<times> 'a theap) run" where
  "delete_timer_from_heap ex tmr h =
     (if m_root h = [] then Inr (False, h)
      else let expire = ex (m_root h ! 0); ret = find_elememt_in_vector tmr (m_root h) in
        if ret = - 1 then Inr (False, h)
        else if m_heap_size h = 0 then Inl Out_Of_Bounds
        else let n = m_heap_size h - 1;
                 xs = adjust_heap_2 ex n (nat ret) (swap (nat ret) n (m_root h));
                 ys = take n xs @ drop (Suc n) xs
             in and_then (at ys 0) (\<lambda>r. Inr (ex r \<noteq> expire, \<lparr>m_root = ys, m_heap_size = n\<rparr>)))"

lemmas theap_ops = add_timer_to_heap_def get_root_time_def get_and_remove_expire_timers_def
  delete_timer_from_heap_def adjust_heap_def new_theap_def

declare adjust_heap_loop.simps [simp del] adjust_heap_2_loop.simps [simp del]

subsection \<open>The comparison as a weak order\<close>

abbreviation sooner :: "('a \<Rightarrow> u64) \<Rightarrow> 'a \<Rightarrow> 'a \<Rightarrow> bool" where
  "sooner ex a b \<equiv> ex a < ex b"

interpretation expiry: weak_order "sooner ex" for ex :: "'a \<Rightarrow> u64"
  by unfold_locales auto

definition wf_theap :: "'a theap \<Rightarrow> bool" where
  "wf_theap h \<longleftrightarrow> m_heap_size h = length (m_root h)"

definition heap_ok :: "('a \<Rightarrow> u64) \<Rightarrow> 'a theap \<Rightarrow> bool" where
  "heap_ok ex h \<longleftrightarrow> heap_on (sooner ex) (m_heap_size h) (m_root h)"

subsection \<open>Sift up\<close>

lemma adjust_heap_loop_mset:
  "i < length xs \<Longrightarrow> mset (adjust_heap_loop ex i xs) = mset xs"
proof (induction ex i xs rule: adjust_heap_loop.induct)
  case (1 ex i xs)
  then show ?case by (subst adjust_heap_loop.simps) (simp add: Let_def less_imp_diff_less)
qed

lemma adjust_heap_loop_length:
  "length (adjust_heap_loop ex i xs) = length xs"
proof (induction ex i xs rule: adjust_heap_loop.induct)
  case (1 ex i xs)
  then show ?case by (subst adjust_heap_loop.simps) (simp add: Let_def)
qed

lemma adjust_heap_loop_heap:
  assumes "hole_up (sooner ex) n i xs" "i < n" "n \<le> length xs"
  shows "heap_on (sooner ex) n (adjust_heap_loop ex i xs)"
  using assms
proof (induction ex i xs rule: adjust_heap_loop.induct)
  case (1 ex i xs)
  show ?case
  proof (cases "i \<noteq> 0 \<and> ex (xs ! i) < ex (xs ! parent i)")
    case True
    then have "hole_up (sooner ex) n (parent i) (swap i (parent i) xs)"
      using expiry.sift_up_step[of ex n i xs] "1.prems" by simp
    then have "heap_on (sooner ex) n (adjust_heap_loop ex (parent i) (swap i (parent i) xs))"
      using "1.IH"[of "parent i"] True "1.prems" by (simp add: parent_def)
    then show ?thesis
      using True by (subst adjust_heap_loop.simps) (simp add: parent_def Let_def)
  next
    case False
    then have "heap_on (sooner ex) n xs"
      using heap_hole_up[OF "1.prems"(1)] by (auto simp: edge_ok_def)
    then show ?thesis
      using False by (subst adjust_heap_loop.simps) (auto simp: parent_def Let_def)
  qed
qed

lemma adjust_heap_wf:
  "wf_theap h \<Longrightarrow> wf_theap (adjust_heap ex h)"
  by (simp add: wf_theap_def adjust_heap_def adjust_heap_loop_length)

lemma add_timer_to_heap_wf:
  "wf_theap h \<Longrightarrow> wf_theap (snd (add_timer_to_heap ex t h))"
  unfolding add_timer_to_heap_def Let_def snd_conv
  by (rule adjust_heap_wf) (simp add: wf_theap_def)

lemma add_timer_to_heap_mset:
  assumes "wf_theap h"
  shows "mset (m_root (snd (add_timer_to_heap ex t h))) = add_mset t (mset (m_root h))"
  using assms by (auto simp: add_timer_to_heap_def adjust_heap_def Let_def wf_theap_def adjust_heap_loop_mset)

lemma add_timer_to_heap_ok:
  assumes "wf_theap h" "heap_ok ex h"
  shows "heap_ok ex (snd (add_timer_to_heap ex t h))"
proof -
  let ?n = "m_heap_size h"
  have "heap_on (sooner ex) ?n (m_root h @ [t])"
    by (rule heap_from_take_cong[of ?n _ "m_root h"]) (use assms in \<open>auto simp: heap_ok_def wf_theap_def\<close>)
  then have "hole_up (sooner ex) (Suc ?n) ?n (m_root h @ [t])"
    by (rule hole_up_last)
  then have "heap_on (sooner ex) (Suc ?n) (adjust_heap_loop ex ?n (m_root h @ [t]))"
    using assms by (intro adjust_heap_loop_heap) (auto simp: wf_theap_def)
  then show ?thesis
    by (simp add: heap_ok_def add_timer_to_heap_def adjust_heap_def Let_def)
qed

subsection \<open>The root\<close>

lemma heap_ok_root_least:
  assumes "wf_theap h" "heap_ok ex h" "t \<in> set (m_root h)"
  shows "ex (m_root h ! 0) \<le> ex t"
proof -
  obtain j where "j < length (m_root h)" "t = m_root h ! j"
    using assms(3) by (auto simp: in_set_conv_nth)
  then show ?thesis
    using expiry.root_least[of ex "m_heap_size h" "m_root h" j] assms
    by (simp add: heap_ok_def wf_theap_def)
qed

subsection \<open>Sift down\<close>

definition sift_child :: "('a \<Rightarrow> u64) \<Rightarrow> int \<Rightarrow> nat \<Rightarrow> 'a list \<Rightarrow> nat" where
  "sift_child ex m k xs =
     (if m \<le> 2 * int k + 2 then 2 * k + 1
      else if ex (xs ! (2 * k + 1)) < ex (xs ! (2 * k + 2)) then 2 * k + 1 else 2 * k + 2)"

lemma adjust_heap_2_loop_unfold:
  "adjust_heap_2_loop ex m k xs =
     (if 2 * int k + 1 < m \<and> ex (xs ! sift_child ex m k xs) < ex (xs ! k)
      then adjust_heap_2_loop ex m (sift_child ex m k xs) (swap (sift_child ex m k xs) k xs) else xs)"
  by (subst adjust_heap_2_loop.simps) (simp only: sift_child_def Let_def if_bool_eq_conj split: if_splits, simp)

lemma sift_child_bounds:
  assumes "2 * int k + 1 < m"
  shows "k < sift_child ex m k xs" "int (sift_child ex m k xs) < m"
    "0 < sift_child ex m k xs" "parent (sift_child ex m k xs) = k"
  using assms by (auto simp: sift_child_def parent_def)

lemma sift_child_best:
  assumes "int j < m" "0 < j" "parent j = k"
  shows "\<not> ex (xs ! j) < ex (xs ! sift_child ex m k xs)"
  using assms by (auto simp: parent_children sift_child_def)

text \<open>Induction along the loop: one case per iteration, one for its end.\<close>

lemma adjust_heap_2_loop_induct [case_names step stop]:
  assumes "\<And>k xs. 2 * int k + 1 < m \<Longrightarrow> ex (xs ! sift_child ex m k xs) < ex (xs ! k) \<Longrightarrow>
      P (sift_child ex m k xs) (swap (sift_child ex m k xs) k xs) \<Longrightarrow> P k xs"
    and "\<And>k xs. \<not> (2 * int k + 1 < m \<and> ex (xs ! sift_child ex m k xs) < ex (xs ! k)) \<Longrightarrow> P k xs"
  shows "P k xs"
proof (induction "nat (m - int k)" arbitrary: k xs rule: less_induct)
  case (less k xs)
  show ?case
  proof (cases "2 * int k + 1 < m \<and> ex (xs ! sift_child ex m k xs) < ex (xs ! k)")
    case True
    have "nat (m - int (sift_child ex m k xs)) < nat (m - int k)"
      using sift_child_bounds(1,2)[of k m ex xs] True by linarith
    then show ?thesis using less assms(1) True by blast
  next
    case False
    then show ?thesis by (rule assms(2))
  qed
qed

lemma adjust_heap_2_loop_outside:
  "m \<le> int (length xs) \<Longrightarrow>
   same_outside 0 (nat m) xs (adjust_heap_2_loop ex m k xs) \<and>
   mset (adjust_heap_2_loop ex m k xs) = mset xs"
proof (induction k xs rule: adjust_heap_2_loop_induct[where m = m and ex = ex])
  case (step k xs)
  let ?i = "sift_child ex m k xs"
  have b: "k < ?i" "?i < nat m" "nat m \<le> length xs"
    using sift_child_bounds[OF step(1), of ex xs] step.prems by linarith+
  then have "same_outside 0 (nat m) xs (swap ?i k xs)" by (intro same_outside_swap) auto
  moreover have "mset (swap ?i k xs) = mset xs" using b by simp
  ultimately show ?case
    using step by (subst (1 2) adjust_heap_2_loop_unfold) (auto intro: same_outside_trans)
next
  case (stop k xs)
  then have "adjust_heap_2_loop ex m k xs = xs"
    by (subst adjust_heap_2_loop_unfold) auto
  then show ?case by simp
qed

lemma adjust_heap_2_loop_heap:
  assumes "hole_down (sooner ex) lo n k xs" "0 < lo" "lo \<le> 2 * k + 1" "n \<le> length xs" "m = int n"
  shows "heap_from (sooner ex) lo n (adjust_heap_2_loop ex m k xs)"
  using assms
proof (induction k xs rule: adjust_heap_2_loop_induct[where m = m and ex = ex])
  case (step k xs)
  let ?i = "sift_child ex m k xs"
  have i: "?i < n" "0 < ?i" "parent ?i = k" "k < ?i"
    using sift_child_bounds[OF step(1), of ex xs] step.prems(5) by auto
  have "\<not> ex (xs ! j) < ex (xs ! ?i)" if "j < n" "0 < j" "parent j = k" for j
    using sift_child_best[of j m k ex xs] that step.prems(5) by simp
  then have "hole_down (sooner ex) lo n ?i (swap ?i k xs)"
    by (intro expiry.sift_down_step) (use step i in auto)
  then show ?case
    using step i by (subst adjust_heap_2_loop_unfold) simp
next
  case (stop k xs)
  have "edge_ok (sooner ex) xs j" if j: "j < n" "0 < j" "parent j = k" for j
  proof -
    have "2 * int k + 1 < m" using j stop.prems(5) by (auto simp: parent_children)
    then have "\<not> ex (xs ! sift_child ex m k xs) < ex (xs ! k)" using stop(1) by simp
    moreover have "\<not> ex (xs ! j) < ex (xs ! sift_child ex m k xs)"
      using sift_child_best[of j m k ex xs] j stop.prems(5) by simp
    ultimately show ?thesis using j by (auto simp: edge_ok_def)
  qed
  then have "heap_from (sooner ex) lo n xs"
    using expiry.heap_hole_down stop.prems by blast
  moreover have "adjust_heap_2_loop ex m k xs = xs"
    using stop(1) by (subst adjust_heap_2_loop_unfold) auto
  ultimately show ?case by simp
qed

lemma adjust_heap_2_loop_negative [simp]: "m \<le> 0 \<Longrightarrow> adjust_heap_2_loop ex m k xs = xs"
  by (subst adjust_heap_2_loop.simps) simp

lemma adjust_heap_2_outside:
  assumes "n \<le> length xs"
  shows "same_outside 0 (n - 1) xs (adjust_heap_2 ex n k xs)"
    and "mset (adjust_heap_2 ex n k xs) = mset xs"
proof -
  have *: "same_outside 0 (n - 1) xs (adjust_heap_2 ex n k xs) \<and> mset (adjust_heap_2 ex n k xs) = mset xs"
  proof (cases "0 < n \<and> k < n - 1")
    case True
    then have "int n - 1 \<le> int (length xs)" "nat (int n - 1) = n - 1" using assms by linarith+
    then show ?thesis
      using adjust_heap_2_loop_outside[of "int n - 1" xs ex k] by (simp add: adjust_heap_2_def)
  next
    case False
    then have "adjust_heap_2 ex n k xs = xs"
      unfolding adjust_heap_2_def by (subst adjust_heap_2_loop.simps) auto
    then show ?thesis by simp
  qed
  then show "same_outside 0 (n - 1) xs (adjust_heap_2 ex n k xs)"
    and "mset (adjust_heap_2 ex n k xs) = mset xs" by auto
qed

lemma adjust_heap_2_length [simp]: "n \<le> length xs \<Longrightarrow> length (adjust_heap_2 ex n k xs) = length xs"
  using adjust_heap_2_outside(1)[of n xs ex k] by (auto simp: same_outside_def)

lemma adjust_heap_2_root_heap:
  assumes "heap_on (sooner ex) n xs" "n < length xs"
  shows "heap_on (sooner ex) (n - 1) (adjust_heap_2 ex n 0 (swap 0 n xs))"
proof (cases "n = 0")
  case False
  have "edge_ok (sooner ex) (swap 0 n xs) j" if "2 < j" "j < n - 1" for j
  proof -
    have "edge_ok (sooner ex) xs j" using assms(1) that by (auto simp: heap_from_def)
    moreover have "0 < parent j" using that by (auto simp: parent_def)
    moreover have "j \<noteq> n" "parent j \<noteq> n" "j < length xs" "parent j < length xs" "0 < length xs"
      using that assms(2) parent_le[of j] by linarith+
    ultimately show ?thesis using that assms(2) by (simp add: edge_ok_def swap_nth)
  qed
  then have "hole_down (sooner ex) 1 (n - 1) 0 (swap 0 n xs)"
    by (rule hole_down_root)
  then have "heap_on (sooner ex) (n - 1) (adjust_heap_2_loop ex (int n - 1) 0 (swap 0 n xs))"
    using assms(2) False by (intro adjust_heap_2_loop_heap) auto
  then show ?thesis by (simp add: adjust_heap_2_def)
qed simp

subsection \<open>Taking the expired timers out\<close>

lemma expire_loop_facts:
  assumes "expire_loop ex tm n xs = (n', ys)" "n \<le> length xs"
  shows "n' \<le> n \<and> same_outside 0 n xs ys \<and> mset ys = mset xs \<and>
    (\<forall>j. n' \<le> j \<and> j < n \<longrightarrow> ex (ys ! j) < tm) \<and> (n' = 0 \<or> tm \<le> ex (ys ! 0))"
  using assms
proof (induction ex tm n xs rule: expire_loop.induct)
  case (2 ex tm n xs)
  show ?case
  proof (cases "ex (xs ! 0) < tm")
    case True
    let ?zs = "adjust_heap_2 ex n 0 (swap 0 n xs)"
    have len: "n < length xs" using "2.prems" by simp
    have IH: "n' \<le> n \<and> same_outside 0 n ?zs ys \<and> mset ys = mset ?zs \<and>
      (\<forall>j. n' \<le> j \<and> j < n \<longrightarrow> ex (ys ! j) < tm) \<and> (n' = 0 \<or> tm \<le> ex (ys ! 0))"
      using "2.IH"[OF True] "2.prems" True len by simp
    have "mset (swap 0 n xs) = mset xs" using len by (intro mset_swap_cells) auto
    then have z: "same_outside 0 (n - 1) (swap 0 n xs) ?zs" "mset ?zs = mset xs"
      using adjust_heap_2_outside[of n "swap 0 n xs" ex 0] len by auto
    have lz: "length ?zs = length xs" using same_outside_length[OF z(1)] by simp
    have sw: "same_outside 0 (Suc n) xs (swap 0 n xs)"
      using len by (intro same_outside_swap) auto
    have "same_outside 0 (Suc n) (swap 0 n xs) ?zs" "same_outside 0 (Suc n) ?zs ys"
      using same_outside_mono[OF z(1), of 0 "Suc n"] same_outside_mono[of 0 n ?zs ys 0 "Suc n"] IH
      by auto
    then have "same_outside 0 (Suc n) xs ys"
      using sw same_outside_trans by blast
    moreover have "ys ! n = xs ! 0"
    proof -
      have "ys ! n = ?zs ! n" using IH len lz by (auto simp: same_outside_def)
      also have "\<dots> = swap 0 n xs ! n" using z(1) len by (auto simp: same_outside_def)
      also have "\<dots> = xs ! 0" using len by simp
      finally show ?thesis .
    qed
    ultimately show ?thesis
      using IH z True by (auto simp: less_Suc_eq)
  next
    case False
    then show ?thesis using "2.prems" by auto
  qed
qed auto

lemma expire_loop_heap:
  assumes "expire_loop ex tm n xs = (n', ys)" "n \<le> length xs" "heap_on (sooner ex) (n - 1) xs"
  shows "heap_on (sooner ex) (n' - 1) ys"
  using assms
proof (induction ex tm n xs rule: expire_loop.induct)
  case (2 ex tm n xs)
  then show ?case
    using adjust_heap_2_root_heap[of ex n xs] by (auto split: if_splits)
qed auto

lemma get_and_remove_expire_timers_wf:
  assumes "wf_theap h" "get_and_remove_expire_timers ex tm h = (ts, h')"
  shows "wf_theap h'" and "mset ts + mset (m_root h') = mset (m_root h)"
    and "\<And>t. t \<in> set ts \<Longrightarrow> ex t < tm"
proof -
  let ?N = "m_heap_size h"
  obtain n xs where e: "expire_loop ex tm ?N (m_root h) = (n, xs)"
    by (cases "expire_loop ex tm ?N (m_root h)") auto
  have f: "n \<le> ?N" "same_outside 0 ?N (m_root h) xs" "mset xs = mset (m_root h)"
    "\<And>j. n \<le> j \<Longrightarrow> j < ?N \<Longrightarrow> ex (xs ! j) < tm"
    using expire_loop_facts[OF e] assms(1) by (auto simp: wf_theap_def)
  have len: "length xs = ?N" using f(2) assms(1) by (simp add: same_outside_def wf_theap_def)
  have r: "ts = drop n xs" "m_root h' = take n xs" "m_heap_size h' = n"
    using assms e len by (auto simp: get_and_remove_expire_timers_def Let_def)
  show "wf_theap h'" using r len f(1) by (simp add: wf_theap_def)
  show "mset ts + mset (m_root h') = mset (m_root h)"
    using r f(3) by (metis append_take_drop_id mset_append union_commute)
  show "ex t < tm" if "t \<in> set ts" for t
    using that f(4) len unfolding r(1) by (auto simp: in_set_conv_nth)
qed

lemma get_and_remove_expire_timers_none:
  assumes "wf_theap h" "get_and_remove_expire_timers ex tm h = (ts, h')"
  shows "ts = [] \<longleftrightarrow> m_root h = [] \<or> tm \<le> ex (m_root h ! 0)"
proof (cases "m_heap_size h")
  case 0
  then show ?thesis using assms by (auto simp: get_and_remove_expire_timers_def Let_def wf_theap_def)
next
  case (Suc n)
  then have len: "length (m_root h) = Suc n" using assms(1) by (simp add: wf_theap_def)
  show ?thesis
  proof (cases "ex (m_root h ! 0) < tm")
    case True
    let ?zs = "adjust_heap_2 ex n 0 (swap 0 n (m_root h))"
    obtain n' xs where e: "expire_loop ex tm n ?zs = (n', xs)"
      by (cases "expire_loop ex tm n ?zs") auto
    have "n' \<le> n" "length xs = Suc n"
      using expire_loop_facts[OF e] len by (auto simp: same_outside_def)
    then have "ts \<noteq> []"
      using assms(2) e Suc True by (auto simp: get_and_remove_expire_timers_def Let_def)
    then show ?thesis using True len by auto
  next
    case False
    then show ?thesis
      using assms(2) Suc len by (auto simp: get_and_remove_expire_timers_def Let_def)
  qed
qed

text \<open>Every timer left, but possibly the one in the last slot, has not expired.\<close>

lemma get_and_remove_expire_timers_left:
  assumes "wf_theap h" "heap_ok ex h" "get_and_remove_expire_timers ex tm h = (ts, h')"
    and j: "j + 1 < m_heap_size h'"
  shows "tm \<le> ex (m_root h' ! j)"
proof -
  let ?N = "m_heap_size h"
  obtain n xs where e: "expire_loop ex tm ?N (m_root h) = (n, xs)"
    by (cases "expire_loop ex tm ?N (m_root h)") auto
  have f: "n \<le> ?N" "same_outside 0 ?N (m_root h) xs" "n = 0 \<or> tm \<le> ex (xs ! 0)"
    using expire_loop_facts[OF e] assms(1) by (auto simp: wf_theap_def)
  have len: "length xs = ?N" using f(2) assms(1) by (simp add: same_outside_def wf_theap_def)
  have r: "m_root h' = take n xs" "m_heap_size h' = n"
    using assms(3) e len by (auto simp: get_and_remove_expire_timers_def Let_def)
  have "heap_on (sooner ex) (?N - 1) (m_root h)"
    using assms(2) by (auto simp: heap_ok_def intro: heap_from_mono)
  then have "heap_on (sooner ex) (n - 1) xs"
    using expire_loop_heap[OF e] assms(1) by (simp add: wf_theap_def)
  then have "ex (xs ! 0) \<le> ex (xs ! j)"
    using expiry.root_least[of ex "n - 1" xs j] j r by (auto simp: not_less)
  then show ?thesis using f(3) j r by auto
qed

subsection \<open>Deleting one timer\<close>

lemma find_elememt_in_vector_range: "- 1 \<le> find_elememt_in_vector t xs"
  by (induction xs) (auto simp: Let_def)

lemma find_elememt_in_vector_absent: "find_elememt_in_vector t xs = - 1 \<longleftrightarrow> t \<notin> set xs"
proof (induction xs)
  case (Cons x xs)
  then show ?case using find_elememt_in_vector_range[of t xs] by (auto simp: Let_def)
qed simp

lemma find_elememt_in_vector_found:
  "t \<in> set xs \<Longrightarrow> nat (find_elememt_in_vector t xs) < length xs \<and>
     xs ! nat (find_elememt_in_vector t xs) = t"
proof (induction xs)
  case (Cons x xs)
  show ?case
  proof (cases "x = t")
    case False
    then have t: "t \<in> set xs" using Cons.prems by simp
    then have "0 \<le> find_elememt_in_vector t xs"
      using find_elememt_in_vector_absent[of t xs] find_elememt_in_vector_range[of t xs] by auto
    then show ?thesis using Cons.IH[OF t] False by (auto simp: Let_def nat_add_distrib)
  qed simp
qed simp

lemma mset_remove_cell:
  assumes "n < length xs"
  shows "add_mset (xs ! n) (mset (take n xs @ drop (Suc n) xs)) = mset xs"
proof -
  have "mset xs = mset (take n xs @ xs ! n # drop (Suc n) xs)"
    using assms by (simp add: Cons_nth_drop_Suc)
  then show ?thesis by simp
qed

lemma delete_timer_absent [simp]:
  "t \<notin> set (m_root h) \<Longrightarrow> delete_timer_from_heap ex t h = Inr (False, h)"
  by (simp add: delete_timer_from_heap_def find_elememt_in_vector_absent)

lemma delete_timer_facts:
  assumes "wf_theap h" "t \<in> set (m_root h)" "delete_timer_from_heap ex t h = Inr (b, h')"
  shows "wf_theap h'" and "add_mset t (mset (m_root h')) = mset (m_root h)"
    and "m_root h' \<noteq> []" and "b \<longleftrightarrow> ex (m_root h' ! 0) \<noteq> ex (m_root h ! 0)"
proof -
  let ?xs = "m_root h" let ?n = "m_heap_size h - 1" let ?i = "nat (find_elememt_in_vector t ?xs)"
  let ?zs = "adjust_heap_2 ex ?n ?i (swap ?i ?n ?xs)"
  have i: "?i < length ?xs" "?xs ! ?i = t"
    using find_elememt_in_vector_found[OF assms(2)] by auto
  have n: "?n < length ?xs" "m_heap_size h = length ?xs" "?xs \<noteq> []"
    using i assms(1) by (auto simp: wf_theap_def)
  have z: "same_outside 0 (?n - 1) (swap ?i ?n ?xs) ?zs" "mset ?zs = mset ?xs"
    using adjust_heap_2_outside[of ?n "swap ?i ?n ?xs" ex ?i] i n by auto
  have "?zs ! ?n = swap ?i ?n ?xs ! ?n" using z(1) n by (auto simp: same_outside_def)
  also have "\<dots> = t" using i n by (simp add: swap_nth)
  finally have last: "?zs ! ?n = t" .
  have len: "length ?zs = length ?xs" using same_outside_length[OF z(1)] by simp
  have f: "find_elememt_in_vector t ?xs \<noteq> - 1"
    using assms(2) by (simp add: find_elememt_in_vector_absent)
  let ?ys = "take ?n ?zs @ drop (Suc ?n) ?zs"
  have "and_then (at ?ys 0) (\<lambda>r. Inr (ex r \<noteq> ex (?xs ! 0), \<lparr>m_root = ?ys, m_heap_size = ?n\<rparr>)) = Inr (b, h')"
    using assms(3) n f by (simp only: delete_timer_from_heap_def Let_def) (simp split: if_splits)
  then obtain r0 where "at ?ys 0 = Inr r0" "b \<longleftrightarrow> ex r0 \<noteq> ex (?xs ! 0)"
    "h' = \<lparr>m_root = ?ys, m_heap_size = ?n\<rparr>" by (auto simp only: and_then_eq_Inr prod.inject sum.inject)
  then have r: "m_root h' = ?ys" "m_heap_size h' = ?n" "m_root h' \<noteq> []"
    "b \<longleftrightarrow> ex (m_root h' ! 0) \<noteq> ex (m_root h ! 0)"
    unfolding at_eq_Inr by (auto simp only: theap.simps length_greater_0_conv)
  show "wf_theap h'" using r(1,2) len n by (simp add: wf_theap_def)
  show "add_mset t (mset (m_root h')) = mset (m_root h)"
    using mset_remove_cell[of ?n ?zs] last len n z(2) r(1) by simp
  show "m_root h' \<noteq> []" "b \<longleftrightarrow> ex (m_root h' ! 0) \<noteq> ex (m_root h ! 0)" using r by auto
qed

lemma delete_timer_ok:
  assumes "wf_theap h" "t \<in> set (m_root h)" "2 \<le> m_heap_size h"
  shows "\<exists>b h'. delete_timer_from_heap ex t h = Inr (b, h')"
proof -
  let ?n = "m_heap_size h - 1" let ?i = "nat (find_elememt_in_vector t (m_root h))"
  let ?zs = "adjust_heap_2 ex ?n ?i (swap ?i ?n (m_root h))"
  have f: "find_elememt_in_vector t (m_root h) \<noteq> - 1"
    using assms(2) by (simp add: find_elememt_in_vector_absent)
  have "0 < length (take ?n ?zs @ drop (Suc ?n) ?zs)"
    using assms by (simp add: wf_theap_def)
  then have "\<exists>r. at (take ?n ?zs @ drop (Suc ?n) ?zs) 0 = Inr r" by (meson at_eq_Inr)
  then show ?thesis
    using assms f
    by (auto simp only: delete_timer_from_heap_def Let_def and_then_Inr sum.inject prod.inject
        ex_simps simp_thms split: if_splits)
qed

subsection \<open>What the manager relies on\<close>

text \<open>
  The contract between the timer manager and its heap, on the collection of pointers alone:
  adding adds one, taking out splits, deleting removes one. The order of the heap is not
  part of it. The facts on sets below are what the manager's invariant needs.
\<close>

locale timer_store =
  fixes add :: "'a \<Rightarrow> 'q \<Rightarrow> 'q"
    and take_out :: "'q \<Rightarrow> 'a list \<times> 'q"
    and delete :: "'a \<Rightarrow> 'q \<Rightarrow> 'q run"
    and elems :: "'q \<Rightarrow> 'a list"
    and invar :: "'q \<Rightarrow> bool"
  assumes add_invar: "invar q \<Longrightarrow> invar (add t q)"
    and add_elems: "invar q \<Longrightarrow> mset (elems (add t q)) = add_mset t (mset (elems q))"
    and take_out_invar: "invar q \<Longrightarrow> take_out q = (ts, q') \<Longrightarrow> invar q'"
    and take_out_elems: "invar q \<Longrightarrow> take_out q = (ts, q') \<Longrightarrow> mset ts + mset (elems q') = mset (elems q)"
    and delete_invar: "invar q \<Longrightarrow> t \<in> set (elems q) \<Longrightarrow> delete t q = Inr q' \<Longrightarrow> invar q'"
    and delete_elems: "invar q \<Longrightarrow> t \<in> set (elems q) \<Longrightarrow> delete t q = Inr q' \<Longrightarrow>
      add_mset t (mset (elems q')) = mset (elems q)"
begin

lemma add_set: "invar q \<Longrightarrow> set (elems (add t q)) = insert t (set (elems q))"
  using add_elems[of q t] by (metis set_mset_add_mset_insert set_mset_mset)

lemma add_distinct:
  "invar q \<Longrightarrow> distinct (elems (add t q)) \<longleftrightarrow> distinct (elems q) \<and> t \<notin> set (elems q)"
  using add_elems[of q t] by (metis distinct.simps(2) mset.simps(2) mset_eq_imp_distinct_iff)

lemma take_out_set:
  assumes "invar q" "take_out q = (ts, q')"
  shows "set (elems q) = set ts \<union> set (elems q')"
    and "distinct (elems q) \<longleftrightarrow> distinct ts \<and> distinct (elems q') \<and> set ts \<inter> set (elems q') = {}"
proof -
  have m: "mset (ts @ elems q') = mset (elems q)"
    using take_out_elems[OF assms] by simp
  show "set (elems q) = set ts \<union> set (elems q')"
    using m by (metis set_append set_mset_mset)
  show "distinct (elems q) \<longleftrightarrow> distinct ts \<and> distinct (elems q') \<and> set ts \<inter> set (elems q') = {}"
    using mset_eq_imp_distinct_iff[OF m] by simp
qed

lemma delete_set:
  assumes "invar q" "t \<in> set (elems q)" "delete t q = Inr q'" "distinct (elems q)"
  shows "set (elems q') = set (elems q) - {t}" and "distinct (elems q')"
proof -
  have m: "mset (t # elems q') = mset (elems q)"
    using delete_elems[OF assms(1-3)] by simp
  then have d: "distinct (t # elems q')" using assms(4) by (metis mset_eq_imp_distinct_iff)
  then show "distinct (elems q')" by simp
  have "insert t (set (elems q')) = set (elems q)" using m by (metis list.simps(15) set_mset_mset)
  then show "set (elems q') = set (elems q) - {t}" using d by auto
qed

end

interpretation heap_store: timer_store
  "\<lambda>t h. snd (add_timer_to_heap ex t h)" "get_and_remove_expire_timers ex tm"
  "\<lambda>t h. run_map snd (delete_timer_from_heap ex t h)" m_root wf_theap
  for ex :: "'a \<Rightarrow> u64" and tm :: u64
proof (unfold_locales, goal_cases)
  case (1 q t) then show ?case by (rule add_timer_to_heap_wf)
next
  case (2 q t) then show ?case by (rule add_timer_to_heap_mset)
next
  case (3 q ts q') then show ?case by (rule get_and_remove_expire_timers_wf(1))
next
  case (4 q ts q') then show ?case by (rule get_and_remove_expire_timers_wf(2))
next
  case (5 q t q') then show ?case using delete_timer_facts(1) by (auto simp: run_map_eq_Inr)
next
  case (6 q t q') then show ?case using delete_timer_facts(2) by (auto simp: run_map_eq_Inr)
qed

subsection \<open>Properties\<close>

definition demo_heap :: "nat theap" where
  "demo_heap = \<lparr>m_root = [1, 3, 2], m_heap_size = 3\<rparr>"

lemma demo_heap_ok [simp]: "wf_theap demo_heap" "heap_ok of_nat demo_heap"
  by code_simp+

text \<open>
  \<open>TimerHeap::add_timer_to_heap\<close> keeps the vector a heap on the expiry times, adds exactly
  the one timer, and answers \<open>true\<close> exactly when the vector was empty, when its root
  expired at time \<open>0\<close>, or when the earliest expiry has become earlier, which is when the
  manager has to re-arm its timerfd.
\<close>

theorem heap_add_correct:
  assumes "wf_theap h" "heap_ok ex h" "add_timer_to_heap ex t h = (r, h')"
  shows "wf_theap h' \<and> heap_ok ex h' \<and> mset (m_root h') = add_mset t (mset (m_root h)) \<and>
    (r \<longleftrightarrow> m_root h = [] \<or> get_root_time ex h = 0 \<or> get_root_time ex h' < get_root_time ex h)"
proof -
  have h': "h' = snd (add_timer_to_heap ex t h)" using assms(3) by simp
  have "m_root h' \<noteq> []"
    using add_timer_to_heap_mset[OF assms(1), of ex t] by (auto simp: h')
  then have "r \<longleftrightarrow> m_root h = [] \<or> get_root_time ex h = 0 \<or> get_root_time ex h' < get_root_time ex h"
    using assms(3) by (auto simp: add_timer_to_heap_def get_root_time_def Let_def)
  then show ?thesis
    using add_timer_to_heap_wf[OF assms(1)] add_timer_to_heap_ok[OF assms(1,2)]
      add_timer_to_heap_mset[OF assms(1)] by (simp add: h')
qed

lemma heap_add_correct_witness:
  "fst (add_timer_to_heap of_nat 0 demo_heap) \<and> heap_ok of_nat (snd (add_timer_to_heap of_nat 0 demo_heap))"
proof -
  have "add_timer_to_heap of_nat 0 demo_heap = (True, \<lparr>m_root = [0, 1, 2, 3], m_heap_size = 4\<rparr>)"
    by code_simp
  from heap_add_correct[OF demo_heap_ok this] this show ?thesis by simp
qed

text \<open>
  \<open>TimerHeap::get_root_time\<close>: on a heap with at least one timer, the answer is the earliest
  expiry time of all its timers.
\<close>

theorem root_time_earliest:
  assumes "wf_theap h" "heap_ok ex h" "m_root h \<noteq> []"
  shows "get_root_time ex h = Min (ex ` set (m_root h))"
proof -
  have "ex (m_root h ! 0) \<in> ex ` set (m_root h)" using assms(3) by (simp add: nth_mem)
  moreover have "\<And>x. x \<in> ex ` set (m_root h) \<Longrightarrow> ex (m_root h ! 0) \<le> x"
    using heap_ok_root_least[OF assms(1,2)] by auto
  ultimately have "Min (ex ` set (m_root h)) = ex (m_root h ! 0)"
    by (intro Min_eqI) auto
  then show ?thesis using assms(3) by (simp add: get_root_time_def)
qed

lemma root_time_earliest_witness: "Min (of_nat ` set (m_root demo_heap)) = (1::u64)"
  using root_time_earliest[OF demo_heap_ok] by (simp add: get_root_time_def demo_heap_def)

text \<open>
  C14 \<open>TimerHeap::get_and_remove_expire_timers\<close>, on any vector whose size is recorded, in heap
  order or not: it loses and duplicates no timer, takes out only timers whose expiry lies
  before \<open>tm\<close>, and takes out at least one exactly when the root has expired. Provided the vector
  is in heap order on the expiry times it leaves no expired timer behind except possibly the
  one in the last slot. Deletions and earlier calls of this function can break that order
  (see \<open>delete_breaks_order\<close> and \<open>expired_timer_missed\<close>), and then expired timers can stay
  in other slots, as \<open>expired_timers_left_unordered\<close> shows.
\<close>

theorem take_expired_correct:
  assumes "wf_theap h" "get_and_remove_expire_timers ex tm h = (ts, h')"
  shows "wf_theap h' \<and> mset ts + mset (m_root h') = mset (m_root h) \<and>
    (\<forall>t \<in> set ts. ex t < tm) \<and> (ts = [] \<longleftrightarrow> m_root h = [] \<or> tm \<le> get_root_time ex h) \<and>
    (heap_ok ex h \<longrightarrow> (\<forall>j. j + 1 < length (m_root h') \<longrightarrow> tm \<le> ex (m_root h' ! j)))"
proof -
  note k = get_and_remove_expire_timers_wf[OF assms]
  have "m_heap_size h' = length (m_root h')" using k(1) by (simp add: wf_theap_def)
  moreover have "ts = [] \<longleftrightarrow> m_root h = [] \<or> tm \<le> get_root_time ex h"
    using get_and_remove_expire_timers_none[OF assms] by (simp add: get_root_time_def)
  ultimately show ?thesis
    using k get_and_remove_expire_timers_left[OF assms(1) _ assms(2)] by auto
qed

lemma take_expired_correct_witness:
  "get_and_remove_expire_timers of_nat 2 demo_heap = ([1], \<lparr>m_root = [2, 3], m_heap_size = 2\<rparr>) \<and>
   (2::u64) \<le> of_nat (2::nat)"
proof -
  have g: "get_and_remove_expire_timers of_nat 2 demo_heap = ([1], \<lparr>m_root = [2, 3], m_heap_size = 2\<rparr>)"
    by code_simp
  from take_expired_correct[OF demo_heap_ok(1) g] demo_heap_ok(2) g show ?thesis by auto
qed

text \<open>
  The timer in the last slot can be missed: with timers due at 1, 2 and 20 and the clock at
  10 the heap is in order, yet only the timer due at 1 is taken out, and the timer due at
  2 stays below the one due at 20, out of heap order, so that the timerfd is next armed for
  20.
\<close>

theorem expired_timer_missed:
  "heap_ok of_nat \<lparr>m_root = [1::nat, 2, 20], m_heap_size = 3\<rparr> \<and>
   get_and_remove_expire_timers of_nat 10 \<lparr>m_root = [1, 2, 20], m_heap_size = 3\<rparr>
     = ([1::nat], \<lparr>m_root = [20, 2], m_heap_size = 2\<rparr>) \<and>
   get_root_time of_nat \<lparr>m_root = [20::nat, 2], m_heap_size = 2\<rparr> = 20"
proof (intro conjI)
  show "heap_ok of_nat \<lparr>m_root = [1::nat, 2, 20], m_heap_size = 3\<rparr>"
    by code_simp
  show "get_and_remove_expire_timers of_nat 10 \<lparr>m_root = [1, 2, 20], m_heap_size = 3\<rparr>
     = ([1::nat], \<lparr>m_root = [20, 2], m_heap_size = 2\<rparr>)" by code_simp
  show "get_root_time of_nat \<lparr>m_root = [20::nat, 2], m_heap_size = 2\<rparr> = 20" by code_simp
qed

text \<open>
  From the vector \<open>20, 2\<close> that the call above leaves, a timer due at 30 is added and the clock
  reads 15: the vector is not in heap order, the root is not due, and the timer due at 2 stays
  in the middle slot.
\<close>

theorem expired_timers_left_unordered:
  "\<not> heap_ok of_nat \<lparr>m_root = [20::nat, 2], m_heap_size = 2\<rparr> \<and>
   snd (add_timer_to_heap of_nat 30 \<lparr>m_root = [20::nat, 2], m_heap_size = 2\<rparr>)
     = \<lparr>m_root = [20, 2, 30], m_heap_size = 3\<rparr> \<and>
   get_and_remove_expire_timers of_nat 15 \<lparr>m_root = [20::nat, 2, 30], m_heap_size = 3\<rparr>
     = ([], \<lparr>m_root = [20, 2, 30], m_heap_size = 3\<rparr>)"
  by (intro conjI; code_simp)

text \<open>
  \<open>TimerHeap::delete_timer_from_heap\<close> on a heap of at least two timers removes exactly the
  timer asked for and answers whether the expiry time at the root has changed; a timer
  that is not in the heap leaves it as it was.
\<close>

theorem heap_delete_correct:
  assumes "wf_theap h" "2 \<le> m_heap_size h"
  shows "\<exists>r h'. delete_timer_from_heap ex t h = Inr (r, h') \<and> wf_theap h' \<and>
    mset (m_root h') = mset (m_root h) - {#t#} \<and>
    (r \<longleftrightarrow> get_root_time ex h' \<noteq> get_root_time ex h)"
proof (cases "t \<in> set (m_root h)")
  case True
  then obtain r h' where d: "delete_timer_from_heap ex t h = Inr (r, h')"
    using delete_timer_ok[OF assms(1) True assms(2)] by blast
  note f = delete_timer_facts[OF assms(1) True d]
  have "mset (m_root h') = mset (m_root h) - {#t#}" using f(2) by (metis add_mset_remove_trivial)
  then show ?thesis using d f True by (auto simp: get_root_time_def)
next
  case False
  then show ?thesis using assms
    by (intro exI[of _ False] exI[of _ h]) (simp add: diff_single_trivial)
qed

lemma heap_delete_correct_witness:
  "\<exists>r h'. delete_timer_from_heap of_nat 3 demo_heap = Inr (r, h') \<and> mset (m_root h') = {#1, 2#}"
  using heap_delete_correct[OF demo_heap_ok(1), of of_nat 3] by (auto simp: demo_heap_def)

text \<open>
  Deleting a timer from the middle can break the order of the heap: the element moved into
  the hole is only ever sifted down. From the heap 1, 10, 2, 11, 12, 3, 4 the deletion of 11
  puts 4 below 10.
\<close>

theorem delete_breaks_order:
  "heap_ok of_nat \<lparr>m_root = [1::nat, 10, 2, 11, 12, 3, 4], m_heap_size = 7\<rparr> \<and>
   delete_timer_from_heap of_nat 11 \<lparr>m_root = [1, 10, 2, 11, 12, 3, 4], m_heap_size = 7\<rparr>
     = Inr (False, \<lparr>m_root = [1::nat, 10, 2, 4, 12, 3], m_heap_size = 6\<rparr>) \<and>
   \<not> heap_ok of_nat \<lparr>m_root = [1::nat, 10, 2, 4, 12, 3], m_heap_size = 6\<rparr>"
proof (intro conjI)
  show "heap_ok of_nat \<lparr>m_root = [1::nat, 10, 2, 11, 12, 3, 4], m_heap_size = 7\<rparr>" by code_simp
  show "delete_timer_from_heap of_nat 11 \<lparr>m_root = [1, 10, 2, 11, 12, 3, 4], m_heap_size = 7\<rparr>
     = Inr (False, \<lparr>m_root = [1::nat, 10, 2, 4, 12, 3], m_heap_size = 6\<rparr>)" by code_simp
  show "\<not> heap_ok of_nat \<lparr>m_root = [1::nat, 10, 2, 4, 12, 3], m_heap_size = 6\<rparr>" by code_simp
qed

end
