(* ===== verification/Timer_Manager.thy ===== *)
theory Timer_Manager
  imports Timer Timer_Heap "HOL-Library.Finite_Map"
begin

text \<open>
  The timer manager: \<open>timer/Timer_manager.h\<close>, \<open>timer/Timer_manager.cpp\<close>. Timers are objects
  in a store (\<open>objs\<close>), shared by the heap and by the map of active timers as the pointers are
  in the code. \<open>new Timer\<close> takes the next address, \<open>delete\<close> removes the object. The record
  \<open>env\<close> holds what the system answers: the readings of \<open>gettimeofday\<close> and the results of
  \<open>timerfd_settime\<close> by number of the call, the result of \<open>timerfd_create\<close>, \<open>mktime\<close>, what the
  user's callbacks return, and the value of the one field the code leaves unset. The state
  records the calls made to callbacks (\<open>fired\<close>) and what the timerfd was last set to
  (\<open>armed\<close>). A call through a heap that still holds a deleted timer is the fault \<open>Dangling\<close>.
\<close>

record env =
  clock :: "nat \<Rightarrow> timeval"
  settime_fails :: "nat \<Rightarrow> bool"
  create_fd :: int
  mktime :: "nat \<Rightarrow> int"
  callback :: "nat \<Rightarrow> nat \<Rightarrow> int"
  junk :: int

record tmgr =
  m_heap :: "nat theap option"
  m_active_timer :: "(int, nat) fmap"
  m_fd :: int
  m_next_index :: int
  objs :: "nat \<Rightarrow> timer option"
  next_addr :: nat
  armed :: "(u64 \<times> u64) option"
  fired :: "nat list"
  ticks :: nat
  settimes :: nat

definition new_tmgr :: tmgr where
  "new_tmgr = \<lparr>m_heap = None, m_active_timer = fmempty, m_fd = - 1, m_next_index = 0,
     objs = (\<lambda>_. None), next_addr = 0, armed = None, fired = [], ticks = 0, settimes = 0\<rparr>"

definition initialize :: "env \<Rightarrow> tmgr \<Rightarrow> int \<times> tmgr" where
  "initialize e s = (if create_fd e < 0 then (- 1, s)
     else (0, s\<lparr>m_heap := Some new_theap, m_fd := create_fd e\<rparr>))"

definition deref :: "tmgr \<Rightarrow> nat \<Rightarrow> timer run" where
  "deref s a = (case objs s a of None \<Rightarrow> Inl Dangling | Some t \<Rightarrow> Inr t)"

definition expire_of :: "tmgr \<Rightarrow> nat \<Rightarrow> u64" where
  "expire_of s a = (case objs s a of None \<Rightarrow> 0 | Some t \<Rightarrow> get_expire_time t)"

definition live_heap :: "tmgr \<Rightarrow> nat theap run" where
  "live_heap s = (case m_heap s of None \<Rightarrow> Inl Null_Deref
     | Some h \<Rightarrow> if list_all (\<lambda>a. objs s a \<noteq> None) (m_root h) then Inr h else Inl Dangling)"

definition gettimeofday :: "env \<Rightarrow> tmgr \<Rightarrow> timeval \<times> tmgr" where
  "gettimeofday e s = (clock e (ticks s), s\<lparr>ticks := ticks s + 1\<rparr>)"

text \<open>\<open>tmr->action()\<close>\<close>

definition fire :: "env \<Rightarrow> nat \<Rightarrow> tmgr \<Rightarrow> tmgr run" where
  "fire e a s = and_then (deref s a) (\<lambda>t.
     Inr (s\<lparr>objs := (objs s)(a := Some (action (callback e) t)), fired := fired s @ [a]\<rparr>))"

definition timerfd_settime :: "env \<Rightarrow> u64 \<Rightarrow> tmgr \<Rightarrow> bool \<times> tmgr" where
  "timerfd_settime e expire s =
     (if settime_fails e (settimes s) then (False, s\<lparr>settimes := settimes s + 1\<rparr>)
      else (True, s\<lparr>settimes := settimes s + 1,
                   armed := Some (expire div 1000000, expire mod 1000000 * 1000)\<rparr>))"

definition set_new_timeout :: "env \<Rightarrow> tmgr \<Rightarrow> (int \<times> tmgr) run" where
  "set_new_timeout e s = and_then (live_heap s) (\<lambda>h.
     let (ok, s') = timerfd_settime e (get_root_time (expire_of s) h) s
     in Inr (if ok then 0 else - 1, s'))"

text \<open>\<open>while(1) insert ... get_next_index\<close>: the first index from \<open>i\<close> on that is not in the map.\<close>

function free_index :: "(int, nat) fmap \<Rightarrow> int \<Rightarrow> int" where
  "free_index m i = (if i |\<in>| fmdom m then free_index m (i + 1) else i)"
  by pat_completeness auto
termination
proof (relation "measure (\<lambda>(m, i). card {k \<in> fset (fmdom m). i \<le> k})", goal_cases)
  case (2 m i)
  have "{k \<in> fset (fmdom m). i + 1 \<le> k} \<subset> {k \<in> fset (fmdom m). i \<le> k}"
    using 2 by (intro psubsetI) (auto simp: set_eq_iff intro!: exI[of _ i])
  then show ?case by (simp add: psubset_card_mono)
qed simp

declare free_index.simps [simp del]

definition heap_add :: "nat \<Rightarrow> tmgr \<Rightarrow> (bool \<times> tmgr) run" where
  "heap_add a s = and_then (live_heap s) (\<lambda>h.
     let (r, h') = add_timer_to_heap (expire_of s) a h in Inr (r, s\<lparr>m_heap := Some h'\<rparr>))"

definition heap_delete :: "nat \<Rightarrow> tmgr \<Rightarrow> (bool \<times> tmgr) run" where
  "heap_delete a s = and_then (live_heap s) (\<lambda>h.
     and_then (delete_timer_from_heap (expire_of s) a h)
       (\<lambda>(r, h'). Inr (r, s\<lparr>m_heap := Some h'\<rparr>)))"

definition register :: "nat \<Rightarrow> tmgr \<Rightarrow> (int \<times> tmgr) run" where
  "register a s = and_then (deref s a) (\<lambda>t.
     let i = free_index (m_active_timer s) (m_next_index s + 1)
     in Inr (i, s\<lparr>m_next_index := i, m_active_timer := fmupd i a (m_active_timer s),
                  objs := (objs s)(a := Some (set_index i t))\<rparr>))"

definition add_and_get_index :: "env \<Rightarrow> nat \<Rightarrow> bool \<Rightarrow> tmgr \<Rightarrow> (int \<times> tmgr) run" where
  "add_and_get_index e a if_index s =
     and_then (heap_add a s) (\<lambda>(ret, s1).
     and_then (if ret then set_new_timeout e s1 else Inr (0, s1)) (\<lambda>(st, s2).
       if st < 0 then Inr (- 1, s2)
       else if if_index then register a s2
       else Inr (0, s2)))"

definition alloc_timer :: "timer \<Rightarrow> tmgr \<Rightarrow> nat \<times> tmgr" where
  "alloc_timer t s = (next_addr s,
     s\<lparr>objs := (objs s)(next_addr s := Some t), next_addr := next_addr s + 1\<rparr>)"

text \<open>
  Absolute time. In the branch without a borrow the code assigns \<open>gap.tv_sec\<close> twice and
  leaves \<open>gap.tv_usec\<close> unset: its value is \<open>junk\<close>.
\<close>

definition add_timer :: "env \<Rightarrow> timeval \<Rightarrow> nat \<Rightarrow> nat \<Rightarrow> tmgr \<Rightarrow> (int \<times> tmgr) run" where
  "add_timer e tm cb para s0 =
     (let (now, s) = gettimeofday e s0;
          gap = (if tv_usec tm < tv_usec now
                 then \<lparr>tv_sec = tv_sec tm - 1 - tv_sec now, tv_usec = tv_usec tm - tv_usec now + 1000000\<rparr>
                 else \<lparr>tv_sec = tv_sec tm - tv_sec now, tv_usec = junk e\<rparr>)
      in if tv_sec gap < 0 then Inr (- 1, s)
         else let (a, s') = alloc_timer (new_timer tm gap cb para 1) s
              in add_and_get_index e a True s')"

definition add_timer_time :: "env \<Rightarrow> int \<Rightarrow> nat \<Rightarrow> nat \<Rightarrow> tmgr \<Rightarrow> (int \<times> tmgr) run" where
  "add_timer_time e tmt cb para s = add_timer e \<lparr>tv_sec = tmt, tv_usec = 0\<rparr> cb para s"

definition add_timer_tm :: "env \<Rightarrow> nat \<Rightarrow> nat \<Rightarrow> nat \<Rightarrow> tmgr \<Rightarrow> (int \<times> tmgr) run" where
  "add_timer_tm e tm cb para s =
     (if mktime e tm < 0 then Inr (- 1, s) else add_timer_time e (mktime e tm) cb para s)"

text \<open>\<open>now + (sec, usec)\<close> with at most one carry, as \<open>add_timer\<close> and \<open>change_expire_time\<close> do it.\<close>

definition add_delay :: "timeval \<Rightarrow> int \<Rightarrow> int \<Rightarrow> timeval" where
  "add_delay now sec usec =
     (let us = tv_usec now + usec;
          add_sec = (if 1000000 \<le> us then 1 else 0)
      in \<lparr>tv_sec = tv_sec now + (sec + add_sec),
          tv_usec = (if 1000000 \<le> us then us - 1000000 else us)\<rparr>)"

definition add_timer_rel :: "env \<Rightarrow> int \<Rightarrow> int \<Rightarrow> nat \<Rightarrow> nat \<Rightarrow> int \<Rightarrow> tmgr \<Rightarrow> (int \<times> tmgr) run" where
  "add_timer_rel e sec usec cb para cnt s0 =
     (if sec < 0 \<or> usec < 0 then Inr (- 1, s0)
      else let (now, s) = gettimeofday e s0;
               tv = \<lparr>tv_sec = sec, tv_usec = usec\<rparr>;
               (a, s') = alloc_timer (new_timer (add_delay now sec usec) tv cb para cnt) s
           in add_and_get_index e a True s')"

definition get_timer_from_index :: "int \<Rightarrow> tmgr \<Rightarrow> nat option" where
  "get_timer_from_index i s = fmlookup (m_active_timer s) i"

text \<open>The re-arming after a removal: its failure is logged only.\<close>

definition rearm_if :: "env \<Rightarrow> bool \<Rightarrow> tmgr \<Rightarrow> tmgr run" where
  "rearm_if e ret s = (if ret then run_map snd (set_new_timeout e s) else Inr s)"

definition free_timer :: "nat \<Rightarrow> tmgr \<Rightarrow> tmgr" where
  "free_timer a s = s\<lparr>objs := (objs s)(a := None)\<rparr>"

definition erase_index :: "int \<Rightarrow> tmgr \<Rightarrow> tmgr" where
  "erase_index i s = s\<lparr>m_active_timer := fmdrop i (m_active_timer s)\<rparr>"

definition delete_timer :: "env \<Rightarrow> int \<Rightarrow> tmgr \<Rightarrow> (int \<times> tmgr) run" where
  "delete_timer e i s = (case get_timer_from_index i s of
       None \<Rightarrow> Inr (- 1, s)
     | Some a \<Rightarrow>
         and_then (heap_delete a (erase_index i s)) (\<lambda>(ret, s1).
         and_then (rearm_if e ret s1) (\<lambda>s2. Inr (0, free_timer a s2))))"

definition expire_now :: "env \<Rightarrow> int \<Rightarrow> tmgr \<Rightarrow> (int \<times> tmgr) run" where
  "expire_now e i s = (case get_timer_from_index i s of
       None \<Rightarrow> Inr (- 1, s)
     | Some a \<Rightarrow> and_then (fire e a s) (\<lambda>s1. Inr (0, s1)))"

definition expire_now_and_delete :: "env \<Rightarrow> int \<Rightarrow> tmgr \<Rightarrow> (int \<times> tmgr) run" where
  "expire_now_and_delete e i s = (case get_timer_from_index i s of
       None \<Rightarrow> Inr (- 1, s)
     | Some a \<Rightarrow>
         and_then (fire e a s) (\<lambda>s0.
         and_then (heap_delete a s0) (\<lambda>(ret, s1).
         and_then (rearm_if e ret s1) (\<lambda>s2. Inr (0, free_timer a (erase_index i s2))))))"

definition update_timer :: "nat \<Rightarrow> (timer \<Rightarrow> timer) \<Rightarrow> tmgr \<Rightarrow> tmgr run" where
  "update_timer a f s = and_then (deref s a) (\<lambda>t. Inr (s\<lparr>objs := (objs s)(a := Some (f t))\<rparr>))"

definition change_expire_time :: "env \<Rightarrow> int \<Rightarrow> bool \<Rightarrow> timeval \<Rightarrow> int \<Rightarrow> tmgr \<Rightarrow> (int \<times> tmgr) run" where
  "change_expire_time e i absolute tv cnt s =
     (if tv_sec tv < 0 \<or> tv_usec tv < 0 then Inr (- 1, s)
      else case get_timer_from_index i s of
        None \<Rightarrow> Inr (- 1, s)
      | Some a \<Rightarrow>
          and_then (heap_delete a s) (\<lambda>(ret, s1).
          and_then
            (if absolute then update_timer a (set_timeout tv) s1
             else let (now, s2) = gettimeofday e s1 in
               update_timer a (\<lambda>t. set_last_times cnt (set_interval_time tv
                 (set_timeout (add_delay now (tv_sec tv) (tv_usec tv)) t))) s2)
            (\<lambda>s3. and_then (add_and_get_index e a False s3)
              (\<lambda>(r, s4). Inr (if r < 0 then - 1 else 0, s4)))))"

text \<open>The loop of \<open>expire_all\<close> over the list of expired timers.\<close>

fun expire_each :: "env \<Rightarrow> nat list \<Rightarrow> tmgr \<Rightarrow> tmgr run" where
  "expire_each e [] s = Inr s"
| "expire_each e (a # as) s =
     and_then (fire e a s) (\<lambda>s1.
     and_then (deref s1 a) (\<lambda>t.
       let (r, t') = continue_timer (clock e (ticks s1)) t;
           s2 = s1\<lparr>objs := (objs s1)(a := Some t'), ticks := (if r then ticks s1 + 1 else ticks s1)\<rparr>
       in if r then and_then (heap_add a s2) (\<lambda>(b, s3). expire_each e as s3)
          else and_then (get_index t') (\<lambda>i. expire_each e as (free_timer a (erase_index i s2)))))"

definition expire_all :: "env \<Rightarrow> tmgr \<Rightarrow> (int \<times> tmgr) run" where
  "expire_all e s0 =
     (let (now, s) = gettimeofday e s0 in
      and_then (live_heap s) (\<lambda>h.
        let (ts, h') = get_and_remove_expire_timers (expire_of s) (change_timeval now) h in
        if ts = [] then Inl Assert_Failed
        else and_then (expire_each e ts (s\<lparr>m_heap := Some h'\<rparr>)) (\<lambda>s1.
             and_then (live_heap s1) (\<lambda>h1.
               let expire_tm = get_root_time (expire_of s1) h1 in
               if expire_tm = - 1 then Inr (0, s1)
               else let (ok, s2) = timerfd_settime e expire_tm s1
                    in Inr (if ok then 0 else - 1, s2)))))"

text \<open>The destructor runs every remaining callback, in the order of the indices.\<close>

fun destroy_each :: "env \<Rightarrow> nat list \<Rightarrow> tmgr \<Rightarrow> tmgr run" where
  "destroy_each e [] s = Inr s"
| "destroy_each e (a # as) s = and_then (fire e a s) (\<lambda>s1. destroy_each e as (free_timer a s1))"

definition destroy_tmgr :: "env \<Rightarrow> tmgr \<Rightarrow> tmgr run" where
  "destroy_tmgr e s =
     destroy_each e (map (\<lambda>i. the (fmlookup (m_active_timer s) i)) (sorted_list_of_fset (fmdom (m_active_timer s))))
       (s\<lparr>m_heap := None\<rparr>)"

subsection \<open>The object graph\<close>

definition active_timers :: "tmgr \<Rightarrow> nat set" where
  "active_timers s = {a. \<exists>i. fmlookup (m_active_timer s) i = Some a}"

definition indexed :: "tmgr \<Rightarrow> bool" where
  "indexed s \<longleftrightarrow> (\<forall>i a. fmlookup (m_active_timer s) i = Some a \<longrightarrow>
     i \<le> m_next_index s \<and> a < next_addr s \<and> (\<exists>t. objs s a = Some t \<and> m_index t = Some i))"

lemma indexedD:
  assumes "indexed s" "fmlookup (m_active_timer s) i = Some a"
  shows "i \<le> m_next_index s" "a < next_addr s" "\<exists>t. objs s a = Some t \<and> m_index t = Some i"
  using assms by (auto simp: indexed_def)

text \<open>
  The heap and the map hold the same timers, each once, but for those in \<open>out\<close> (taken out of
  the heap, still in the map) and in \<open>new\<close> (never put into the map, because they are being
  added or because the call that added them failed half-way); every one of them is a live
  object, those in the map know their index and those in \<open>new\<close> have none.
\<close>

definition linked :: "tmgr \<Rightarrow> nat set \<Rightarrow> nat set \<Rightarrow> nat theap \<Rightarrow> bool" where
  "linked s new out h \<longleftrightarrow>
     m_heap s = Some h \<and> wf_theap h \<and> distinct (m_root h) \<and>
     set (m_root h) \<union> out = active_timers s \<union> new \<and> set (m_root h) \<inter> out = {} \<and>
     active_timers s \<inter> new = {} \<and>
     (\<forall>a \<in> new. a < next_addr s \<and> (\<exists>t. objs s a = Some t \<and> m_index t = None)) \<and> indexed s"

definition tm_inv :: "tmgr \<Rightarrow> bool" where
  "tm_inv s \<longleftrightarrow> (\<exists>h. linked s {} {} h)"

text \<open>A manager at rest whose heap holds, beyond the timers of the map, the orphans \<open>new\<close>.\<close>

definition tm_with :: "nat set \<Rightarrow> tmgr \<Rightarrow> bool" where
  "tm_with new s \<longleftrightarrow> (\<exists>h. linked s new {} h)"

lemma tm_inv_with: "tm_inv s \<longleftrightarrow> tm_with {} s"
  by (simp add: tm_inv_def tm_with_def)

lemma linked_active:
  assumes "linked s new out h" "fmlookup (m_active_timer s) i = Some a"
  obtains t where "objs s a = Some t" "m_index t = Some i" "a \<in> active_timers s" "a < next_addr s"
proof -
  have "indexed s" using assms(1) by (simp add: linked_def)
  from indexedD[OF this assms(2)] show ?thesis
    using assms(2) that by (auto simp: active_timers_def)
qed

lemma linked_inj:
  "linked s new out h \<Longrightarrow> fmlookup (m_active_timer s) i = Some a \<Longrightarrow>
   fmlookup (m_active_timer s) j = Some a \<Longrightarrow> i = j"
  by (metis linked_active option.inject)

lemma linked_live:
  assumes "linked s new out h"
  shows "live_heap s = Inr h"
proof -
  have "objs s a \<noteq> None" if "a \<in> set (m_root h)" for a
  proof -
    have "a \<in> active_timers s \<or> a \<in> new" using assms that by (auto simp: linked_def)
    then show ?thesis
    proof
      assume "a \<in> active_timers s"
      then obtain i where "fmlookup (m_active_timer s) i = Some a" by (auto simp: active_timers_def)
      then show ?thesis using linked_active[OF assms] by (metis option.discI)
    qed (use assms in \<open>auto simp: linked_def\<close>)
  qed
  then show ?thesis using assms by (auto simp: live_heap_def linked_def list_all_iff)
qed

lemma linked_frame:
  assumes "linked s new out h" "m_heap s' = m_heap s" "m_active_timer s' = m_active_timer s"
    "m_next_index s' = m_next_index s" "next_addr s' = next_addr s" "objs s' = objs s"
  shows "linked s' new out h"
  using assms by (simp add: linked_def active_timers_def indexed_def)

lemma timerfd_settime_linked:
  "linked s new out h \<Longrightarrow> linked (snd (timerfd_settime e x s)) new out h"
  by (erule linked_frame) (auto simp: timerfd_settime_def)

lemma set_new_timeout_linked:
  assumes "linked s new out h"
  shows "\<exists>r s'. set_new_timeout e s = Inr (r, s') \<and> linked s' new out h \<and>
    (settime_fails e (settimes s) \<longrightarrow> r = - 1) \<and> (\<not> settime_fails e (settimes s) \<longrightarrow> r = 0)"
proof -
  let ?p = "timerfd_settime e (get_root_time (expire_of s) h) s"
  have "set_new_timeout e s = Inr (if fst ?p then 0 else - 1, snd ?p)"
    by (simp add: set_new_timeout_def linked_live[OF assms] split_beta Let_def)
  moreover have "fst ?p \<longleftrightarrow> \<not> settime_fails e (settimes s)"
    by (simp add: timerfd_settime_def)
  ultimately show ?thesis using timerfd_settime_linked[OF assms] by auto
qed

lemma rearm_if_linked:
  assumes "linked s new out h"
  shows "\<exists>s'. rearm_if e ret s = Inr s' \<and> linked s' new out h"
  using set_new_timeout_linked[OF assms, of e] assms by (auto simp: rearm_if_def)

lemma heap_add_linked:
  assumes "linked s new (insert a out) h" "a \<notin> out"
  shows "\<exists>r s' h'. heap_add a s = Inr (r, s') \<and> linked s' new out h' \<and>
    settimes s' = settimes s"
proof -
  let ?p = "add_timer_to_heap (expire_of s) a h"
  have wf: "wf_theap h" and na: "a \<notin> set (m_root h)" using assms(1) by (auto simp: linked_def)
  have eq: "heap_add a s = Inr (fst ?p, s\<lparr>m_heap := Some (snd ?p)\<rparr>)"
    by (simp add: heap_add_def linked_live[OF assms(1)] split_beta Let_def)
  have "set (m_root (snd ?p)) = insert a (set (m_root h))" "distinct (m_root (snd ?p))" "wf_theap (snd ?p)"
    using heap_store.add_set[OF wf] heap_store.add_distinct[OF wf] add_timer_to_heap_wf[OF wf] na assms(1)
    by (auto simp: linked_def)
  then have "linked (s\<lparr>m_heap := Some (snd ?p)\<rparr>) new out (snd ?p)"
    using assms by (auto simp: linked_def active_timers_def indexed_def)
  then show ?thesis unfolding eq by auto
qed

lemma heap_delete_linked:
  assumes "linked s new out h" "a \<in> set (m_root h)" "heap_delete a s = Inr (r, s')"
  shows "\<exists>h'. linked s' new (insert a out) h' \<and> s' = s\<lparr>m_heap := Some h'\<rparr>"
proof -
  obtain h' where d: "delete_timer_from_heap (expire_of s) a h = Inr (r, h')"
    and s': "s' = s\<lparr>m_heap := Some h'\<rparr>"
    using assms(3) by (auto simp: heap_delete_def linked_live[OF assms(1)])
  have wf: "wf_theap h" "distinct (m_root h)" using assms(1) by (auto simp: linked_def)
  have rm: "run_map snd (delete_timer_from_heap (expire_of s) a h) = Inr h'" by (simp add: d)
  have "wf_theap h'" by (rule heap_store.delete_invar[OF wf(1) assms(2) rm])
  moreover note heap_store.delete_set[OF wf(1) assms(2) rm wf(2)]
  ultimately have "linked s' new (insert a out) h'"
    using assms(1,2) s' by (auto simp: linked_def active_timers_def indexed_def)
  then show ?thesis using s' by blast
qed

lemma update_objs_linked:
  assumes "linked s new out h" "objs s a = Some t" "m_index t' = m_index t"
  shows "linked (s\<lparr>objs := (objs s)(a := Some t')\<rparr>) new out h"
proof -
  have "indexed (s\<lparr>objs := (objs s)(a := Some t')\<rparr>)"
    using assms unfolding indexed_def linked_def by fastforce
  moreover have "\<exists>u. ((objs s)(a := Some t')) b = Some u \<and> m_index u = None" if "b \<in> new" for b
    using assms that by (cases "b = a") (auto simp: linked_def)
  ultimately show ?thesis using assms(1) by (simp add: linked_def active_timers_def)
qed

lemma linked_object:
  assumes "linked s new out h" "a \<in> active_timers s \<union> new"
  shows "\<exists>t. objs s a = Some t"
proof (cases "a \<in> new")
  case True
  then show ?thesis using assms(1) by (auto simp: linked_def)
next
  case False
  then obtain i where "fmlookup (m_active_timer s) i = Some a"
    using assms(2) by (auto simp: active_timers_def)
  then show ?thesis using linked_active[OF assms(1)] by metis
qed

lemma fire_linked:
  assumes "linked s new out h" "a \<in> active_timers s \<union> new"
  shows "\<exists>s'. fire e a s = Inr s' \<and> linked s' new out h \<and> active_timers s' = active_timers s \<and>
    fired s' = fired s @ [a] \<and> m_active_timer s' = m_active_timer s"
proof -
  obtain t where t: "objs s a = Some t" using linked_object[OF assms] by blast
  let ?s = "s\<lparr>objs := (objs s)(a := Some (action (callback e) t))\<rparr>"
  have "linked ?s new out h"
    by (rule update_objs_linked[OF assms(1) t]) (simp add: action_def)
  then have "linked (?s\<lparr>fired := fired s @ [a]\<rparr>) new out h"
    by (rule linked_frame) simp_all
  then show ?thesis
    by (simp add: fire_def deref_def t active_timers_def)
qed

lemma erase_free_linked:
  assumes "linked s new (insert a out) h" "fmlookup (m_active_timer s) i = Some a" "a \<notin> out"
  shows "linked (free_timer a (erase_index i s)) new out h"
    and "active_timers (free_timer a (erase_index i s)) = active_timers s - {a}"
proof -
  let ?s = "free_timer a (erase_index i s)"
  show act: "active_timers ?s = active_timers s - {a}"
    using assms(2) linked_inj[OF assms(1)]
    by (auto simp: active_timers_def free_timer_def erase_index_def)
  have a: "a \<in> active_timers s" "a \<notin> new"
    using assms by (auto simp: linked_def active_timers_def)
  have "indexed ?s"
    unfolding indexed_def
  proof (intro allI impI)
    fix j a' assume j: "fmlookup (m_active_timer ?s) j = Some a'"
    then have j': "fmlookup (m_active_timer s) j = Some a'" "j \<noteq> i"
      by (auto simp: free_timer_def erase_index_def split: if_splits)
    then have "a' \<noteq> a" using assms(2) linked_inj[OF assms(1)] by blast
    then show "j \<le> m_next_index ?s \<and> a' < next_addr ?s \<and> (\<exists>t. objs ?s a' = Some t \<and> m_index t = Some j)"
      using indexedD[OF _ j'(1)] assms(1) by (auto simp: linked_def free_timer_def erase_index_def)
  qed
  then show "linked ?s new out h"
    using assms a unfolding linked_def act
    by (auto simp: free_timer_def erase_index_def)
qed

lemma free_index_free: "free_index m i |\<notin>| fmdom m" and free_index_ge: "i \<le> free_index m i"
proof -
  have "free_index m i |\<notin>| fmdom m \<and> i \<le> free_index m i"
  proof (induction m i rule: free_index.induct)
    case (1 m i)
    then show ?case by (subst (1 2) free_index.simps) auto
  qed
  then show "free_index m i |\<notin>| fmdom m" "i \<le> free_index m i" by auto
qed

lemma linked_next_index_fresh:
  assumes "linked s new out h"
  shows "fmlookup (m_active_timer s) (m_next_index s + 1) = None"
proof (cases "fmlookup (m_active_timer s) (m_next_index s + 1)")
  case (Some a)
  have "indexed s" using assms by (simp add: linked_def)
  from indexedD(1)[OF this Some] show ?thesis by simp
qed

lemma free_index_next:
  assumes "linked s new out h"
  shows "free_index (m_active_timer s) (m_next_index s + 1) = m_next_index s + 1"
proof -
  have "m_next_index s + 1 |\<notin>| fmdom (m_active_timer s)"
    using linked_next_index_fresh[OF assms] by (simp add: fmdom_notI)
  then show ?thesis by (subst free_index.simps) simp
qed

lemma register_linked:
  assumes "linked s (insert a new) {} h" "a \<notin> new"
  shows "\<exists>s'. register a s = Inr (m_next_index s + 1, s') \<and> linked s' new {} h \<and>
    fmlookup (m_active_timer s') (m_next_index s + 1) = Some a"
proof -
  let ?i = "m_next_index s + 1"
  have L: "indexed s" "a \<notin> active_timers s" using assms by (auto simp: linked_def)
  obtain t where t: "objs s a = Some t" and a: "a < next_addr s"
    using assms by (auto simp: linked_def)
  let ?s = "s\<lparr>m_next_index := ?i, m_active_timer := fmupd ?i a (m_active_timer s),
    objs := (objs s)(a := Some (set_index ?i t))\<rparr>"
  note none = linked_next_index_fresh[OF assms(1)]
  have act: "active_timers ?s = insert a (active_timers s)"
  proof (rule set_eqI)
    fix b
    have "fmlookup (m_active_timer s) j = Some b \<Longrightarrow> ?i \<noteq> j" for j
      using none by auto
    then show "b \<in> active_timers ?s \<longleftrightarrow> b \<in> insert a (active_timers s)"
      unfolding active_timers_def mem_Collect_eq insert_iff
      by (cases "b = a") (simp_all, blast+)
  qed
  have "indexed ?s"
    unfolding indexed_def
  proof (intro allI impI)
    fix j a' assume j: "fmlookup (m_active_timer ?s) j = Some a'"
    show "j \<le> m_next_index ?s \<and> a' < next_addr ?s \<and> (\<exists>t. objs ?s a' = Some t \<and> m_index t = Some j)"
    proof (cases "j = ?i")
      case True
      then show ?thesis using j a by (simp add: set_index_def)
    next
      case False
      then have j': "fmlookup (m_active_timer s) j = Some a'" using j by simp
      then have "a' \<noteq> a" using L by (auto simp: active_timers_def)
      then show ?thesis using indexedD[OF L(1) j'] by auto
    qed
  qed
  then have "linked ?s new {} h"
    unfolding linked_def act using assms by (auto simp: linked_def)
  then show ?thesis
    by (simp add: register_def deref_def t free_index_next[OF assms(1)] Let_def)
qed

end
