(* ===== verification/Timer_Reach.thy ===== *)
theory Timer_Reach
  imports Timer_Manager
begin

text \<open>
  The operations of \<open>timer/Timer_manager.cpp\<close> keep the object graph: first one lemma per
  operation on \<open>linked\<close> and \<open>tm_inv\<close>, then the step relation over all of them, the reachable
  managers, and the properties of the timer component.
\<close>

subsection \<open>Adding\<close>

lemma gettimeofday_linked:
  "linked s new out h \<Longrightarrow> linked (snd (gettimeofday e s)) new out h"
  by (erule linked_frame) (auto simp: gettimeofday_def)

lemma alloc_timer_linked:
  assumes "linked s new {} h" "m_index t = None"
  shows "linked (snd (alloc_timer t s)) (insert (next_addr s) new) {next_addr s} h"
    "next_addr s \<notin> new"
proof -
  show fresh_new: "next_addr s \<notin> new" using assms(1) by (auto simp: linked_def)
  let ?s = "snd (alloc_timer t s)"
  have ind: "indexed s" using assms by (simp add: linked_def)
  have act: "active_timers ?s = active_timers s" by (simp add: active_timers_def alloc_timer_def)
  have fresh: "next_addr s \<notin> active_timers s"
    using indexedD(2)[OF ind] by (auto simp: active_timers_def)
  have "indexed ?s"
    unfolding indexed_def
  proof (intro allI impI)
    fix i a assume "fmlookup (m_active_timer ?s) i = Some a"
    then have i: "fmlookup (m_active_timer s) i = Some a" by (simp add: alloc_timer_def)
    show "i \<le> m_next_index ?s \<and> a < next_addr ?s \<and> (\<exists>t. objs ?s a = Some t \<and> m_index t = Some i)"
      using indexedD[OF ind i] by (simp add: alloc_timer_def)
  qed
  then show "linked ?s (insert (next_addr s) new) {next_addr s} h"
    using assms fresh fresh_new unfolding linked_def act
    by (auto simp: alloc_timer_def intro: less_SucI)
qed

lemma heap_add_frame:
  assumes "heap_add a s = Inr (r, s')"
  shows "\<exists>h'. s' = s\<lparr>m_heap := Some h'\<rparr>"
  using assms by (auto simp: heap_add_def Let_def split: prod.splits)

lemma set_new_timeout_frame:
  assumes "set_new_timeout e s = Inr (r, s')"
  shows "\<exists>a. s' = s\<lparr>settimes := settimes s + 1, armed := a\<rparr>"
proof -
  have *: "\<exists>a. s\<lparr>settimes := n\<rparr> = s\<lparr>settimes := n, armed := a\<rparr>" for n
    by (rule exI[of _ "armed s"]) simp
  show ?thesis
    using assms * by (auto simp: set_new_timeout_def timerfd_settime_def Let_def split: if_splits)
qed

lemma not_in_empty: "a \<notin> {}"
  by simp

text \<open>
  The first part of \<open>add_and_get_index\<close>: the timer enters the heap and the timerfd is armed
  when the timer is the earliest one.
\<close>

lemma heap_add_arm_linked:
  assumes "linked s new (insert a out) h" "a \<notin> out"
  obtains r1 s1 r2 s2 h1 where "heap_add a s = Inr (r1, s1)"
    "(if r1 then set_new_timeout e s1 else Inr (0, s1)) = Inr (r2, s2)" "linked s2 new out h1"
    "(\<forall>n. \<not> settime_fails e n) \<longrightarrow> \<not> r2 < 0"
    "\<exists>n am. s2 = s\<lparr>m_heap := Some h1, settimes := n, armed := am\<rparr>"
proof -
  obtain r1 s1 h1 where add: "heap_add a s = Inr (r1, s1)" and l1: "linked s1 new out h1"
    using heap_add_linked[OF assms] by auto
  obtain h' where "s1 = s\<lparr>m_heap := Some h'\<rparr>" using heap_add_frame[OF add] by blast
  then have s1: "s1 = s\<lparr>m_heap := Some h1\<rparr>" using l1 by (simp add: linked_def)
  show ?thesis
  proof (cases r1)
    case True
    obtain r2 s2 where *: "set_new_timeout e s1 = Inr (r2, s2)" "linked s2 new out h1"
      "\<not> settime_fails e (settimes s1) \<longrightarrow> r2 = 0"
      using set_new_timeout_linked[OF l1, of e] by auto
    obtain am where "s2 = s1\<lparr>settimes := settimes s1 + 1, armed := am\<rparr>"
      using set_new_timeout_frame[OF *(1)] by blast
    then have "\<exists>n am. s2 = s\<lparr>m_heap := Some h1, settimes := n, armed := am\<rparr>" using s1 by auto
    then show ?thesis using that[OF add, of r2 s2 h1] * True by auto
  next
    case False
    have "s1 = s\<lparr>m_heap := Some h1, settimes := settimes s, armed := armed s\<rparr>" using s1 by simp
    then have "\<exists>n am. s1 = s\<lparr>m_heap := Some h1, settimes := n, armed := am\<rparr>" by blast
    then show ?thesis using that[OF add, of 0 s1 h1] l1 False by auto
  qed
qed

lemma add_and_get_index_linked:
  assumes "linked s (insert a new) {a} h" "a \<notin> new" "objs s a = Some t"
  shows "\<exists>r s'. add_and_get_index e a True s = Inr (r, s') \<and>
    (tm_with new s' \<or> r = - 1 \<and> tm_with (insert a new) s') \<and>
    ((\<forall>n. \<not> settime_fails e n) \<longrightarrow> r = m_next_index s + 1 \<and> tm_with new s' \<and> m_next_index s' = r \<and>
      m_active_timer s' = fmupd r a (m_active_timer s) \<and>
      objs s' = (objs s)(a := Some (set_index r t)) \<and> fired s' = fired s)"
proof -
  obtain r1 s1 r2 s2 h1 where add: "heap_add a s = Inr (r1, s1)"
    "(if r1 then set_new_timeout e s1 else Inr (0, s1)) = Inr (r2, s2)"
    and l2: "linked s2 (insert a new) {} h1" and r2: "(\<forall>n. \<not> settime_fails e n) \<longrightarrow> \<not> r2 < 0"
    and s2: "\<exists>n am. s2 = s\<lparr>m_heap := Some h1, settimes := n, armed := am\<rparr>"
    by (rule heap_add_arm_linked[OF assms(1) not_in_empty, of e]) (rule that)
  obtain s3 where reg: "register a s2 = Inr (m_next_index s2 + 1, s3)" and l3: "linked s3 new {} h1"
    using register_linked[OF l2 assms(2)] by auto
  have s3: "s3 = s2\<lparr>m_next_index := m_next_index s2 + 1,
      m_active_timer := fmupd (m_next_index s2 + 1) a (m_active_timer s2),
      objs := (objs s2)(a := Some (set_index (m_next_index s2 + 1) t))\<rparr>"
    using reg assms(3) s2 by (auto simp: register_def deref_def Let_def free_index_next[OF l2])
  have run: "add_and_get_index e a True s = (if r2 < 0 then Inr (- 1, s2) else register a s2)"
    using add by (simp add: add_and_get_index_def)
  show ?thesis
  proof (cases "r2 < 0")
    case True
    then show ?thesis using run l2 r2 by (auto simp: tm_with_def)
  next
    case False
    then show ?thesis using run reg l3 s2 s3 by (auto simp: tm_with_def)
  qed
qed

lemma requeue_linked:
  assumes "linked s new {a} h"
  shows "\<exists>r s'. add_and_get_index e a False s = Inr (r, s') \<and> tm_with new s'"
proof -
  obtain r1 s1 r2 s2 h1 where "heap_add a s = Inr (r1, s1)"
    "(if r1 then set_new_timeout e s1 else Inr (0, s1)) = Inr (r2, s2)" "linked s2 new {} h1"
    by (rule heap_add_arm_linked[OF assms not_in_empty, of e]) (rule that)
  then show ?thesis by (auto simp: add_and_get_index_def tm_with_def)
qed

text \<open>A new timer object, allocated and added: what every \<open>add_timer\<close> ends with.\<close>

lemma create_linked:
  assumes "tm_with new s" "alloc_timer t s = (a, s1)" "m_index t = None"
  shows "\<exists>r s'. add_and_get_index e a True s1 = Inr (r, s') \<and>
    (tm_with new s' \<or> r = - 1 \<and> tm_with (insert (next_addr s) new) s') \<and>
    ((\<forall>n. \<not> settime_fails e n) \<longrightarrow> r = m_next_index s + 1 \<and> tm_with new s' \<and> m_next_index s' = r \<and>
      m_active_timer s' = fmupd r (next_addr s) (m_active_timer s) \<and>
      objs s' = (objs s)(next_addr s := Some (set_index r t)) \<and> fired s' = fired s)"
proof -
  obtain h where h: "linked s new {} h" using assms(1) by (auto simp: tm_with_def)
  have a: "a = next_addr s" "s1 = s\<lparr>objs := (objs s)(next_addr s := Some t), next_addr := next_addr s + 1\<rparr>"
    using assms(2) by (auto simp: alloc_timer_def)
  have "linked s1 (insert a new) {a} h" "a \<notin> new"
    using alloc_timer_linked[OF h assms(3)] assms(2) a by simp_all
  from add_and_get_index_linked[OF this, of t e] a show ?thesis by auto
qed

lemma gettimeofday_eq: "gettimeofday e s = (clock e (ticks s), s\<lparr>ticks := ticks s + 1\<rparr>)"
  by (simp add: gettimeofday_def)

lemma tm_with_tick: "tm_with new s \<Longrightarrow> tm_with new (s\<lparr>ticks := Suc (ticks s)\<rparr>)"
  using gettimeofday_linked[of s new "{}"] by (auto simp: tm_with_def gettimeofday_def)

lemma new_timer_index [simp]: "m_index (new_timer tm gap cb para ct) = None"
  by (simp add: new_timer_def)

text \<open>
  What every call that adds a timer leaves: the timers it found, or, when it returns \<open>-1\<close>, at
  most one more timer that is in the heap only.
\<close>

definition after_add :: "nat set \<Rightarrow> env \<Rightarrow> int \<Rightarrow> tmgr \<Rightarrow> bool" where
  "after_add new e r s' \<longleftrightarrow> tm_with new s' \<or>
     r = - 1 \<and> (\<exists>n. settime_fails e n) \<and> (\<exists>a. a \<notin> new \<and> tm_with (insert a new) s')"

lemma created_after_add:
  assumes "tm_with new s" "alloc_timer t s = (a, s1)" "m_index t = None"
    "add_and_get_index e a True s1 = Inr (r, s')"
  shows "after_add new e r s'"
proof -
  obtain h where h: "linked s new {} h" using assms(1) by (auto simp: tm_with_def)
  then have "next_addr s \<notin> new" using alloc_timer_linked(2)[OF h assms(3)] by simp
  then show ?thesis
    using create_linked[OF assms(1-3), of e] assms(4) by (auto simp: after_add_def)
qed

lemma add_timer_after:
  assumes "tm_with new s" "add_timer e tm cb para s = Inr (r, s')"
  shows "after_add new e r s'"
  using assms(2) created_after_add[OF tm_with_tick[OF assms(1)]] tm_with_tick[OF assms(1)]
  by (auto simp: add_timer_def gettimeofday_eq Let_def after_add_def split: if_splits prod.splits)

lemma add_timer_rel_after:
  assumes "tm_with new s" "add_timer_rel e sec usec cb para cnt s = Inr (r, s')"
  shows "after_add new e r s'"
proof (cases "sec < 0 \<or> usec < 0")
  case True
  then show ?thesis using assms by (simp add: add_timer_rel_def after_add_def)
next
  case False
  obtain t a s1 where "alloc_timer t (s\<lparr>ticks := Suc (ticks s)\<rparr>) = (a, s1)" "m_index t = None"
    "add_and_get_index e a True s1 = Inr (r, s')"
    using assms(2) False
    by (auto simp: add_timer_rel_def gettimeofday_eq Let_def split: prod.splits)
  then show ?thesis by (rule created_after_add[OF tm_with_tick[OF assms(1)]])
qed

lemma add_timer_tm_after:
  assumes "tm_with new s" "add_timer_tm e tm cb para s = Inr (r, s')"
  shows "after_add new e r s'"
  using assms add_timer_after[OF assms(1)]
  by (auto simp: add_timer_tm_def add_timer_time_def after_add_def split: if_splits)

lemma add_timer_rel_inv:
  assumes "tm_inv s" "add_timer_rel e sec usec cb para cnt s = Inr (r, s')" "0 \<le> r"
  shows "tm_inv s'"
  using add_timer_rel_after[of "{}" s e] assms by (fastforce simp: after_add_def tm_inv_with)

subsection \<open>Deleting, firing, changing\<close>

lemma erase_after_delete:
  assumes "linked s new {} h" "fmlookup (m_active_timer s) i = Some a"
    "heap_delete a s = Inr (r, s1)" "rearm_if e r s1 = Inr s2"
  shows "tm_with new (free_timer a (erase_index i s2))"
proof -
  have "a \<in> set (m_root h)"
    using assms(1,2) by (auto simp: linked_def active_timers_def)
  then obtain h' where h': "linked s1 new {a} h'" "s1 = s\<lparr>m_heap := Some h'\<rparr>"
    using heap_delete_linked[OF assms(1) _ assms(3)] by auto
  then have l2: "linked s2 new {a} h'" using rearm_if_linked[OF h'(1), of e r] assms(4) by auto
  have "m_active_timer s2 = m_active_timer s"
    using assms(4) h'(2) set_new_timeout_frame[of e s1]
    by (fastforce simp: rearm_if_def run_map_eq_Inr split: if_splits)
  then show ?thesis
    using erase_free_linked(1)[of s2 new a "{}" h' i] l2 assms(2) by (auto simp: tm_with_def)
qed

text \<open>Erasing the map entry first, as \<open>delete_timer\<close> does, gives the same state.\<close>

lemma erase_index_frame [simp]:
  "objs (erase_index i s) = objs s" "m_heap (erase_index i s) = m_heap s"
  "live_heap (erase_index i s) = live_heap s" "expire_of (erase_index i s) = expire_of s"
  by (simp_all add: live_heap_def expire_of_def erase_index_def fun_eq_iff split: option.splits)

lemma erase_index_heap_delete:
  "heap_delete a (erase_index i s) = run_map (\<lambda>(r, s'). (r, erase_index i s')) (heap_delete a s)"
proof -
  have "erase_index i s\<lparr>m_heap := x\<rparr> = erase_index i (s\<lparr>m_heap := x\<rparr>)" for x
    by (simp add: erase_index_def)
  then show ?thesis
    unfolding heap_delete_def
    by (cases "live_heap s"; cases "delete_timer_from_heap (expire_of s) a (projr (live_heap s))") auto
qed

lemma erase_index_rearm:
  "rearm_if e r (erase_index i s) = run_map (erase_index i) (rearm_if e r s)"
  by (cases "live_heap s")
    (simp_all add: rearm_if_def set_new_timeout_def timerfd_settime_def Let_def, simp add: erase_index_def)

lemma delete_timer_inv:
  assumes "tm_with new s" "delete_timer e i s = Inr (r, s')"
  shows "tm_with new s'"
proof (cases "fmlookup (m_active_timer s) i")
  case None
  then show ?thesis using assms by (simp add: delete_timer_def get_timer_from_index_def)
next
  case (Some a)
  obtain h where h: "linked s new {} h" using assms(1) by (auto simp: tm_with_def)
  from assms(2) Some obtain b s1 s2 where "heap_delete a s = Inr (b, s1)" "rearm_if e b s1 = Inr s2"
    "s' = free_timer a (erase_index i s2)"
    by (auto simp: delete_timer_def get_timer_from_index_def erase_index_heap_delete
        erase_index_rearm run_map_eq_Inr)
  then show ?thesis using erase_after_delete[OF h Some] by blast
qed

lemma expire_now_inv:
  assumes "tm_with new s"
  shows "\<exists>r s'. expire_now e i s = Inr (r, s') \<and> tm_with new s'"
proof (cases "fmlookup (m_active_timer s) i")
  case None
  then show ?thesis using assms by (simp add: expire_now_def get_timer_from_index_def)
next
  case (Some a)
  obtain h where h: "linked s new {} h" using assms(1) by (auto simp: tm_with_def)
  have "a \<in> active_timers s" using Some by (auto simp: active_timers_def)
  then have "a \<in> active_timers s \<union> new" by simp
  from fire_linked[OF h this, of e] Some show ?thesis
    by (auto simp: expire_now_def get_timer_from_index_def tm_with_def)
qed

lemma expire_now_keeps: "tm_with new s \<Longrightarrow> expire_now e i s = Inr (r, s') \<Longrightarrow> tm_with new s'"
  using expire_now_inv[of new s e i] by auto

lemma expire_now_and_delete_inv:
  assumes "tm_with new s" "expire_now_and_delete e i s = Inr (r, s')"
  shows "tm_with new s'"
proof (cases "fmlookup (m_active_timer s) i")
  case None
  then show ?thesis using assms by (simp add: expire_now_and_delete_def get_timer_from_index_def)
next
  case (Some a)
  obtain h where h: "linked s new {} h" using assms(1) by (auto simp: tm_with_def)
  have "a \<in> active_timers s" using Some by (auto simp: active_timers_def)
  then have "a \<in> active_timers s \<union> new" by simp
  then obtain s0 where s0: "fire e a s = Inr s0" "linked s0 new {} h" "m_active_timer s0 = m_active_timer s"
    using fire_linked[OF h] by blast
  from assms(2) Some s0 obtain b s1 s2 where "heap_delete a s0 = Inr (b, s1)" "rearm_if e b s1 = Inr s2"
    "s' = free_timer a (erase_index i s2)"
    by (auto simp: expire_now_and_delete_def get_timer_from_index_def)
  then show ?thesis using erase_after_delete[OF s0(2)] Some s0(3) by auto
qed

lemma update_timer_linked:
  assumes "linked s new out h" "a \<in> active_timers s" "\<And>t. m_index (f t) = m_index t"
  shows "\<exists>s'. update_timer a f s = Inr s' \<and> linked s' new out h"
proof -
  obtain i where "fmlookup (m_active_timer s) i = Some a" using assms(2) by (auto simp: active_timers_def)
  then obtain t where t: "objs s a = Some t" using linked_active[OF assms(1)] by metis
  show ?thesis
    using update_objs_linked[OF assms(1) t assms(3)] by (simp add: update_timer_def deref_def t)
qed

lemma change_expire_time_inv:
  assumes "tm_with new s" "change_expire_time e i absolute tv cnt s = Inr (r, s')"
  shows "tm_with new s'"
proof (cases "tv_sec tv < 0 \<or> tv_usec tv < 0 \<or> fmlookup (m_active_timer s) i = None")
  case True
  then show ?thesis using assms
    by (auto simp: change_expire_time_def get_timer_from_index_def split: if_splits)
next
  case False
  then obtain a where a: "fmlookup (m_active_timer s) i = Some a" by auto
  obtain h where h: "linked s new {} h" using assms(1) by (auto simp: tm_with_def)
  have act: "a \<in> active_timers s" using a by (auto simp: active_timers_def)
  obtain b s1 where d: "heap_delete a s = Inr (b, s1)"
    using assms(2) a False by (auto simp: change_expire_time_def get_timer_from_index_def)
  have "a \<in> set (m_root h)" using h act by (auto simp: linked_def)
  then obtain h' where h': "linked s1 new {a} h'" "s1 = s\<lparr>m_heap := Some h'\<rparr>"
    using heap_delete_linked[OF h _ d] by auto
  have act1: "a \<in> active_timers s1" using act h'(2) by (simp add: active_timers_def)
  have tick: "linked (snd (gettimeofday e s1)) new {a} h'" "a \<in> active_timers (snd (gettimeofday e s1))"
    using gettimeofday_linked[OF h'(1)] act1 by (auto simp: gettimeofday_def active_timers_def)
  let ?f = "\<lambda>now t. set_last_times cnt (set_interval_time tv
     (set_timeout (add_delay now (tv_sec tv) (tv_usec tv)) t))"
  let ?upd = "if absolute then update_timer a (set_timeout tv) s1
     else update_timer a (?f (fst (gettimeofday e s1))) (snd (gettimeofday e s1))"
  have keep: "m_index (set_timeout tv t) = m_index t" "m_index (?f now t) = m_index t" for now t
    by (auto simp: timer_ops)
  have "\<exists>s3. ?upd = Inr s3 \<and> linked s3 new {a} h'"
    using update_timer_linked[OF h'(1) act1 keep(1)] update_timer_linked[OF tick keep(2)]
    by (cases absolute) auto
  then obtain s3 where s3: "?upd = Inr s3" "linked s3 new {a} h'" by blast
  obtain r4 s4 where "add_and_get_index e a False s3 = Inr (r4, s4)" "tm_with new s4"
    using requeue_linked[OF s3(2), of e] by auto
  then show ?thesis
    using assms(2) a False d s3(1)
    by (auto simp: change_expire_time_def get_timer_from_index_def Let_def split_beta split: if_splits)
qed

subsection \<open>The expiry of all timers that are due\<close>

definition runs_again :: "timer \<Rightarrow> bool" where
  "runs_again t \<longleftrightarrow> m_timer_type t = UNLIMIT \<or> 1 < m_last_times t"

lemma continue_timer_runs_again: "fst (continue_timer now (action cb t)) = runs_again t"
  by (auto simp: continue_timer_def action_def runs_again_def Let_def)

text \<open>One round of the loop: the timer goes back into the heap or is gone.\<close>

definition expire_one :: "env \<Rightarrow> nat \<Rightarrow> tmgr \<Rightarrow> tmgr run" where
  "expire_one e a s = expire_each e [a] s"

lemma expire_each_one: "expire_each e (a # as) s = and_then (expire_one e a s) (expire_each e as)"
proof (cases "fire e a s")
  case (Inr s1)
  show ?thesis
  proof (cases "deref s1 a")
    case (Inr t)
    define s2 where "s2 r = s1\<lparr>objs := (objs s1)(a := Some (snd (continue_timer (clock e (ticks s1)) t))),
      ticks := (if r then ticks s1 + 1 else ticks s1)\<rparr>" for r
    show ?thesis
      by (cases "heap_add a (s2 True)"; cases "get_index (snd (continue_timer (clock e (ticks s1)) t))")
        (auto simp: expire_one_def \<open>fire e a s = Inr s1\<close> Inr Let_def split_beta s2_def)
  qed (simp add: expire_one_def Inr)
qed (simp add: expire_one_def)

lemma expire_one_linked:
  assumes "linked s new (insert a out) h" "a \<in> active_timers s" "a \<notin> out" "objs s a = Some t"
  shows "\<exists>s' h'. expire_one e a s = Inr s' \<and> linked s' new out h' \<and> fired s' = fired s @ [a] \<and>
    active_timers s' = (if runs_again t then active_timers s else active_timers s - {a}) \<and>
    (\<forall>b. b \<noteq> a \<longrightarrow> objs s' b = objs s b)"
proof -
  let ?t1 = "action (callback e) t"
  let ?s1 = "s\<lparr>objs := (objs s)(a := Some ?t1), fired := fired s @ [a]\<rparr>"
  let ?c = "continue_timer (clock e (ticks s)) ?t1"
  let ?s2 = "?s1\<lparr>objs := (objs ?s1)(a := Some (snd ?c)), ticks := (if fst ?c then ticks s + 1 else ticks s)\<rparr>"
  have f1: "fire e a s = Inr ?s1" using assms(4) by (simp add: fire_def deref_def)
  obtain i where i: "fmlookup (m_active_timer s) i = Some a" using assms(2) by (auto simp: active_timers_def)
  have ti: "m_index t = Some i" using linked_active[OF assms(1) i] assms(4) by auto
  have "linked (s\<lparr>objs := (objs s)(a := Some (snd ?c))\<rparr>) new (insert a out) h"
    by (rule update_objs_linked[OF assms(1,4)]) (simp add: action_def)
  then have l2: "linked ?s2 new (insert a out) h" by (rule linked_frame) simp_all
  have act2: "active_timers ?s2 = active_timers s" by (simp add: active_timers_def)
  show ?thesis
  proof (cases "runs_again t")
    case True
    then have c: "fst ?c" by (simp add: continue_timer_runs_again)
    obtain r s3 h3 where s3: "heap_add a ?s2 = Inr (r, s3)" "linked s3 new out h3"
      using heap_add_linked[OF l2 assms(3)] by auto
    have e: "expire_one e a s = Inr s3"
      using f1 s3(1) c by (simp add: expire_one_def deref_def Let_def split_beta)
    show ?thesis
      using e s3(2) heap_add_frame[OF s3(1)] True
      by (auto simp: active_timers_def intro!: exI[of _ s3] exI[of _ h3])
  next
    case False
    then have c: "\<not> fst ?c" by (simp add: continue_timer_runs_again)
    have "get_index (snd ?c) = Inr i" using ti by (simp add: get_index_def action_def)
    then have e: "expire_one e a s = Inr (free_timer a (erase_index i ?s2))"
      using f1 c by (simp add: expire_one_def deref_def Let_def split_beta)
    have m: "fmlookup (m_active_timer ?s2) i = Some a" using i by simp
    note k = erase_free_linked[OF l2 m assms(3)]
    have "fired (free_timer a (erase_index i ?s2)) = fired s @ [a]"
      "\<forall>b. b \<noteq> a \<longrightarrow> objs (free_timer a (erase_index i ?s2)) b = objs s b"
      by (auto simp: free_timer_def erase_index_def)
    then show ?thesis using e k False act2 by (intro exI[of _ "free_timer a (erase_index i ?s2)"] exI[of _ h]) auto
  qed
qed

lemma expire_each_linked:
  assumes "linked s {} (set as) h" "distinct as" "set as \<subseteq> active_timers s"
  shows "\<exists>s' h'. expire_each e as s = Inr s' \<and> linked s' {} {} h' \<and> fired s' = fired s @ as \<and>
    active_timers s' = {a \<in> active_timers s. a \<in> set as \<longrightarrow> (\<exists>t. objs s a = Some t \<and> runs_again t)} \<and>
    (\<forall>b. b \<notin> set as \<longrightarrow> objs s' b = objs s b)"
  using assms
proof (induction as arbitrary: s h)
  case Nil
  then show ?case by auto
next
  case (Cons a as)
  have a: "a \<in> active_timers s" using Cons.prems(3) by simp
  then obtain i where i: "fmlookup (m_active_timer s) i = Some a" by (auto simp: active_timers_def)
  then obtain t where t: "objs s a = Some t" using linked_active[OF Cons.prems(1)] by metis
  have "linked s {} (insert a (set as)) h" "a \<notin> set as" using Cons.prems by auto
  then obtain s1 h1 where s1: "expire_one e a s = Inr s1" "linked s1 {} (set as) h1"
    "fired s1 = fired s @ [a]"
    "active_timers s1 = (if runs_again t then active_timers s else active_timers s - {a})"
    "\<forall>b. b \<noteq> a \<longrightarrow> objs s1 b = objs s b"
    using expire_one_linked[OF _ a _ t] by meson
  have "set as \<subseteq> active_timers s1" using Cons.prems s1(4) by auto
  then obtain s' h' where IH: "expire_each e as s1 = Inr s'" "linked s' {} {} h'"
    "fired s' = fired s1 @ as"
    "active_timers s' = {a \<in> active_timers s1. a \<in> set as \<longrightarrow> (\<exists>t. objs s1 a = Some t \<and> runs_again t)}"
    "\<forall>b. b \<notin> set as \<longrightarrow> objs s' b = objs s1 b"
    using Cons.IH[OF s1(2)] Cons.prems(2) by auto
  have act: "active_timers s' = {b \<in> active_timers s. b \<in> set (a # as) \<longrightarrow> (\<exists>t. objs s b = Some t \<and> runs_again t)}"
    unfolding IH(4) s1(4) using s1(5) t a Cons.prems(2) by auto
  have "\<forall>b. b \<notin> set (a # as) \<longrightarrow> objs s' b = objs s b" using IH(5) s1(5) by simp
  then show ?case
    using IH(1-3) s1(1,3) act by (auto simp: expire_each_one simp del: expire_each.simps)
qed

lemma take_out_linked:
  assumes "linked s new {} h" "get_and_remove_expire_timers (expire_of s) tm h = (ts, h')"
  shows "linked (s\<lparr>m_heap := Some h'\<rparr>) new (set ts) h'" "distinct ts" "set ts \<subseteq> active_timers s \<union> new"
    "\<And>a. a \<in> set ts \<Longrightarrow> expire_of s a < tm"
proof -
  have wf: "wf_theap h" "distinct (m_root h)" "set (m_root h) = active_timers s \<union> new"
    using assms(1) by (auto simp: linked_def)
  note k = heap_store.take_out_set[OF wf(1) assms(2)]
  show "distinct ts" "set ts \<subseteq> active_timers s \<union> new" using k wf by auto
  have "wf_theap h'" by (rule heap_store.take_out_invar[OF wf(1) assms(2)])
  then show "linked (s\<lparr>m_heap := Some h'\<rparr>) new (set ts) h'"
    using assms(1) k wf by (auto simp: linked_def active_timers_def indexed_def)
  show "\<And>a. a \<in> set ts \<Longrightarrow> expire_of s a < tm"
    by (rule get_and_remove_expire_timers_wf(3)[OF wf(1) assms(2)])
qed

text \<open>
  With orphans in the heap: an orphan that runs again is queued again; for one that ran for
  the last time the loop reads the index it never got, which is a fault.
\<close>

lemma expire_one_orphan:
  assumes "linked s new (insert a out) h" "a \<in> new" "a \<notin> out" "objs s a = Some t"
  shows "expire_one e a s = Inr s' \<Longrightarrow> \<exists>h'. linked s' new out h' \<and> active_timers s' = active_timers s"
    and "\<not> runs_again t \<Longrightarrow> expire_one e a s = Inl Uninitialised"
proof -
  let ?t1 = "action (callback e) t"
  let ?s1 = "s\<lparr>objs := (objs s)(a := Some ?t1), fired := fired s @ [a]\<rparr>"
  let ?c = "continue_timer (clock e (ticks s)) ?t1"
  let ?s2 = "?s1\<lparr>objs := (objs ?s1)(a := Some (snd ?c)), ticks := (if fst ?c then ticks s + 1 else ticks s)\<rparr>"
  have f1: "fire e a s = Inr ?s1" using assms(4) by (simp add: fire_def deref_def)
  have ti: "m_index t = None" using assms(1,2,4) by (auto simp: linked_def)
  have "linked (s\<lparr>objs := (objs s)(a := Some (snd ?c))\<rparr>) new (insert a out) h"
    by (rule update_objs_linked[OF assms(1,4)]) (simp add: action_def)
  then have l2: "linked ?s2 new (insert a out) h" by (rule linked_frame) simp_all
  obtain r s3 h3 where s3: "heap_add a ?s2 = Inr (r, s3)" "linked s3 new out h3"
    using heap_add_linked[OF l2 assms(3)] by auto
  have "get_index (snd ?c) = Inl Uninitialised" using ti by (simp add: get_index_def action_def)
  then have e: "expire_one e a s = (if fst ?c then Inr s3 else Inl Uninitialised)"
    using f1 s3(1) by (cases "fst ?c") (simp_all add: expire_one_def deref_def Let_def split_beta)
  show "expire_one e a s = Inl Uninitialised" if "\<not> runs_again t"
    using e that by (simp add: continue_timer_runs_again)
  obtain h4 where "s3 = ?s2\<lparr>m_heap := Some h4\<rparr>" using heap_add_frame[OF s3(1)] by blast
  then have "active_timers s3 = active_timers s" by (simp add: active_timers_def)
  then show "\<exists>h'. linked s' new out h' \<and> active_timers s' = active_timers s"
    if "expire_one e a s = Inr s'"
    using e that s3(2) by (auto split: if_splits)
qed

lemma expire_one_keeps:
  assumes "linked s new (insert a out) h" "a \<in> active_timers s \<union> new" "a \<notin> out" "expire_one e a s = Inr s'"
  shows "\<exists>h'. linked s' new out h' \<and> active_timers s - {a} \<subseteq> active_timers s'"
proof -
  obtain t where t: "objs s a = Some t" using linked_object[OF assms(1,2)] by blast
  show ?thesis
  proof (cases "a \<in> new")
    case True
    from expire_one_orphan(1)[OF assms(1) True assms(3) t assms(4)] show ?thesis by blast
  next
    case False
    then have "a \<in> active_timers s" using assms(2) by blast
    from expire_one_linked[OF assms(1) this assms(3) t, of e] assms(4) show ?thesis
      by (auto split: if_splits)
  qed
qed

lemma expire_each_keeps:
  assumes "linked s new (set as) h" "distinct as" "set as \<subseteq> active_timers s \<union> new"
    "expire_each e as s = Inr s'"
  shows "\<exists>h'. linked s' new {} h'"
  using assms
proof (induction as arbitrary: s h)
  case (Cons a as)
  obtain s1 where s1: "expire_one e a s = Inr s1" "expire_each e as s1 = Inr s'"
    using Cons.prems(4) by (auto simp: expire_each_one simp del: expire_each.simps)
  have "linked s new (insert a (set as)) h" "a \<in> active_timers s \<union> new" "a \<notin> set as"
    using Cons.prems by auto
  from expire_one_keeps[OF this s1(1)] obtain h1 where
    "linked s1 new (set as) h1" "active_timers s - {a} \<subseteq> active_timers s1" by blast
  then show ?case using Cons.IH[OF _ _ _ s1(2)] Cons.prems(2,3) by fastforce
qed auto

lemma expire_all_keeps:
  assumes "tm_with new s" "expire_all e s = Inr (r, s')"
  shows "tm_with new s'"
proof -
  obtain h where h: "linked s new {} h" using assms(1) by (auto simp: tm_with_def)
  let ?s = "s\<lparr>ticks := Suc (ticks s)\<rparr>"
  have l: "linked ?s new {} h" using gettimeofday_linked[OF h, of e] by (simp add: gettimeofday_def)
  obtain ts h' where g: "get_and_remove_expire_timers (expire_of ?s)
      (change_timeval (clock e (ticks s))) h = (ts, h')" by fastforce
  note t = take_out_linked[OF l g]
  obtain s1 where s1: "expire_each e ts (?s\<lparr>m_heap := Some h'\<rparr>) = Inr s1"
    using assms(2) g by (auto simp: expire_all_def gettimeofday_eq linked_live[OF l] Let_def split: if_splits)
  have "set ts \<subseteq> active_timers (?s\<lparr>m_heap := Some h'\<rparr>) \<union> new"
    using t(3) by (simp add: active_timers_def)
  then obtain h1 where h1: "linked s1 new {} h1" using expire_each_keeps[OF t(1,2) _ s1] by blast
  have "s' = s1 \<or> s' = snd (timerfd_settime e (get_root_time (expire_of s1) h1) s1)"
    using assms(2) g s1 by (auto simp: expire_all_def gettimeofday_eq linked_live[OF l]
        linked_live[OF h1] Let_def split_beta split: if_splits)
  then show ?thesis using h1 timerfd_settime_linked[OF h1] by (auto simp: tm_with_def)
qed

lemma expire_all_linked:
  assumes "linked s {} {} h" "\<exists>a as. m_root h = a # as \<and> expire_of s a < change_timeval (clock e (ticks s))"
  shows "\<exists>r s' ts. expire_all e s = Inr (r, s') \<and> tm_inv s' \<and> fired s' = fired s @ ts \<and>
    ts = fst (get_and_remove_expire_timers (expire_of s) (change_timeval (clock e (ticks s))) h) \<and>
    distinct ts \<and> set ts \<subseteq> active_timers s \<and>
    (\<forall>a \<in> set ts. expire_of s a < change_timeval (clock e (ticks s))) \<and>
    active_timers s' = {a \<in> active_timers s. a \<in> set ts \<longrightarrow> (\<exists>t. objs s a = Some t \<and> runs_again t)} \<and>
    (\<forall>b. b \<notin> set ts \<longrightarrow> objs s' b = objs s b)"
proof -
  let ?tm = "change_timeval (clock e (ticks s))"
  let ?s = "s\<lparr>ticks := Suc (ticks s)\<rparr>"
  have ex: "expire_of ?s = expire_of s" by (simp add: expire_of_def fun_eq_iff)
  have l: "linked ?s {} {} h" using gettimeofday_linked[OF assms(1), of e] by (simp add: gettimeofday_def)
  obtain ts h' where g: "get_and_remove_expire_timers (expire_of s) ?tm h = (ts, h')" by fastforce
  note t = take_out_linked[OF l, of ?tm ts h', unfolded ex, OF g]
  have "wf_theap h" using assms(1) by (simp add: linked_def)
  from get_and_remove_expire_timers_none[OF this g] have ne: "ts \<noteq> []" using assms(2) by auto
  have sub: "set ts \<subseteq> active_timers (?s\<lparr>m_heap := Some h'\<rparr>)"
    using t(3) by (simp add: active_timers_def)
  obtain s1 h1 where s1: "expire_each e ts (?s\<lparr>m_heap := Some h'\<rparr>) = Inr s1" "linked s1 {} {} h1"
    "fired s1 = fired s @ ts" "\<forall>b. b \<notin> set ts \<longrightarrow> objs s1 b = objs s b"
    "active_timers s1 = {a \<in> active_timers (?s\<lparr>m_heap := Some h'\<rparr>). a \<in> set ts \<longrightarrow>
       (\<exists>t. objs s a = Some t \<and> runs_again t)}"
    using expire_each_linked[OF t(1,2) sub, of e] by auto
  let ?x = "get_root_time (expire_of s1) h1"
  let ?s2 = "if ?x = - 1 then s1 else snd (timerfd_settime e ?x s1)"
  have run: "\<exists>r. expire_all e s = Inr (r, ?s2)"
    using ne s1(1) by (simp add: expire_all_def gettimeofday_eq ex linked_live[OF l] g
        linked_live[OF s1(2)] Let_def split_beta)
  have "tm_inv ?s2" using s1(2) timerfd_settime_linked[OF s1(2), of e ?x] by (auto simp: tm_inv_def)
  moreover have "fired ?s2 = fired s1" "active_timers ?s2 = active_timers s1" "objs ?s2 = objs s1"
    by (auto simp: timerfd_settime_def active_timers_def)
  moreover have "active_timers (?s\<lparr>m_heap := Some h'\<rparr>) = active_timers s"
    by (simp add: active_timers_def)
  ultimately show ?thesis
    using run s1(3-5) t(2-4) g t(3)[unfolded active_timers_def] by (auto simp: active_timers_def)
qed

lemma expire_all_idle:
  assumes "linked s {} {} h" "\<forall>a as. m_root h = a # as \<longrightarrow> change_timeval (clock e (ticks s)) \<le> expire_of s a"
  shows "expire_all e s = Inl Assert_Failed"
proof -
  let ?s = "s\<lparr>ticks := Suc (ticks s)\<rparr>"
  let ?tm = "change_timeval (clock e (ticks s))"
  have ex: "expire_of ?s = expire_of s" by (simp add: expire_of_def fun_eq_iff)
  have l: "linked ?s {} {} h" using gettimeofday_linked[OF assms(1), of e] by (simp add: gettimeofday_def)
  obtain ts h' where g: "get_and_remove_expire_timers (expire_of s) ?tm h = (ts, h')" by fastforce
  have "wf_theap h" using assms(1) by (simp add: linked_def)
  from get_and_remove_expire_timers_none[OF this g] have "ts = []"
    using assms(2) by (cases "m_root h") auto
  then show ?thesis
    by (simp add: expire_all_def gettimeofday_eq ex linked_live[OF l] g Let_def)
qed

subsection \<open>The manager as a transition system\<close>

text \<open>
  A call of an operation that ends without a fault is a step, whatever it returns. An
  \<open>add_timer\<close> that returns \<open>-1\<close> because \<open>timerfd_settime\<close> failed is one of them: it leaves a
  timer in the heap that the map does not know.
\<close>

inductive tm_step :: "env \<Rightarrow> tmgr \<Rightarrow> tmgr \<Rightarrow> bool" for e where
  add: "add_timer e tm cb para s = Inr (r, s') \<Longrightarrow> tm_step e s s'"
| add_time: "add_timer_time e tmt cb para s = Inr (r, s') \<Longrightarrow> tm_step e s s'"
| add_tm: "add_timer_tm e tmid cb para s = Inr (r, s') \<Longrightarrow> tm_step e s s'"
| add_rel: "add_timer_rel e sec usec cb para cnt s = Inr (r, s') \<Longrightarrow> tm_step e s s'"
| delete: "delete_timer e i s = Inr (r, s') \<Longrightarrow> tm_step e s s'"
| now: "expire_now e i s = Inr (r, s') \<Longrightarrow> tm_step e s s'"
| now_delete: "expire_now_and_delete e i s = Inr (r, s') \<Longrightarrow> tm_step e s s'"
| change: "change_expire_time e i absolute tv cnt s = Inr (r, s') \<Longrightarrow> tm_step e s s'"
| expire: "expire_all e s = Inr (r, s') \<Longrightarrow> tm_step e s s'"

inductive_cases tm_stepE: "tm_step e s s'"

inductive tm_reachable :: "env \<Rightarrow> tmgr \<Rightarrow> bool" for e where
  start: "initialize e new_tmgr = (0, s) \<Longrightarrow> tm_reachable e s"
| step: "tm_reachable e s \<Longrightarrow> tm_step e s s' \<Longrightarrow> tm_reachable e s'"

lemma tm_inv_initialize: "initialize e new_tmgr = (0, s) \<Longrightarrow> tm_inv s"
  by (auto simp: initialize_def new_tmgr_def tm_inv_def linked_def new_theap_def wf_theap_def
      active_timers_def indexed_def split: if_splits)

lemmas tm_with_ops = delete_timer_inv expire_now_keeps expire_now_and_delete_inv
  change_expire_time_inv expire_all_keeps

lemma add_timer_time_after:
  "tm_with new s \<Longrightarrow> add_timer_time e tmt cb para s = Inr (r, s') \<Longrightarrow> after_add new e r s'"
  unfolding add_timer_time_def by (rule add_timer_after)

lemmas tm_adds_after = add_timer_after add_timer_time_after add_timer_tm_after add_timer_rel_after

lemma after_add_with:
  "after_add new e r s' \<Longrightarrow> \<exists>new'. tm_with new' s' \<and> ((\<forall>n. \<not> settime_fails e n) \<longrightarrow> new' = new)"
  unfolding after_add_def by blast

lemma tm_step_with:
  assumes "tm_step e s s'" "tm_with new s"
  shows "\<exists>new'. tm_with new' s' \<and> ((\<forall>n. \<not> settime_fails e n) \<longrightarrow> new' = new)"
proof -
  have keep: ?thesis if "tm_with new s'" using that by blast
  show ?thesis
    using assms(1)
  proof (cases rule: tm_step.cases)
    case add then show ?thesis by (intro after_add_with tm_adds_after[OF assms(2)])
  next
    case add_time then show ?thesis by (intro after_add_with tm_adds_after[OF assms(2)])
  next
    case add_tm then show ?thesis by (intro after_add_with tm_adds_after[OF assms(2)])
  next
    case add_rel then show ?thesis by (intro after_add_with tm_adds_after[OF assms(2)])
  next
    case delete then show ?thesis by (intro keep tm_with_ops[OF assms(2)])
  next
    case now then show ?thesis by (intro keep tm_with_ops[OF assms(2)])
  next
    case now_delete then show ?thesis by (intro keep tm_with_ops[OF assms(2)])
  next
    case change then show ?thesis by (intro keep tm_with_ops[OF assms(2)])
  next
    case expire then show ?thesis by (intro keep tm_with_ops[OF assms(2)])
  qed
qed

lemma tm_reachable_with:
  assumes "tm_reachable e s"
  shows "\<exists>new. tm_with new s \<and> ((\<forall>n. \<not> settime_fails e n) \<longrightarrow> new = {})"
  using assms
proof (induction rule: tm_reachable.induct)
  case (start s)
  then show ?case using tm_inv_initialize by (auto simp: tm_inv_with)
next
  case (step s s')
  then show ?case using tm_step_with by metis
qed

subsection \<open>A concrete manager\<close>

definition demo_env :: env where
  "demo_env = \<lparr>clock = (\<lambda>n. \<lparr>tv_sec = 100 + int n, tv_usec = 999999\<rparr>), settime_fails = (\<lambda>_. False),
     create_fd = 3, mktime = (\<lambda>_. 0), callback = (\<lambda>_ _. 0), junk = 0\<rparr>"

definition demo_empty :: tmgr where
  "demo_empty = snd (initialize demo_env new_tmgr)"

definition demo_one :: tmgr where
  "demo_one = snd (projr (add_timer_rel demo_env 0 1 7 8 1 demo_empty))"

definition demo_two :: tmgr where
  "demo_two = snd (projr (add_timer_rel demo_env 3 0 7 9 2 demo_one))"

lemma demo_empty_inv: "tm_inv demo_empty"
proof -
  have "initialize demo_env new_tmgr = (0, demo_empty)"
    by (simp add: demo_empty_def initialize_def demo_env_def)
  then show ?thesis by (rule tm_inv_initialize)
qed

lemma run_value:
  assumes "case x of Inl _ \<Rightarrow> False | Inr (r, _) \<Rightarrow> r = k"
  shows "x = Inr (k, snd (projr x))"
  using assms by (cases x) auto

lemma demo_one_run: "add_timer_rel demo_env 0 1 7 8 1 demo_empty = Inr (1, demo_one)"
  unfolding demo_one_def by (rule run_value) code_simp

lemma demo_two_run: "add_timer_rel demo_env 3 0 7 9 2 demo_one = Inr (2, demo_two)"
  unfolding demo_two_def by (rule run_value) code_simp

lemma demo_one_inv: "tm_inv demo_one"
  using add_timer_rel_inv[OF demo_empty_inv demo_one_run] by simp

lemma demo_two_inv: "tm_inv demo_two"
  using add_timer_rel_inv[OF demo_one_inv demo_two_run] by simp

subsection \<open>Properties\<close>

lemma heap_delete_two:
  assumes "linked s {} {} h" "fmlookup (m_active_timer s) i = Some a"
    "fmlookup (m_active_timer s) j = Some b" "i \<noteq> j"
  shows "\<exists>r s1. heap_delete a s = Inr (r, s1)"
proof -
  have ab: "a \<noteq> b" using linked_inj[OF assms(1,2)] assms(3,4) by blast
  have "a \<in> set (m_root h)" "b \<in> set (m_root h)"
    using assms(1-3) by (auto simp: linked_def active_timers_def)
  moreover have "2 \<le> card {a, b}" using ab by simp
  ultimately have "2 \<le> length (m_root h)"
    by (metis card_length card_mono empty_subsetI finite_set insert_subset le_trans)
  then obtain r h' where "delete_timer_from_heap (expire_of s) a h = Inr (r, h')"
    using delete_timer_ok[of h a "expire_of s"] assms(1) \<open>a \<in> set (m_root h)\<close>
    by (auto simp: linked_def wf_theap_def)
  then show ?thesis by (simp add: heap_delete_def linked_live[OF assms(1)])
qed

lemma delete_frame:
  assumes "linked s1 {} {a} h'" "s1 = s\<lparr>m_heap := Some h'\<rparr>"
  shows "\<exists>s2. rearm_if e r s1 = Inr s2 \<and> linked s2 {} {a} h' \<and> m_active_timer s2 = m_active_timer s \<and>
    objs s2 = objs s \<and> fired s2 = fired s"
proof -
  obtain s2 where s2: "rearm_if e r s1 = Inr s2" "linked s2 {} {a} h'"
    using rearm_if_linked[OF assms(1)] by blast
  moreover have "m_active_timer s2 = m_active_timer s \<and> objs s2 = objs s \<and> fired s2 = fired s"
    using s2(1) assms(2) set_new_timeout_frame[of e s1]
    by (fastforce simp: rearm_if_def run_map_eq_Inr split: if_splits)
  ultimately show ?thesis by blast
qed

lemma linked_single:
  assumes "linked s {} {} h" "m_active_timer s = fmupd i a fmempty"
  shows "m_root h = [a]"
proof -
  have "active_timers s = {a}" using assms(2) by (auto simp: active_timers_def)
  then have "distinct (m_root h)" "set (m_root h) = {a}" using assms(1) by (auto simp: linked_def)
  then show ?thesis
    by (metis distinct_length_2_or_more empty_iff empty_set insert_iff list.set_cases list.set_intros(1)
        list.simps(15) neq_Nil_conv)
qed

text \<open>
  C1 In every manager reached from a successful \<open>initialize\<close> by calls of its operations, those
  that return \<open>-1\<close> included: the heap holds each of its timers once and all of them are live
  objects; every timer of the map is in the heap and carries its own index, which is not
  above the last one given out (so no two indices name one timer); a timer of the heap that
  the map does not know never got an index. If no \<open>timerfd_settime\<close> fails there is none of
  those: heap and map hold the same timers.
\<close>

theorem manager_invariant:
  assumes "tm_reachable e s"
  shows "\<exists>h. m_heap s = Some h \<and> m_heap_size h = length (m_root h) \<and> distinct (m_root h) \<and>
    (\<forall>i a. fmlookup (m_active_timer s) i = Some a \<longrightarrow>
       a \<in> set (m_root h) \<and> i \<le> m_next_index s \<and> (\<exists>t. objs s a = Some t \<and> m_index t = Some i)) \<and>
    (\<forall>a \<in> set (m_root h). \<exists>t. objs s a = Some t \<and>
       (case m_index t of None \<Rightarrow> \<forall>i. fmlookup (m_active_timer s) i \<noteq> Some a
        | Some i \<Rightarrow> fmlookup (m_active_timer s) i = Some a)) \<and>
    ((\<forall>n. \<not> settime_fails e n) \<longrightarrow>
       (\<forall>a. a \<in> set (m_root h) \<longleftrightarrow> (\<exists>i. fmlookup (m_active_timer s) i = Some a)))"
proof -
  obtain new h where h: "linked s new {} h" and new: "(\<forall>n. \<not> settime_fails e n) \<longrightarrow> new = {}"
    using tm_reachable_with[OF assms] by (auto simp: tm_with_def)
  have heap: "set (m_root h) = active_timers s \<union> new" "indexed s" using h by (auto simp: linked_def)
  have map: "a \<in> set (m_root h) \<and> i \<le> m_next_index s \<and> (\<exists>t. objs s a = Some t \<and> m_index t = Some i)"
    if "fmlookup (m_active_timer s) i = Some a" for i a
    using indexedD[OF heap(2) that] that heap(1) by (auto simp: active_timers_def)
  have root: "\<exists>t. objs s a = Some t \<and> (case m_index t of
      None \<Rightarrow> \<forall>i. fmlookup (m_active_timer s) i \<noteq> Some a
    | Some i \<Rightarrow> fmlookup (m_active_timer s) i = Some a)" if "a \<in> set (m_root h)" for a
  proof (cases "a \<in> new")
    case True
    then show ?thesis using h by (fastforce simp: linked_def active_timers_def)
  next
    case False
    then have "a \<in> active_timers s" using that heap(1) by blast
    then obtain i where i: "fmlookup (m_active_timer s) i = Some a" by (auto simp: active_timers_def)
    from map[OF i] i show ?thesis by auto
  qed
  have "\<forall>a. a \<in> set (m_root h) \<longleftrightarrow> (\<exists>i. fmlookup (m_active_timer s) i = Some a)" if "new = {}"
    using that heap(1) by (auto simp: active_timers_def)
  then show ?thesis using h map root new by (auto simp: linked_def wf_theap_def)
qed

lemma manager_invariant_witness:
  "tm_reachable demo_env demo_two \<and> (\<exists>h. m_heap demo_two = Some h \<and> distinct (m_root h) \<and>
     0 \<in> set (m_root h) \<and> 1 \<in> set (m_root h))"
proof -
  have "initialize demo_env new_tmgr = (0, demo_empty)"
    by (simp add: demo_empty_def initialize_def demo_env_def)
  then have "tm_reachable demo_env demo_empty" by (rule tm_reachable.start)
  then have "tm_reachable demo_env demo_one"
    by (rule tm_reachable.step) (rule tm_step.add_rel[OF demo_one_run])
  then have r: "tm_reachable demo_env demo_two"
    by (rule tm_reachable.step) (rule tm_step.add_rel[OF demo_two_run])
  have "fmlookup (m_active_timer demo_two) 2 = Some 1" "fmlookup (m_active_timer demo_two) 1 = Some 0"
    by code_simp+
  then show ?thesis using manager_invariant[OF r] r by blast
qed

text \<open>
  \<open>TimerManager::add_timer(sec, usec, cb, para, cnt)\<close> with arguments not negative, on a
  manager in order and with a timerfd that can be set: the call returns the index after the
  last one given out, the map gains that index for a new object due \<open>sec\<close> seconds and \<open>usec\<close>
  microseconds after the clock reading, the manager is in order again, and no callback has run.
\<close>

theorem add_timer_rel_correct:
  assumes "tm_inv s" "0 \<le> sec" "0 \<le> usec" "\<forall>n. \<not> settime_fails e n"
  shows "\<exists>s' t. add_timer_rel e sec usec cb para cnt s = Inr (m_next_index s + 1, s') \<and> tm_inv s' \<and>
    m_active_timer s' = fmupd (m_next_index s + 1) (next_addr s) (m_active_timer s) \<and>
    objs s' = (objs s)(next_addr s := Some t) \<and> fired s' = fired s \<and>
    m_expire_time t = word_of_int
      ((tv_sec (clock e (ticks s)) + sec) * 1000000 + tv_usec (clock e (ticks s)) + usec)"
proof -
  let ?now = "clock e (ticks s)"
  let ?t = "new_timer (add_delay ?now sec usec) \<lparr>tv_sec = sec, tv_usec = usec\<rparr> cb para cnt"
  have i: "tm_with {} (s\<lparr>ticks := ticks s + 1\<rparr>)"
    using assms(1) tm_with_tick by (simp add: tm_inv_with)
  have d: "m_expire_time (set_index j ?t) = word_of_int
      ((tv_sec ?now + sec) * 1000000 + tv_usec ?now + usec)" for j
    by (simp add: timer_ops change_timeval_def add_delay_def Let_def algebra_simps)
  obtain a s1 where al: "alloc_timer ?t (s\<lparr>ticks := ticks s + 1\<rparr>) = (a, s1)" by fastforce
  from create_linked[OF i al new_timer_index, of e] assms(2-4) al show ?thesis
    by (auto simp: add_timer_rel_def gettimeofday_eq Let_def d tm_inv_with simp del: One_nat_def
        intro!: exI[of _ "set_index (m_next_index s + 1) ?t"])
qed

lemma add_timer_rel_correct_witness:
  "\<exists>s'. add_timer_rel demo_env 3 0 7 9 2 demo_one = Inr (m_next_index demo_one + 1, s') \<and> tm_inv s'"
  using add_timer_rel_correct[OF demo_one_inv, of 3 0 demo_env 7 9 2] by (auto simp: demo_env_def)

text \<open>\<open>TimerManager::delete_timer\<close> of an index in use, while some other timer is active.\<close>

lemma delete_timer_other:
  assumes "tm_inv s" "fmlookup (m_active_timer s) i = Some a"
    "fmlookup (m_active_timer s) j = Some b" "i \<noteq> j"
  shows "\<exists>s'. delete_timer e i s = Inr (0, s') \<and> tm_inv s' \<and>
    m_active_timer s' = fmdrop i (m_active_timer s) \<and> objs s' = (objs s)(a := None) \<and> fired s' = fired s"
proof -
  obtain h where h: "linked s {} {} h" using assms(1) by (auto simp: tm_inv_def)
  obtain r s1 where d: "heap_delete a s = Inr (r, s1)" using heap_delete_two[OF h assms(2-4)] by blast
  have "a \<in> set (m_root h)" using h assms(2) by (auto simp: linked_def active_timers_def)
  then obtain h' where "linked s1 {} {a} h'" "s1 = s\<lparr>m_heap := Some h'\<rparr>"
    using heap_delete_linked[OF h _ d] by auto
  then obtain s2 where s2: "rearm_if e r s1 = Inr s2" "m_active_timer s2 = m_active_timer s"
    "objs s2 = objs s" "fired s2 = fired s" using delete_frame by blast
  have "delete_timer e i s = Inr (0, free_timer a (erase_index i s2))"
    using d s2(1) assms(2)
    by (simp add: delete_timer_def get_timer_from_index_def erase_index_heap_delete erase_index_rearm)
  moreover from delete_timer_inv[OF assms(1)[unfolded tm_inv_with] this, folded tm_inv_with] have "tm_inv (free_timer a (erase_index i s2))" .
  ultimately show ?thesis using s2 by (simp add: free_timer_def erase_index_def)
qed

text \<open>
  \<open>TimerManager::delete_timer\<close> of the only active timer reads the first element of the vector
  it has just emptied: \<open>TimerHeap::delete_timer_from_heap\<close> has no guard for that case.
\<close>

theorem delete_only_timer_faults:
  assumes "tm_inv s" "m_active_timer s = fmupd i a fmempty"
  shows "delete_timer e i s = Inl Out_Of_Bounds"
proof -
  obtain h where h: "linked s {} {} h" using assms(1) by (auto simp: tm_inv_def)
  have r: "m_root h = [a]" by (rule linked_single[OF h assms(2)])
  then have "m_heap_size h = 1" using h by (simp add: linked_def wf_theap_def)
  then have "delete_timer_from_heap (expire_of s) a h = Inl Out_Of_Bounds"
    using r by (simp add: delete_timer_from_heap_def Let_def swap_def adjust_heap_2_def)
  then show ?thesis
    using assms(2) by (simp add: delete_timer_def get_timer_from_index_def erase_index_heap_delete
        heap_delete_def linked_live[OF h])
qed

lemma delete_only_timer_faults_witness: "delete_timer demo_env 1 demo_one = Inl Out_Of_Bounds"
proof -
  have "fmdom (m_active_timer demo_one) = {|1|}" "fmlookup (m_active_timer demo_one) 1 = Some 0"
    by code_simp+
  then have "fmlookup (m_active_timer demo_one) k = fmlookup (fmupd 1 0 fmempty) k" for k
    by (cases "k = 1") (auto intro: fmdom_notD)
  then have "m_active_timer demo_one = fmupd 1 0 fmempty" by (rule fmap_ext)
  from delete_only_timer_faults[OF demo_one_inv this] show ?thesis .
qed

text \<open>
  C17 \<open>TimerManager::delete_timer\<close> of an index in use. While some other timer is active: the call
  returns 0, the map loses exactly that index, the object is freed, its callback does not
  run, and the manager is in order again. When it is the only active timer the call reads
  the first element of the vector it has just emptied.
\<close>

theorem delete_timer_correct:
  assumes "tm_inv s" "fmlookup (m_active_timer s) i = Some a"
  shows "if fmdom (m_active_timer s) = {|i|} then delete_timer e i s = Inl Out_Of_Bounds
    else \<exists>s'. delete_timer e i s = Inr (0, s') \<and> tm_inv s' \<and>
      m_active_timer s' = fmdrop i (m_active_timer s) \<and> objs s' = (objs s)(a := None) \<and> fired s' = fired s"
proof (cases "fmdom (m_active_timer s) = {|i|}")
  case True
  then have "fmlookup (m_active_timer s) k = fmlookup (fmupd i a fmempty) k" for k
    using assms(2) by (cases "k = i") (auto intro: fmdom_notD)
  then have "m_active_timer s = fmupd i a fmempty" by (rule fmap_ext)
  from delete_only_timer_faults[OF assms(1) this] True show ?thesis by simp
next
  case False
  moreover have "i |\<in>| fmdom (m_active_timer s)" using assms(2) by (rule fmdomI)
  ultimately obtain j where "j |\<in>| fmdom (m_active_timer s)" "i \<noteq> j" by blast
  then obtain b where "fmlookup (m_active_timer s) j = Some b" by (auto elim: fmdomE)
  from delete_timer_other[OF assms this \<open>i \<noteq> j\<close>, of e] False show ?thesis by simp
qed

lemma delete_timer_correct_witness:
  "\<exists>s'. delete_timer demo_env 2 demo_two = Inr (0, s') \<and> tm_inv s' \<and> fmlookup (m_active_timer s') 2 = None"
proof -
  have a: "fmlookup (m_active_timer demo_two) 2 = Some 1" by code_simp
  have "fmdom (m_active_timer demo_two) \<noteq> {|2|}" by code_simp
  with delete_timer_correct[OF demo_two_inv a, of demo_env] show ?thesis by auto
qed



text \<open>
  C4 \<open>TimerManager::expire_all\<close> when the timer at the root has expired: no fault; the callbacks
  that run are those of the timers the heap hands out, each once, in that order, and all of
  them were due; afterwards the active timers are the old ones without those that ran for
  the last time, every object that did not run is untouched, and the manager is in order.
\<close>

theorem expire_all_correct:
  assumes "tm_inv s" "m_heap s = Some h" "m_root h = a # as"
    "expire_of s a < change_timeval (clock e (ticks s))"
  shows "\<exists>r s' ts. expire_all e s = Inr (r, s') \<and> tm_inv s' \<and> fired s' = fired s @ ts \<and>
    ts = fst (get_and_remove_expire_timers (expire_of s) (change_timeval (clock e (ticks s))) h) \<and>
    distinct ts \<and> (\<forall>b \<in> set ts. expire_of s b < change_timeval (clock e (ticks s))) \<and>
    active_timers s' = {b \<in> active_timers s. b \<in> set ts \<longrightarrow> (\<exists>t. objs s b = Some t \<and> runs_again t)} \<and>
    (\<forall>b. b \<notin> set ts \<longrightarrow> objs s' b = objs s b)"
proof -
  have l: "linked s {} {} h" using assms(1,2) by (auto simp: tm_inv_def linked_def)
  have "\<exists>a as. m_root h = a # as \<and> expire_of s a < change_timeval (clock e (ticks s))"
    using assms(3,4) by blast
  from expire_all_linked[OF l this] show ?thesis
    by (elim exE conjE, intro exI conjI) assumption+
qed

lemma expire_all_correct_witness:
  "\<exists>r s'. expire_all demo_env demo_two = Inr (r, s') \<and> tm_inv s' \<and> fired s' = [0] \<and>
     active_timers s' = active_timers demo_two - {0}"
proof -
  have h: "m_heap demo_two = Some \<lparr>m_root = [0, 1], m_heap_size = 2\<rparr>" by code_simp
  have due: "expire_of demo_two 0 < change_timeval (clock demo_env (ticks demo_two))" by code_simp
  have ts: "fst (get_and_remove_expire_timers (expire_of demo_two)
     (change_timeval (clock demo_env (ticks demo_two))) \<lparr>m_root = [0, 1], m_heap_size = 2\<rparr>) = [0]"
    by code_simp
  have once: "map_option runs_again (objs demo_two 0) = Some False" "fired demo_two = []" by code_simp+
  from expire_all_correct[OF demo_two_inv h _ due] obtain r s' where
    "expire_all demo_env demo_two = Inr (r, s')" "tm_inv s'" "fired s' = [0]"
    "active_timers s' = {b \<in> active_timers demo_two. b = 0 \<longrightarrow>
       (\<exists>t. objs demo_two b = Some t \<and> runs_again t)}" using ts once(2) by auto
  then show ?thesis using once(1) by auto
qed

text \<open>
  C18 \<open>TimerManager::expire_all\<close> aborts when the timerfd fires and the earliest timer is due
  exactly now or later: the heap hands out only timers due strictly before the clock reading,
  and the code asserts that the list is not empty.
\<close>

theorem expire_all_aborts:
  assumes "tm_inv s" "m_heap s = Some h"
    "\<forall>a as. m_root h = a # as \<longrightarrow> change_timeval (clock e (ticks s)) \<le> expire_of s a"
  shows "expire_all e s = Inl Assert_Failed"
proof -
  have "linked s {} {} h" using assms(1,2) by (auto simp: tm_inv_def linked_def)
  from expire_all_idle[OF this assms(3)] show ?thesis .
qed

lemma expire_all_aborts_witness:
  "expire_all (demo_env\<lparr>clock := (\<lambda>_. \<lparr>tv_sec = 101, tv_usec = 0\<rparr>)\<rparr>) demo_one = Inl Assert_Failed"
proof -
  let ?e = "demo_env\<lparr>clock := (\<lambda>_. \<lparr>tv_sec = 101, tv_usec = 0\<rparr>)\<rparr>"
  have h: "m_heap demo_one = Some \<lparr>m_root = [0], m_heap_size = 1\<rparr>" by code_simp
  have "change_timeval (clock ?e (ticks demo_one)) \<le> expire_of demo_one 0" by code_simp
  then show ?thesis by (intro expire_all_aborts[OF demo_one_inv h]) simp
qed

end
