(* ===== verification/Sort.thy ===== *)
theory Sort
  imports Heap_Order
begin

text \<open>
  The sorting routines: \<open>dymanicArray/sort.cpp\<close>. An array is the list of all its cells; \<open>n\<close>
  is the number of elements to sort, and the cells from \<open>n\<close> on are the spare room of a
  dynamic array. A routine returns the array afterwards. \<open>cmp\<close> is the comparison callback;
  with \<open>cmp\<close> as "greater" the routines sort into ascending order. Pointers are taken to be
  non-null, and the debugging print is left out. \<open>buildHeap\<close> reads one cell past the
  elements, so \<open>heapSort\<close> can fault; the other routines only touch cells below \<open>n\<close>.
\<close>

type_synonym 'a compare = "'a \<Rightarrow> 'a \<Rightarrow> bool"

subsection \<open>selectSort, bubbleSort\<close>

function select_most_one :: "'a compare \<Rightarrow> nat \<Rightarrow> nat \<Rightarrow> nat \<Rightarrow> 'a list \<Rightarrow> nat" where
  "select_most_one cmp i n mx xs =
     (if i < n then select_most_one cmp (Suc i) n (if cmp (xs ! mx) (xs ! i) then i else mx) xs
      else mx)"
  by pat_completeness auto
termination
  by (relation "measure (\<lambda>(cmp, i, n, mx, xs). n - i)") auto

function select_loop :: "'a compare \<Rightarrow> nat \<Rightarrow> nat \<Rightarrow> 'a list \<Rightarrow> 'a list" where
  "select_loop cmp i n xs =
     (if i < n then select_loop cmp (Suc i) n (swap (select_most_one cmp i n i xs) i xs) else xs)"
  by pat_completeness auto
termination
  by (relation "measure (\<lambda>(cmp, i, n, xs). n - i)") auto

definition select_sort :: "'a compare \<Rightarrow> nat \<Rightarrow> 'a list \<Rightarrow> 'a list" where
  "select_sort cmp n xs = (if n < 2 then xs else select_loop cmp 0 n xs)"

function bubble_pass :: "'a compare \<Rightarrow> nat \<Rightarrow> nat \<Rightarrow> bool \<Rightarrow> 'a list \<Rightarrow> bool \<times> 'a list" where
  "bubble_pass cmp j m flag xs =
     (if j < m then
        if cmp (xs ! j) (xs ! (j + 1)) then bubble_pass cmp (j + 1) m True (swap j (j + 1) xs)
        else bubble_pass cmp (j + 1) m flag xs
      else (flag, xs))"
  by pat_completeness auto
termination
  by (relation "measure (\<lambda>(cmp, j, m, flag, xs). m - j)") auto

function bubble_loop :: "'a compare \<Rightarrow> nat \<Rightarrow> nat \<Rightarrow> bool \<Rightarrow> 'a list \<Rightarrow> 'a list" where
  "bubble_loop cmp i n flag xs =
     (if i < n - 1 \<and> flag
      then bubble_loop cmp (i + 1) n (fst (bubble_pass cmp 0 (n - 1 - i) False xs))
             (snd (bubble_pass cmp 0 (n - 1 - i) False xs))
      else xs)"
  by pat_completeness auto
termination
  by (relation "measure (\<lambda>(cmp, i, n, flag, xs). n - i)") auto

definition bubble_sort :: "'a compare \<Rightarrow> nat \<Rightarrow> 'a list \<Rightarrow> 'a list" where
  "bubble_sort cmp n xs = (if n < 2 then xs else bubble_loop cmp 0 n True xs)"

subsection \<open>insertSort, shellSort\<close>

text \<open>
  The shifting loop both share, with start \<open>k\<close> and distance \<open>d\<close> (\<open>0\<close> and \<open>1\<close> in
  \<open>insertSort\<close>): where the hole ends up, and the array with the hole in it.
\<close>

function shift_loop :: "'a compare \<Rightarrow> nat \<Rightarrow> nat \<Rightarrow> 'a \<Rightarrow> nat \<Rightarrow> 'a list \<Rightarrow> nat \<times> 'a list" where
  "shift_loop cmp k d temp j xs =
     (if 0 < d \<and> k < j \<and> \<not> cmp temp (xs ! (j - d))
      then shift_loop cmp k d temp (j - d) (xs[j := xs ! (j - d)])
      else (j, xs))"
  by pat_completeness auto
termination
  by (relation "measure (\<lambda>(cmp, k, d, temp, j, xs). j)") auto

definition insert_at :: "'a compare \<Rightarrow> nat \<Rightarrow> nat \<Rightarrow> nat \<Rightarrow> 'a list \<Rightarrow> 'a list" where
  "insert_at cmp k d i xs =
     (let temp = xs ! i; (j, ys) = shift_loop cmp k d temp i xs in ys[j := temp])"

function insert_loop :: "'a compare \<Rightarrow> nat \<Rightarrow> nat \<Rightarrow> 'a list \<Rightarrow> 'a list" where
  "insert_loop cmp i n xs =
     (if i < n - 1 then insert_loop cmp (i + 1) n (insert_at cmp 0 1 (i + 1) xs) else xs)"
  by pat_completeness auto
termination
  by (relation "measure (\<lambda>(cmp, i, n, xs). n - i)") auto

definition insert_sort :: "'a compare \<Rightarrow> nat \<Rightarrow> 'a list \<Rightarrow> 'a list" where
  "insert_sort cmp n xs = (if n < 2 then xs else insert_loop cmp 0 n xs)"

function shell_chain :: "'a compare \<Rightarrow> nat \<Rightarrow> nat \<Rightarrow> nat \<Rightarrow> nat \<Rightarrow> 'a list \<Rightarrow> 'a list" where
  "shell_chain cmp k d i n xs =
     (if 0 < d \<and> i < n then shell_chain cmp k d (i + d) n (insert_at cmp k d i xs) else xs)"
  by pat_completeness auto
termination
  by (relation "measure (\<lambda>(cmp, k, d, i, n, xs). n - i)") auto

function shell_pass :: "'a compare \<Rightarrow> nat \<Rightarrow> nat \<Rightarrow> nat \<Rightarrow> 'a list \<Rightarrow> 'a list" where
  "shell_pass cmp k d n xs =
     (if k < d then shell_pass cmp (k + 1) d n (shell_chain cmp k d (k + d) n xs) else xs)"
  by pat_completeness auto
termination
  by (relation "measure (\<lambda>(cmp, k, d, n, xs). d - k)") auto

function shell_gaps :: "'a compare \<Rightarrow> nat \<Rightarrow> nat \<Rightarrow> 'a list \<Rightarrow> 'a list" where
  "shell_gaps cmp d n xs =
     (if 0 < d then shell_gaps cmp (d div 2) n (shell_pass cmp 0 d n xs) else xs)"
  by pat_completeness auto
termination
  by (relation "measure (\<lambda>(cmp, d, n, xs). d)") auto

definition shell_sort :: "'a compare \<Rightarrow> nat \<Rightarrow> 'a list \<Rightarrow> 'a list" where
  "shell_sort cmp n xs = (if n < 2 then xs else shell_gaps cmp (n div 2) n xs)"

subsection \<open>heapSort\<close>

text \<open>The loop inside \<open>buildHeap\<close>: it reads \<open>array[j + 1]\<close> without asking whether there is one.\<close>

function build_sift :: "'a compare \<Rightarrow> nat \<Rightarrow> nat \<Rightarrow> 'a list \<Rightarrow> 'a list run" where
  "build_sift cmp n k xs =
     (if 2 * k + 1 < n then
        and_then (at xs (2 * k + 2)) (\<lambda>y.
          let j = (if cmp y (xs ! (2 * k + 1)) then 2 * k + 2 else 2 * k + 1) in
          if cmp (xs ! j) (xs ! k) then build_sift cmp n j (swap j k xs) else Inr xs)
      else Inr xs)"
  by pat_completeness auto
termination
  by (relation "measure (\<lambda>(cmp, n, k, xs). n - k)") (auto split: if_splits)

fun build_loop :: "'a compare \<Rightarrow> nat \<Rightarrow> nat \<Rightarrow> 'a list \<Rightarrow> 'a list run" where
  "build_loop cmp n 0 xs = Inr xs"
| "build_loop cmp n (Suc i) xs =
     and_then
       (if cmp (xs ! Suc i) (xs ! (i div 2)) then build_sift cmp n (Suc i) (swap (Suc i) (i div 2) xs)
        else Inr xs)
       (build_loop cmp n i)"

definition build_heap :: "'a compare \<Rightarrow> nat \<Rightarrow> 'a list \<Rightarrow> 'a list run" where
  "build_heap cmp n xs = build_loop cmp n (n - 1) xs"

definition pick_child :: "'a compare \<Rightarrow> nat \<Rightarrow> nat \<Rightarrow> 'a list \<Rightarrow> nat" where
  "pick_child cmp n k xs =
     (if n \<le> 2 * k + 2 then 2 * k + 1
      else if cmp (xs ! (2 * k + 1)) (xs ! (2 * k + 2)) then 2 * k + 1 else 2 * k + 2)"

function adjust_sift :: "'a compare \<Rightarrow> nat \<Rightarrow> nat \<Rightarrow> 'a list \<Rightarrow> 'a list" where
  "adjust_sift cmp n k xs =
     (if 2 * k + 1 < n then
        let i = pick_child cmp n k xs in
        if cmp (xs ! i) (xs ! k) then adjust_sift cmp n i (swap i k xs) else xs
      else xs)"
  by pat_completeness auto
termination
  by (relation "measure (\<lambda>(cmp, n, k, xs). n - k)") (auto simp: pick_child_def)

fun heap_loop :: "'a compare \<Rightarrow> nat \<Rightarrow> 'a list \<Rightarrow> 'a list" where
  "heap_loop cmp 0 xs = xs"
| "heap_loop cmp (Suc m) xs = heap_loop cmp m (adjust_sift cmp (Suc m) 0 (swap 0 (Suc m) xs))"

definition heap_sort :: "'a compare \<Rightarrow> nat \<Rightarrow> 'a list \<Rightarrow> 'a list run" where
  "heap_sort cmp n xs =
     (if n < 2 then Inr xs else run_map (heap_loop cmp (n - 1)) (build_heap cmp n xs))"

subsection \<open>quickSort\<close>

fun scan_down :: "'a compare \<Rightarrow> 'a \<Rightarrow> nat \<Rightarrow> nat \<Rightarrow> 'a list \<Rightarrow> nat" where
  "scan_down cmp key l 0 xs = 0"
| "scan_down cmp key l (Suc h) xs =
     (if \<not> cmp key (xs ! Suc h) \<and> l < Suc h then scan_down cmp key l h xs else Suc h)"

function scan_up :: "'a compare \<Rightarrow> 'a \<Rightarrow> nat \<Rightarrow> nat \<Rightarrow> 'a list \<Rightarrow> nat" where
  "scan_up cmp key l h xs = (if \<not> cmp (xs ! l) key \<and> l < h then scan_up cmp key (l + 1) h xs else l)"
  by pat_completeness auto
termination
  by (relation "measure (\<lambda>(cmp, key, l, h, xs). h - l)") auto

declare scan_up.simps [simp del]

lemma scan_down_bounds:
  "l \<le> h \<Longrightarrow> l \<le> scan_down cmp key l h xs \<and> scan_down cmp key l h xs \<le> h"
  by (induction cmp key l h xs rule: scan_down.induct) auto

lemma scan_up_bounds:
  "l \<le> h \<Longrightarrow> l \<le> scan_up cmp key l h xs \<and> scan_up cmp key l h xs \<le> h"
proof (induction cmp key l h xs rule: scan_up.induct)
  case (1 cmp key l h xs)
  then show ?case by (subst (1 2) scan_up.simps) auto
qed

text \<open>\<open>l\<close> and \<open>h\<close> are \<open>keyLowIndex\<close> and \<open>keyHighIndex\<close>, \<open>ki\<close> is \<open>keyIndex\<close>.\<close>

function partition_loop :: "'a compare \<Rightarrow> 'a \<Rightarrow> nat \<Rightarrow> nat \<Rightarrow> nat \<Rightarrow> 'a list \<Rightarrow> nat \<times> 'a list" where
  "partition_loop cmp key l h ki xs =
     (if l < h then
        let h1 = scan_down cmp key l h xs; xs1 = swap h1 l xs; l1 = l + 1 in
        if h1 \<le> l1 then (h1, xs1)
        else let l2 = scan_up cmp key l1 h1 xs1; xs2 = swap h1 l2 xs1
             in partition_loop cmp key l2 (h1 - 1) l2 xs2
      else (ki, xs))"
  by pat_completeness auto
termination
proof (relation "measure (\<lambda>(cmp, key, l, h, ki, xs). h - l)", goal_cases)
  case (2 cmp key l h ki xs h1 xs1 l1 l2 xs2)
  then show ?case
    using scan_down_bounds[of l h cmp key xs] scan_up_bounds[of l1 h1 cmp key xs1] by auto
qed simp

declare partition_loop.simps [simp del]

lemma partition_loop_bounds:
  assumes "l \<le> ki" "ki \<le> h \<or> (ki = l \<and> h + 1 = l)" "partition_loop cmp key l h ki xs = (k, ys)"
  shows "l \<le> k \<and> (k \<le> h \<or> k = ki)"
  using assms
proof (induction cmp key l h ki xs rule: partition_loop.induct)
  case (1 cmp key l h ki xs)
  let ?h1 = "scan_down cmp key l h xs" let ?xs1 = "swap ?h1 l xs"
  let ?l2 = "scan_up cmp key (l + 1) ?h1 ?xs1"
  show ?case
  proof (cases "l < h")
    case False
    then show ?thesis using "1.prems" by (simp add: partition_loop.simps)
  next
    case True
    note b = scan_down_bounds[of l h cmp key xs]
    show ?thesis
    proof (cases "?h1 \<le> l + 1")
      case True
      then show ?thesis using "1.prems"(3) \<open>l < h\<close> b
        by (subst (asm) partition_loop.simps) (auto simp: Let_def)
    next
      case False
      note u = scan_up_bounds[of "l + 1" ?h1 cmp key ?xs1]
      have "partition_loop cmp key ?l2 (?h1 - 1) ?l2 (swap ?h1 ?l2 ?xs1) = (k, ys)"
        using "1.prems"(3) \<open>l < h\<close> False
        by (subst (asm) partition_loop.simps) (simp add: Let_def)
      moreover have "?l2 \<le> ?h1 - 1 \<or> ?l2 = ?l2 \<and> ?h1 - 1 + 1 = ?l2" using u False by linarith
      ultimately have "?l2 \<le> k \<and> (k \<le> ?h1 - 1 \<or> k = ?l2)"
        using "1.IH"[OF True refl refl refl False refl refl] by simp
      then show ?thesis using u b False True by auto
    qed
  qed
qed

function quick_rec :: "'a compare \<Rightarrow> nat \<Rightarrow> nat \<Rightarrow> 'a list \<Rightarrow> 'a list" where
  "quick_rec cmp low high xs =
     (if high \<le> low then xs
      else let (ki, ys) = partition_loop cmp (xs ! low) low high low xs;
               zs = (if low + 1 < ki then quick_rec cmp low (ki - 1) ys else ys)
           in if ki + 1 < high then quick_rec cmp (ki + 1) high zs else zs)"
  by pat_completeness auto
termination
proof (relation "measure (\<lambda>(cmp, low, high, xs). high - low)", goal_cases)
  case (2 cmp low high xs p ki ys)
  then show ?case using partition_loop_bounds[of low low high cmp "xs ! low" xs ki ys] by auto
next
  case (3 cmp low high xs p ki ys zs)
  then show ?case using partition_loop_bounds[of low low high cmp "xs ! low" xs ki ys] by auto
qed simp

definition quick_sort :: "'a compare \<Rightarrow> nat \<Rightarrow> 'a list \<Rightarrow> 'a list" where
  "quick_sort cmp n xs = (if n < 2 then xs else quick_rec cmp 0 (n - 1) xs)"

declare select_most_one.simps [simp del] select_loop.simps [simp del] bubble_pass.simps [simp del]
  bubble_loop.simps [simp del] shift_loop.simps [simp del] insert_loop.simps [simp del]
  shell_chain.simps [simp del] shell_pass.simps [simp del] shell_gaps.simps [simp del]
  build_sift.simps [simp del] adjust_sift.simps [simp del] quick_rec.simps [simp del]

end
