(* ===== verification/Sort_Correct.thy ===== *)
theory Sort_Correct
  imports Sort
begin

text \<open>
  What the sorting routines promise. The contract is the locale \<open>sorter\<close>: the cells from \<open>n\<close>
  on are untouched, the others are rearranged, and no earlier element compares as coming
  after a later one. Five routines are interpretations of it; \<open>heapSort\<close> meets it only when
  the cell past the elements does not interfere.
\<close>

subsection \<open>Order and rearrangement of a segment\<close>

definition in_order :: "'a compare \<Rightarrow> nat \<Rightarrow> nat \<Rightarrow> 'a list \<Rightarrow> bool" where
  "in_order cmp l h xs \<longleftrightarrow> (\<forall>i j. l \<le> i \<and> i < j \<and> j < h \<longrightarrow> \<not> cmp (xs ! i) (xs ! j))"

lemma in_orderD: "in_order cmp l h xs \<Longrightarrow> l \<le> i \<Longrightarrow> i < j \<Longrightarrow> j < h \<Longrightarrow> \<not> cmp (xs ! i) (xs ! j)"
  by (simp add: in_order_def)

lemma in_order_short [simp]: "h \<le> l + 1 \<Longrightarrow> in_order cmp l h xs"
  by (auto simp: in_order_def)

lemma in_order_mono: "in_order cmp l h xs \<Longrightarrow> l \<le> l' \<Longrightarrow> h' \<le> h \<Longrightarrow> in_order cmp l' h' xs"
  unfolding in_order_def by (metis le_trans less_le_trans)

lemma in_order_cong:
  "in_order cmp l h xs \<Longrightarrow> (\<And>i. l \<le> i \<Longrightarrow> i < h \<Longrightarrow> ys ! i = xs ! i) \<Longrightarrow> in_order cmp l h ys"
  unfolding in_order_def by (metis le_trans less_imp_le less_trans)

definition permutes :: "nat \<Rightarrow> nat \<Rightarrow> 'a list \<Rightarrow> 'a list \<Rightarrow> bool" where
  "permutes l h xs ys \<longleftrightarrow> same_outside l h xs ys \<and> mset ys = mset xs"

lemma permutes_refl [simp, intro]: "permutes l h xs xs"
  by (simp add: permutes_def)

lemma permutes_trans [trans]: "permutes l h xs ys \<Longrightarrow> permutes l h ys zs \<Longrightarrow> permutes l h xs zs"
  unfolding permutes_def using same_outside_trans by auto

lemma permutes_mono: "permutes l h xs ys \<Longrightarrow> l' \<le> l \<Longrightarrow> h \<le> h' \<Longrightarrow> permutes l' h' xs ys"
  unfolding permutes_def using same_outside_mono by blast

lemma permutes_swap:
  "l \<le> i \<Longrightarrow> i < h \<Longrightarrow> l \<le> j \<Longrightarrow> j < h \<Longrightarrow> h \<le> length xs \<Longrightarrow> permutes l h xs (swap i j xs)"
  unfolding permutes_def using same_outside_swap[of l i h j xs] by simp

lemma permutes_length [simp]: "permutes l h xs ys \<Longrightarrow> length ys = length xs"
  unfolding permutes_def using same_outside_length by blast

lemma permutes_nth: "permutes l h xs ys \<Longrightarrow> i < l \<or> h \<le> i \<Longrightarrow> i < length xs \<Longrightarrow> ys ! i = xs ! i"
  unfolding permutes_def using same_outside_nth by blast

lemma permutes_mset_take: "permutes 0 n xs ys \<Longrightarrow> mset (take n ys) = mset (take n xs)"
  unfolding permutes_def by (metis mset_take_same same_outside_drop)

lemma mset_segment:
  assumes "permutes l h xs ys" "l \<le> h" "h \<le> length xs"
  shows "mset (take (h - l) (drop l ys)) = mset (take (h - l) (drop l xs))"
proof -
  have split: "zs = take l zs @ take (h - l) (drop l zs) @ drop h zs" if "length zs = length xs" for zs :: "'a list"
    using assms(2,3) that by (metis append_take_drop_id drop_drop le_add_diff_inverse2)
  have len: "length ys = length xs" using assms(1) by simp
  have t: "take l ys = take l xs" "drop h ys = drop h xs"
    using assms(1) same_outside_take same_outside_drop by (auto simp: permutes_def)
  have "mset (take l ys @ take (h - l) (drop l ys) @ drop h ys)
      = mset (take l xs @ take (h - l) (drop l xs) @ drop h xs)"
    using split[OF len] split[OF refl] assms(1) by (simp add: permutes_def)
  then show ?thesis by (simp add: t)
qed

text \<open>Whatever stands in the segment afterwards stood in it before.\<close>

lemma permutes_origin:
  assumes "permutes l h xs ys" "l \<le> i" "i < h" "h \<le> length xs"
  shows "\<exists>j. l \<le> j \<and> j < h \<and> ys ! i = xs ! j"
proof -
  have "ys ! i \<in> set (take (h - l) (drop l ys))"
    using assms by (auto simp: in_set_conv_nth intro!: exI[of _ "i - l"])
  then have "ys ! i \<in> set (take (h - l) (drop l xs))"
    using mset_segment[OF assms(1)] assms by (metis less_imp_le le_less_trans set_mset_mset)
  then obtain j where "j < h - l" "ys ! i = xs ! (l + j)"
    using assms(4) by (auto simp: in_set_conv_nth)
  then show ?thesis by (intro exI[of _ "l + j"]) auto
qed

text \<open>The contract.\<close>

locale sorter =
  fixes sort :: "'a compare \<Rightarrow> nat \<Rightarrow> 'a list \<Rightarrow> 'a list"
  assumes sort_permutes: "weak_order cmp \<Longrightarrow> n \<le> length xs \<Longrightarrow> permutes 0 n xs (sort cmp n xs)"
    and sort_in_order: "weak_order cmp \<Longrightarrow> n \<le> length xs \<Longrightarrow> in_order cmp 0 n (sort cmp n xs)"
begin

lemma sort_length: "weak_order cmp \<Longrightarrow> n \<le> length xs \<Longrightarrow> length (sort cmp n xs) = length xs"
  using sort_permutes permutes_length by blast

lemma sort_drop: "weak_order cmp \<Longrightarrow> n \<le> length xs \<Longrightarrow> drop n (sort cmp n xs) = drop n xs"
  using sort_permutes[of cmp n xs] by (auto simp: permutes_def dest: same_outside_drop)

lemma sort_mset: "weak_order cmp \<Longrightarrow> n \<le> length xs \<Longrightarrow> mset (take n (sort cmp n xs)) = mset (take n xs)"
  using sort_permutes permutes_mset_take by blast

lemma sort_wrt:
  assumes "weak_order cmp" "n \<le> length xs"
  shows "sorted_wrt (\<lambda>a b. \<not> cmp a b) (take n (sort cmp n xs))"
  unfolding sorted_wrt_iff_nth_less
  using sort_in_order[OF assms] assms by (auto simp: in_order_def sort_length)

end

text \<open>On a linear order with "greater" as the callback, the contract pins the result down.\<close>

lemma sorted_greater: "sorted_wrt (\<lambda>a b. \<not> (b::'a::linorder) < a) xs = sorted xs"
  by (simp add: not_less)

lemma weak_order_greater: "weak_order (\<lambda>a b. (b::'a::linorder) < a)"
  by unfold_locales auto

lemma sorter_sort:
  fixes xs :: "'a::linorder list"
  assumes "sorter f" "n \<le> length xs"
  shows "f (\<lambda>a b. b < a) n xs = sort (take n xs) @ drop n xs"
proof -
  have "mset (take n (f (\<lambda>a b. b < a) n xs)) = mset (take n xs)"
    "sorted (take n (f (\<lambda>a b. b < a) n xs))" "drop n (f (\<lambda>a b. b < a) n xs) = drop n xs"
    using sorter.sort_mset[OF assms(1) weak_order_greater assms(2)]
      sorter.sort_drop[OF assms(1) weak_order_greater assms(2)]
      sorter.sort_wrt[OF assms(1) weak_order_greater assms(2)] by (auto simp: not_less)
  then show ?thesis by (metis append_take_drop_id properties_for_sort)
qed

subsection \<open>selectSort\<close>

lemma select_most_one_range:
  "mx < n \<Longrightarrow> select_most_one cmp i n mx xs < n \<and>
     (select_most_one cmp i n mx xs = mx \<or> i \<le> select_most_one cmp i n mx xs)"
proof (induction cmp i n mx xs rule: select_most_one.induct)
  case (1 cmp i n mx xs)
  then show ?case
    by (cases "i < n"; subst (1 2 3) select_most_one.simps) (auto split: if_splits)
qed

context weak_order
begin

lemma select_most_one_best:
  assumes "mx < n" "i \<le> j" "j < n"
  shows "\<not> before (xs ! select_most_one before i n mx xs) (xs ! j)"
    and "\<not> before (xs ! select_most_one before i n mx xs) (xs ! mx)"
proof -
  have "\<not> before (xs ! select_most_one before i n mx xs) (xs ! mx) \<and>
    (\<forall>j. i \<le> j \<and> j < n \<longrightarrow> \<not> before (xs ! select_most_one before i n mx xs) (xs ! j))"
    using assms(1)
  proof (induction "n - i" arbitrary: i mx)
    case 0
    then have "select_most_one before i n mx xs = mx" by (subst select_most_one.simps) simp
    then show ?case using 0 irrefl by auto
  next
    case (Suc k)
    let ?m = "if before (xs ! mx) (xs ! i) then i else mx"
    let ?r = "select_most_one before (Suc i) n ?m xs"
    have "i < n" using Suc.hyps(2) by simp
    then have eq: "select_most_one before i n mx xs = ?r"
      by (subst select_most_one.simps) simp
    have IH: "\<not> before (xs ! ?r) (xs ! ?m)"
      "\<And>j. Suc i \<le> j \<Longrightarrow> j < n \<Longrightarrow> \<not> before (xs ! ?r) (xs ! j)"
    proof -
      have "k = n - Suc i" "?m < n" using Suc.hyps(2) Suc.prems \<open>i < n\<close> by auto
      from Suc.hyps(1)[OF this] show "\<not> before (xs ! ?r) (xs ! ?m)"
        "\<And>j. Suc i \<le> j \<Longrightarrow> j < n \<Longrightarrow> \<not> before (xs ! ?r) (xs ! j)" by auto
    qed
    have "\<not> before (xs ! ?m) (xs ! mx)" "\<not> before (xs ! ?m) (xs ! i)"
      using irrefl asym by auto
    then have "\<not> before (xs ! ?r) (xs ! mx)" "\<not> before (xs ! ?r) (xs ! i)"
      using IH(1) neg_trans by blast+
    then show ?case unfolding eq using IH(2) by (metis Suc_leI le_neq_implies_less)
  qed
  then show "\<not> before (xs ! select_most_one before i n mx xs) (xs ! j)"
    and "\<not> before (xs ! select_most_one before i n mx xs) (xs ! mx)" using assms by auto
qed

end

lemma select_loop_permutes: "n \<le> length xs \<Longrightarrow> permutes i n xs (select_loop cmp i n xs)"
proof (induction cmp i n xs rule: select_loop.induct)
  case (1 cmp i n xs)
  show ?case
  proof (cases "i < n")
    case True
    let ?m = "select_most_one cmp i n i xs"
    have m: "i \<le> ?m" "?m < n" using select_most_one_range[OF True, of cmp i xs] by auto
    have "permutes i n xs (swap ?m i xs)" using m True "1.prems" by (intro permutes_swap) auto
    also have "permutes i n (swap ?m i xs) (select_loop cmp (Suc i) n (swap ?m i xs))"
      using "1.IH"[OF True] "1.prems" by (simp add: permutes_mono[of "Suc i" n _ _ i n])
    finally show ?thesis using True by (subst select_loop.simps) simp
  qed (subst select_loop.simps, simp)
qed

context weak_order
begin

lemma select_loop_in_order:
  assumes "n \<le> length xs"
  shows "in_order before i n (select_loop before i n xs)"
  using assms
proof (induction "n - i" arbitrary: i xs)
  case 0
  then show ?case by (auto simp: in_order_def)
next
  case (Suc k)
  then have i: "i < n" by simp
  let ?m = "select_most_one before i n i xs" let ?ys = "swap ?m i xs"
  let ?zs = "select_loop before (Suc i) n ?ys"
  have m: "i \<le> ?m" "?m < n" using select_most_one_range[OF i, of before i xs] by auto
  have z: "in_order before (Suc i) n ?zs" using Suc.hyps Suc.prems by simp
  have p: "permutes (Suc i) n ?ys ?zs" using Suc.prems by (intro select_loop_permutes) simp
  have zi: "?zs ! i = xs ! ?m" using permutes_nth[OF p, of i] m i Suc.prems by simp
  have "\<not> before (?zs ! i) (?zs ! j)" if j: "i < j" "j < n" for j
  proof -
    obtain j' where j': "Suc i \<le> j'" "j' < n" "?zs ! j = ?ys ! j'"
      using permutes_origin[OF p, of j] j Suc.prems by auto
    have "?ys ! j' = xs ! (if j' = ?m then i else j')"
      using j' m i Suc.prems by (simp add: swap_nth)
    then show ?thesis
      using j' zi i select_most_one_best(1)[OF i, of i "if j' = ?m then i else j'" xs] by simp
  qed
  then have "in_order before i n ?zs"
    using z unfolding in_order_def by (metis Suc_leI le_neq_implies_less)
  then show ?case using i by (subst select_loop.simps) simp
qed

end

lemma select_sort_sorter: "sorter select_sort"
proof (unfold_locales, goal_cases)
  case (1 cmp n xs)
  then show ?case by (simp add: select_sort_def select_loop_permutes)
next
  case (2 cmp n xs)
  then show ?case by (simp add: select_sort_def weak_order.select_loop_in_order)
qed

interpretation select: sorter select_sort
  by (rule select_sort_sorter)

subsection \<open>bubbleSort\<close>

lemma bubble_pass_permutes:
  "m < length xs \<Longrightarrow> permutes 0 (Suc m) xs (snd (bubble_pass cmp j m flag xs))"
proof (induction cmp j m flag xs rule: bubble_pass.induct)
  case (1 cmp j m flag xs)
  show ?case
  proof (cases "j < m \<and> cmp (xs ! j) (xs ! (j + 1))")
    case True
    have "permutes 0 (Suc m) xs (swap j (j + 1) xs)" using True "1.prems" by (intro permutes_swap) auto
    also have "permutes 0 (Suc m) (swap j (j + 1) xs) (snd (bubble_pass cmp (j + 1) m True (swap j (j + 1) xs)))"
      using "1.IH"(1) True "1.prems" by simp
    finally show ?thesis using True by (subst bubble_pass.simps) simp
  next
    case False
    then show ?thesis using "1.IH"(2) "1.prems" by (subst bubble_pass.simps) auto
  qed
qed

lemma bubble_pass_flag:
  "fst (bubble_pass cmp j m flag xs) = False \<Longrightarrow>
     \<not> flag \<and> snd (bubble_pass cmp j m flag xs) = xs \<and>
     (\<forall>i. j \<le> i \<and> i < m \<longrightarrow> \<not> cmp (xs ! i) (xs ! Suc i))"
proof (induction cmp j m flag xs rule: bubble_pass.induct)
  case (1 cmp j m flag xs)
  consider "j < m" "cmp (xs ! j) (xs ! (j + 1))" | "j < m" "\<not> cmp (xs ! j) (xs ! (j + 1))" | "m \<le> j"
    by linarith
  then show ?case
  proof cases
    case 1
    have "bubble_pass cmp j m flag xs = bubble_pass cmp (j + 1) m True (swap j (j + 1) xs)"
      using 1 by (subst bubble_pass.simps) simp
    with "1.IH"(1)[OF 1] "1.prems" show ?thesis by simp
  next
    case 2
    have eq: "bubble_pass cmp j m flag xs = bubble_pass cmp (j + 1) m flag xs"
      using 2 by (subst bubble_pass.simps) simp
    have IH: "\<not> flag" "snd (bubble_pass cmp (j + 1) m flag xs) = xs"
      "\<And>i. j + 1 \<le> i \<Longrightarrow> i < m \<Longrightarrow> \<not> cmp (xs ! i) (xs ! Suc i)"
      using "1.IH"(2)[OF 2] "1.prems" eq by auto
    have "\<not> cmp (xs ! i) (xs ! Suc i)" if "j \<le> i" "i < m" for i
      using IH(3)[of i] 2(2) that by (cases "i = j") auto
    then show ?thesis using IH eq by simp
  next
    case 3
    then have "bubble_pass cmp j m flag xs = (flag, xs)" by (subst bubble_pass.simps) simp
    then show ?thesis using 3 "1.prems" by auto
  qed
qed

context weak_order
begin

lemma chain_in_order:
  assumes "\<And>i. i < m \<Longrightarrow> \<not> before (xs ! i) (xs ! Suc i)"
  shows "in_order before 0 (Suc m) xs"
proof -
  have "\<not> before (xs ! i) (xs ! (i + Suc k))" if "i + Suc k \<le> m" for i k
    using that
  proof (induction k)
    case (Suc k)
    then have "\<not> before (xs ! i) (xs ! (i + Suc k))" "\<not> before (xs ! (i + Suc k)) (xs ! Suc (i + Suc k))"
      using assms by auto
    then show ?case using neg_trans by auto
  qed (use assms in auto)
  then show ?thesis unfolding in_order_def by (metis less_Suc_eq_le less_iff_Suc_add add_Suc_right)
qed

lemma bubble_pass_top:
  assumes "m < length xs" "j \<le> m" "\<And>i. i < j \<Longrightarrow> \<not> before (xs ! i) (xs ! j)"
  shows "\<forall>i < m. \<not> before (snd (bubble_pass before j m flag xs) ! i) (snd (bubble_pass before j m flag xs) ! m)"
  using assms
proof (induction "m - j" arbitrary: j xs flag)
  case 0
  then show ?case by (subst (1 2) bubble_pass.simps) auto
next
  case (Suc k)
  then have j: "j < m" by simp
  show ?case
  proof (cases "before (xs ! j) (xs ! (j + 1))")
    case True
    let ?ys = "swap j (j + 1) xs"
    have "\<not> before (?ys ! i) (?ys ! (j + 1))" if "i < j + 1" for i
      using that j Suc.prems asym[OF True] by (auto simp: swap_nth less_Suc_eq)
    then have "\<forall>i < m. \<not> before (snd (bubble_pass before (j + 1) m True ?ys) ! i)
        (snd (bubble_pass before (j + 1) m True ?ys) ! m)"
      using Suc.hyps(1)[of "j + 1" ?ys True] Suc.hyps(2) Suc.prems j by simp
    then show ?thesis using j True by (subst (1 2) bubble_pass.simps) simp
  next
    case False
    have "\<not> before (xs ! i) (xs ! (j + 1))" if "i < j + 1" for i
      using that False Suc.prems(3) neg_trans less_Suc_eq by (metis Suc_eq_plus1)
    then have "\<forall>i < m. \<not> before (snd (bubble_pass before (j + 1) m flag xs) ! i)
        (snd (bubble_pass before (j + 1) m flag xs) ! m)"
      using Suc.hyps(1)[of "j + 1" xs flag] Suc.hyps(2) Suc.prems j by simp
    then show ?thesis using j False by (subst (1 2) bubble_pass.simps) simp
  qed
qed

end

lemma bubble_loop_permutes: "n \<le> length xs \<Longrightarrow> permutes 0 n xs (bubble_loop cmp i n flag xs)"
proof (induction cmp i n flag xs rule: bubble_loop.induct)
  case (1 cmp i n flag xs)
  show ?case
  proof (cases "i < n - 1 \<and> flag")
    case True
    let ?ys = "snd (bubble_pass cmp 0 (n - 1 - i) False xs)"
    have p: "permutes 0 (Suc (n - 1 - i)) xs ?ys"
      using True "1.prems" by (intro bubble_pass_permutes) linarith
    then have "permutes 0 n xs ?ys" using True by (intro permutes_mono[OF p]) auto
    also have "permutes 0 n ?ys (bubble_loop cmp (i + 1) n (fst (bubble_pass cmp 0 (n - 1 - i) False xs)) ?ys)"
      using "1.IH"[OF True] "1.prems" permutes_length[OF p] by simp
    finally show ?thesis using True by (subst bubble_loop.simps) simp
  qed (subst bubble_loop.simps, auto)
qed

context weak_order
begin

text \<open>The last \<open>i\<close> cells are final; without a swap in the last pass, all are.\<close>

lemma bubble_loop_in_order:
  assumes "n \<le> length xs" "\<And>a b. a < b \<Longrightarrow> n - i \<le> b \<Longrightarrow> b < n \<Longrightarrow> \<not> before (xs ! a) (xs ! b)"
    and "\<not> flag \<Longrightarrow> in_order before 0 n xs"
  shows "in_order before 0 n (bubble_loop before i n flag xs)"
  using assms
proof (induction "n - i" arbitrary: i flag xs rule: less_induct)
  case less
  show ?case
  proof (cases "i < n - 1 \<and> flag")
    case True
    let ?m = "n - 1 - i" let ?p = "bubble_pass before 0 ?m False xs" let ?ys = "snd ?p"
    have m: "?m < length xs" "Suc ?m = n - i" using True less.prems(1) by linarith+
    have p: "permutes 0 (n - i) xs ?ys" using bubble_pass_permutes[OF m(1)] m(2) by simp
    have len: "length ?ys = length xs" using p by simp
    have tail: "\<not> before (?ys ! a) (?ys ! b)" if "a < b" "n - (i + 1) \<le> b" "b < n" for a b
    proof (cases "b = ?m")
      case True
      then show ?thesis using bubble_pass_top[of ?m xs 0 False] m(1) that by auto
    next
      case False
      then have b: "n - i \<le> b" using that m by linarith
      then have yb: "?ys ! b = xs ! b" using permutes_nth[OF p, of b] that less.prems(1) by simp
      have al: "a < length xs" and ab: "a < b" using that less.prems(1) by linarith+
      obtain a' where "a' < b" "?ys ! a = xs ! a'"
      proof (cases "a < n - i")
        case True
        then obtain j where "j < n - i" "?ys ! a = xs ! j"
          using permutes_origin[OF p, of a] less.prems(1) by (auto dest: le_trans[OF diff_le_self])
        then show ?thesis using b by (intro that[of j]) auto
      next
        case False
        then have "?ys ! a = xs ! a" using permutes_nth[OF p, of a] al by simp
        then show ?thesis using ab by (intro that[of a]) auto
      qed
      then show ?thesis using less.prems(2) b that(3) yb by simp
    qed
    have "in_order before 0 n ?ys" if "\<not> fst ?p"
    proof -
      have "in_order before 0 (Suc ?m) ?ys"
        using bubble_pass_flag[of before 0 ?m False xs] that by (intro chain_in_order) auto
      then have "\<not> before (?ys ! a) (?ys ! b)" if "a < b" "b < n" for a b
        using tail[of a b] that in_orderD[of before 0 "Suc ?m" ?ys a b] by (cases "b < Suc ?m") auto
      then show ?thesis by (simp add: in_order_def)
    qed
    then have "in_order before 0 n (bubble_loop before (i + 1) n (fst ?p) ?ys)"
      using True less.prems(1) len tail by (intro less.hyps) auto
    then show ?thesis using True by (subst bubble_loop.simps) simp
  next
    case False
    then have "bubble_loop before i n flag xs = xs" by (subst bubble_loop.simps) auto
    moreover have "in_order before 0 n xs"
    proof (cases flag)
      case True
      then have "n - i \<le> 1" using False by linarith
      then show ?thesis using less.prems(2) by (auto simp: in_order_def)
    qed (use less.prems(3) in simp)
    ultimately show ?thesis by simp
  qed
qed

end

lemma bubble_sort_sorter: "sorter bubble_sort"
proof (unfold_locales, goal_cases)
  case (1 cmp n xs)
  then show ?case by (simp add: bubble_sort_def bubble_loop_permutes)
next
  case (2 cmp n xs)
  have "in_order cmp 0 n (bubble_loop cmp 0 n True xs)"
    by (rule weak_order.bubble_loop_in_order[OF 2]) auto
  then show ?case by (simp add: bubble_sort_def)
qed

interpretation bubble: sorter bubble_sort
  by (rule bubble_sort_sorter)

subsection \<open>insertSort, shellSort\<close>

text \<open>The shifting loop with the saved element put into the hole: a chain of swaps.\<close>

function sink :: "'a compare \<Rightarrow> nat \<Rightarrow> nat \<Rightarrow> nat \<Rightarrow> 'a list \<Rightarrow> 'a list" where
  "sink cmp k d j zs =
     (if 0 < d \<and> k < j \<and> \<not> cmp (zs ! j) (zs ! (j - d)) then sink cmp k d (j - d) (swap (j - d) j zs)
      else zs)"
  by pat_completeness auto
termination
  by (relation "measure (\<lambda>(cmp, k, d, j, zs). j)") auto

declare sink.simps [simp del]

lemma shift_loop_sink:
  assumes "j < length xs" "shift_loop cmp k d temp j xs = (j', ys)"
  shows "ys[j' := temp] = sink cmp k d j (xs[j := temp])"
  using assms
proof (induction cmp k d temp j xs arbitrary: j' ys rule: shift_loop.induct)
  case (1 cmp k d temp j xs)
  let ?zs = "xs[j := temp]"
  show ?case
  proof (cases "0 < d \<and> k < j \<and> \<not> cmp temp (xs ! (j - d))")
    case True
    then have ne: "j - d \<noteq> j" by linarith
    have "shift_loop cmp k d temp (j - d) (xs[j := xs ! (j - d)]) = (j', ys)"
      using "1.prems"(2) True by (subst (asm) shift_loop.simps) simp
    then have "ys[j' := temp] = sink cmp k d (j - d) (xs[j := xs ! (j - d), j - d := temp])"
      using "1.IH"[OF True] "1.prems"(1) by simp
    also have "xs[j := xs ! (j - d), j - d := temp] = swap (j - d) j ?zs"
      using ne "1.prems"(1) by (intro nth_equalityI) (auto simp: swap_def nth_list_update)
    finally show ?thesis
      using True ne "1.prems"(1) by (subst sink.simps) (simp only: nth_list_update_eq nth_list_update_neq simp_thms if_True)
  next
    case False
    then have "j' = j" "ys = xs"
      using "1.prems"(2) by (auto simp: shift_loop.simps split: if_splits)
    moreover have "sink cmp k d j ?zs = ?zs"
    proof (cases "0 < d \<and> k < j")
      case True
      then have "j - d \<noteq> j" by linarith
      then show ?thesis using False "1.prems"(1) by (subst sink.simps) auto
    next
      case False
      then show ?thesis by (subst sink.simps) auto
    qed
    ultimately show ?thesis by simp
  qed
qed

lemma insert_at_sink: "i < length xs \<Longrightarrow> insert_at cmp k d i xs = sink cmp k d i xs"
  using shift_loop_sink[of i xs cmp k d "xs ! i"] by (auto simp: insert_at_def Let_def split: prod.split)

lemma sink_permutes: "j < length zs \<Longrightarrow> permutes 0 (Suc j) zs (sink cmp k d j zs)"
proof (induction cmp k d j zs rule: sink.induct)
  case (1 cmp k d j zs)
  show ?case
  proof (cases "0 < d \<and> k < j \<and> \<not> cmp (zs ! j) (zs ! (j - d))")
    case True
    have "permutes 0 (Suc j) zs (swap (j - d) j zs)" using "1.prems" by (intro permutes_swap) auto
    also have "permutes 0 (Suc j) (swap (j - d) j zs) (sink cmp k d (j - d) (swap (j - d) j zs))"
      by (rule permutes_mono[OF "1.IH"[OF True]]) (use "1.prems" in simp_all)
    finally show ?thesis using True by (subst sink.simps) simp
  qed (subst sink.simps, auto)
qed

lemma insert_at_permutes: "i < n \<Longrightarrow> n \<le> length xs \<Longrightarrow> permutes 0 n xs (insert_at cmp k d i xs)"
  using sink_permutes[of i xs cmp k d] permutes_mono[of 0 "Suc i" xs _ 0 n] by (auto simp: insert_at_sink)

context weak_order
begin

lemma sink_in_order:
  assumes "j \<le> i" "i < length zs"
    and "\<And>a b. a < b \<Longrightarrow> b \<le> i \<Longrightarrow> b \<noteq> j \<Longrightarrow> \<not> before (zs ! a) (zs ! b)"
  shows "in_order before 0 (Suc i) (sink before 0 1 j zs)"
  using assms
proof (induction j arbitrary: zs)
  case 0
  then have "in_order before 0 (Suc i) zs" by (auto simp: in_order_def)
  then show ?case by (subst sink.simps) simp
next
  case (Suc j)
  show ?case
  proof (cases "before (zs ! Suc j) (zs ! j)")
    case True
    have "\<not> before (zs ! a) (zs ! Suc j)" if "a < Suc j" for a
    proof (cases "a = j")
      case False
      then have "\<not> before (zs ! a) (zs ! j)" using Suc.prems that by auto
      then show ?thesis using asym[OF True] neg_trans by blast
    qed (use asym[OF True] in simp)
    then have "\<not> before (zs ! a) (zs ! b)" if "a < b" "b < Suc i" for a b
      using that Suc.prems(3)[of a b] by (cases "b = Suc j") auto
    then have "in_order before 0 (Suc i) zs" by (simp add: in_order_def)
    then show ?thesis using True by (subst sink.simps) simp
  next
    case False
    let ?ys = "swap j (Suc j) zs"
    have "\<not> before (?ys ! a) (?ys ! b)" if "a < b" "b \<le> i" "b \<noteq> j" for a b
      using that Suc.prems False by (auto simp: swap_nth)
    then have "in_order before 0 (Suc i) (sink before 0 1 j ?ys)"
      using Suc.IH[of ?ys] Suc.prems by simp
    then show ?thesis using False by (subst sink.simps) simp
  qed
qed

lemma insert_at_in_order:
  assumes "i < length xs" "in_order before 0 i xs"
  shows "in_order before 0 (Suc i) (insert_at before 0 1 i xs)"
  unfolding insert_at_sink[OF assms(1)]
  using assms by (intro sink_in_order) (auto simp: in_order_def)

lemma insert_loop_in_order:
  assumes "n \<le> length xs" "in_order before 0 (Suc i) xs"
  shows "in_order before 0 n (insert_loop before i n xs)"
  using assms
proof (induction "n - i" arbitrary: i xs)
  case 0
  then have "in_order before 0 n xs" by (intro in_order_mono[OF 0(3)]) auto
  moreover have "\<not> i < n - 1" using 0(1) by linarith
  then have "insert_loop before i n xs = xs" by (subst insert_loop.simps) (simp only: if_False)
  ultimately show ?case by simp
next
  case (Suc m)
  show ?case
  proof (cases "i < n - 1")
    case True
    let ?ys = "insert_at before 0 1 (Suc i) xs"
    have "in_order before 0 (Suc (Suc i)) ?ys"
      using True Suc.prems by (intro insert_at_in_order) auto
    moreover have "length ?ys = length xs"
      using True Suc.prems by (intro permutes_length[OF insert_at_permutes[of _ n]]) auto
    ultimately have "in_order before 0 n (insert_loop before (Suc i) n ?ys)"
      using Suc.hyps(1)[of "Suc i" ?ys] Suc.hyps(2) Suc.prems by simp
    then show ?thesis using True by (subst insert_loop.simps) simp
  next
    case False
    then have "in_order before 0 n xs" by (intro in_order_mono[OF Suc.prems(2)]) auto
    moreover have "insert_loop before i n xs = xs" using False by (subst insert_loop.simps) simp
    ultimately show ?thesis by simp
  qed
qed

lemma shell_chain_in_order:
  assumes "n \<le> length xs" "in_order before 0 i xs" "i \<le> n"
  shows "in_order before 0 n (shell_chain before 0 1 i n xs)"
  using assms
proof (induction "n - i" arbitrary: i xs)
  case 0
  then show ?case by (subst shell_chain.simps) simp
next
  case (Suc m)
  then have i: "i < n" by simp
  let ?ys = "insert_at before 0 1 i xs"
  have "in_order before 0 (Suc i) ?ys" using i Suc.prems by (intro insert_at_in_order) auto
  moreover have "length ?ys = length xs"
    by (rule permutes_length[OF insert_at_permutes[OF i Suc.prems(1)]])
  ultimately have "in_order before 0 n (shell_chain before 0 1 (Suc i) n ?ys)"
    using Suc.hyps(1)[of "Suc i" ?ys] Suc.hyps(2) Suc.prems i by simp
  then show ?case using i by (subst shell_chain.simps) simp
qed

end

lemma insert_loop_permutes: "n \<le> length xs \<Longrightarrow> permutes 0 n xs (insert_loop cmp i n xs)"
proof (induction cmp i n xs rule: insert_loop.induct)
  case (1 cmp i n xs)
  show ?case
  proof (cases "i < n - 1")
    case True
    have p: "permutes 0 n xs (insert_at cmp 0 1 (i + 1) xs)"
      using True "1.prems" by (intro insert_at_permutes) auto
    also have "permutes 0 n (insert_at cmp 0 1 (i + 1) xs) (insert_loop cmp (i + 1) n (insert_at cmp 0 1 (i + 1) xs))"
      using "1.IH"[OF True] "1.prems" permutes_length[OF p] by simp
    finally show ?thesis using True by (subst insert_loop.simps) simp
  qed (subst insert_loop.simps, auto)
qed

lemma shell_chain_permutes: "n \<le> length xs \<Longrightarrow> permutes 0 n xs (shell_chain cmp k d i n xs)"
proof (induction cmp k d i n xs rule: shell_chain.induct)
  case (1 cmp k d i n xs)
  show ?case
  proof (cases "0 < d \<and> i < n")
    case True
    have p: "permutes 0 n xs (insert_at cmp k d i xs)"
      using True "1.prems" by (intro insert_at_permutes) auto
    also have "permutes 0 n (insert_at cmp k d i xs) (shell_chain cmp k d (i + d) n (insert_at cmp k d i xs))"
      using "1.IH"[OF True] "1.prems" permutes_length[OF p] by simp
    finally show ?thesis using True by (subst shell_chain.simps) simp
  qed (subst shell_chain.simps, auto)
qed

lemma shell_pass_permutes: "n \<le> length xs \<Longrightarrow> permutes 0 n xs (shell_pass cmp k d n xs)"
proof (induction cmp k d n xs rule: shell_pass.induct)
  case (1 cmp k d n xs)
  show ?case
  proof (cases "k < d")
    case True
    have p: "permutes 0 n xs (shell_chain cmp k d (k + d) n xs)"
      using "1.prems" by (rule shell_chain_permutes)
    also have "permutes 0 n (shell_chain cmp k d (k + d) n xs)
        (shell_pass cmp (k + 1) d n (shell_chain cmp k d (k + d) n xs))"
      using "1.IH"[OF True] "1.prems" permutes_length[OF p] by simp
    finally show ?thesis using True by (subst shell_pass.simps) simp
  qed (subst shell_pass.simps, auto)
qed

lemma shell_gaps_permutes: "n \<le> length xs \<Longrightarrow> permutes 0 n xs (shell_gaps cmp d n xs)"
proof (induction cmp d n xs rule: shell_gaps.induct)
  case (1 cmp d n xs)
  show ?case
  proof (cases "0 < d")
    case True
    have p: "permutes 0 n xs (shell_pass cmp 0 d n xs)" using "1.prems" by (rule shell_pass_permutes)
    also have "permutes 0 n (shell_pass cmp 0 d n xs) (shell_gaps cmp (d div 2) n (shell_pass cmp 0 d n xs))"
      using "1.IH"[OF True] "1.prems" permutes_length[OF p] by simp
    finally show ?thesis using True by (subst shell_gaps.simps) simp
  qed (subst shell_gaps.simps, auto)
qed

text \<open>Whatever the larger gaps have done, the last pass, with gap 1, orders the array.\<close>

lemma shell_gaps_in_order:
  "weak_order cmp \<Longrightarrow> n \<le> length xs \<Longrightarrow> 0 < d \<Longrightarrow> 0 < n \<Longrightarrow> in_order cmp 0 n (shell_gaps cmp d n xs)"
proof (induction cmp d n xs rule: shell_gaps.induct)
  case (1 cmp d n xs)
  let ?ys = "shell_pass cmp 0 d n xs"
  have len: "length ?ys = length xs" using shell_pass_permutes[OF "1.prems"(2)] by (rule permutes_length)
  show ?case
  proof (cases "d = 1")
    case True
    have "?ys = shell_chain cmp 0 1 1 n xs"
      unfolding True by (subst shell_pass.simps, simp, subst shell_pass.simps, simp)
    then have "in_order cmp 0 n ?ys"
      using "1.prems" weak_order.shell_chain_in_order[of cmp n xs 1] by simp
    then show ?thesis unfolding True by (subst shell_gaps.simps, simp, subst shell_gaps.simps, simp)
  next
    case False
    then have "in_order cmp 0 n (shell_gaps cmp (d div 2) n ?ys)"
      using "1.IH" "1.prems" len by simp
    then show ?thesis using "1.prems"(3) by (subst shell_gaps.simps) simp
  qed
qed

lemma insert_sort_sorter: "sorter insert_sort"
proof (unfold_locales, goal_cases)
  case (1 cmp n xs)
  then show ?case by (simp add: insert_sort_def insert_loop_permutes)
next
  case (2 cmp n xs)
  then show ?case by (simp add: insert_sort_def weak_order.insert_loop_in_order)
qed

interpretation insertion: sorter insert_sort
  by (rule insert_sort_sorter)

lemma shell_sort_sorter: "sorter shell_sort"
proof (unfold_locales, goal_cases)
  case (1 cmp n xs)
  then show ?case by (simp add: shell_sort_def shell_gaps_permutes)
next
  case (2 cmp n xs)
  have "2 \<le> n \<Longrightarrow> in_order cmp 0 n (shell_gaps cmp (n div 2) n xs)"
    by (rule shell_gaps_in_order[OF 2]) auto
  then show ?case by (simp add: shell_sort_def)
qed

interpretation shell: sorter shell_sort
  by (rule shell_sort_sorter)

subsection \<open>quickSort\<close>

lemma scan_down_stop:
  assumes "l \<le> h"
  shows "scan_down cmp key l h xs = l \<or> cmp key (xs ! scan_down cmp key l h xs)"
    and "scan_down cmp key l h xs < j \<Longrightarrow> j \<le> h \<Longrightarrow> \<not> cmp key (xs ! j)"
proof -
  have "(scan_down cmp key l h xs = l \<or> cmp key (xs ! scan_down cmp key l h xs)) \<and>
    (\<forall>j. scan_down cmp key l h xs < j \<and> j \<le> h \<longrightarrow> \<not> cmp key (xs ! j))"
    using assms by (induction cmp key l h xs rule: scan_down.induct) (auto simp: le_Suc_eq)
  then show "scan_down cmp key l h xs = l \<or> cmp key (xs ! scan_down cmp key l h xs)"
    and "scan_down cmp key l h xs < j \<Longrightarrow> j \<le> h \<Longrightarrow> \<not> cmp key (xs ! j)" by auto
qed

lemma scan_up_stop:
  assumes "l \<le> h"
  shows "scan_up cmp key l h xs = h \<or> cmp (xs ! scan_up cmp key l h xs) key"
    and "l \<le> j \<Longrightarrow> j < scan_up cmp key l h xs \<Longrightarrow> \<not> cmp (xs ! j) key"
proof -
  have "(scan_up cmp key l h xs = h \<or> cmp (xs ! scan_up cmp key l h xs) key) \<and>
    (\<forall>j. l \<le> j \<and> j < scan_up cmp key l h xs \<longrightarrow> \<not> cmp (xs ! j) key)"
    using assms
  proof (induction "h - l" arbitrary: l)
    case 0
    then have "scan_up cmp key l h xs = l" by (subst scan_up.simps) auto
    then show ?case using 0 by auto
  next
    case (Suc k)
    show ?case
    proof (cases "cmp (xs ! l) key")
      case True
      then have "scan_up cmp key l h xs = l" by (subst scan_up.simps) auto
      then show ?thesis using True by auto
    next
      case False
      then have eq: "scan_up cmp key l h xs = scan_up cmp key (l + 1) h xs"
        using Suc.hyps(2) by (subst scan_up.simps) auto
      have IH: "scan_up cmp key (l + 1) h xs = h \<or> cmp (xs ! scan_up cmp key (l + 1) h xs) key"
        "\<And>j. l + 1 \<le> j \<Longrightarrow> j < scan_up cmp key (l + 1) h xs \<Longrightarrow> \<not> cmp (xs ! j) key"
        using Suc.hyps(1)[of "l + 1"] Suc.hyps(2) by auto
      have "\<not> cmp (xs ! j) key" if "l \<le> j" "j < scan_up cmp key (l + 1) h xs" for j
        using IH(2)[of j] that False by (cases "j = l") auto
      then show ?thesis unfolding eq using IH(1) by blast
    qed
  qed
  then show "scan_up cmp key l h xs = h \<or> cmp (xs ! scan_up cmp key l h xs) key"
    and "l \<le> j \<Longrightarrow> j < scan_up cmp key l h xs \<Longrightarrow> \<not> cmp (xs ! j) key" by auto
qed

text \<open>
  What one turn of the partitioning loop keeps: the key stands at \<open>ki\<close>, the cells below \<open>l\<close> and
  above \<open>h\<close> are on their sides of it.
\<close>

definition split_at :: "'a compare \<Rightarrow> 'a \<Rightarrow> nat \<Rightarrow> nat \<Rightarrow> nat \<Rightarrow> nat \<Rightarrow> 'a list \<Rightarrow> bool" where
  "split_at cmp key low high l h xs \<longleftrightarrow>
     (\<forall>i. low \<le> i \<and> i < l \<longrightarrow> \<not> cmp (xs ! i) key) \<and> (\<forall>i. h < i \<and> i \<le> high \<longrightarrow> \<not> cmp key (xs ! i))"

lemma split_atD:
  "split_at cmp key low high l h xs \<Longrightarrow> low \<le> i \<Longrightarrow> i < l \<Longrightarrow> \<not> cmp (xs ! i) key"
  "split_at cmp key low high l h xs \<Longrightarrow> h < i \<Longrightarrow> i \<le> high \<Longrightarrow> \<not> cmp key (xs ! i)"
  by (auto simp: split_at_def)

lemma split_atI:
  "(\<And>i. low \<le> i \<Longrightarrow> i < l \<Longrightarrow> \<not> cmp (xs ! i) key) \<Longrightarrow>
   (\<And>i. h < i \<Longrightarrow> i \<le> high \<Longrightarrow> \<not> cmp key (xs ! i)) \<Longrightarrow> split_at cmp key low high l h xs"
  by (auto simp: split_at_def)

context weak_order
begin

lemma partition_high_step:
  assumes "split_at before key low high l h xs" "xs ! l = key" "low \<le> l" "l < h" "h \<le> high" "high < length xs"
    and h1: "h1 = scan_down before key l h xs" and ys: "ys = swap h1 l xs"
  shows "permutes low (Suc high) xs ys" "ys ! h1 = key"
    "split_at before key low high (if h1 = l then l else l + 1) h1 ys"
proof -
  have b: "l \<le> h1" "h1 \<le> h" using scan_down_bounds[of l h before key xs] assms(4) h1 by auto
  show "permutes low (Suc high) xs ys" unfolding ys using b assms by (intro permutes_swap) auto
  show "ys ! h1 = key" unfolding ys using b assms by simp
  note nth = swap_nth[of h1 xs l]
  show "split_at before key low high (if h1 = l then l else l + 1) h1 ys"
  proof (rule split_atI)
    fix i assume i: "low \<le> i" "i < (if h1 = l then l else l + 1)"
    show "\<not> before (ys ! i) key"
    proof (cases "i < l")
      case True
      then show ?thesis using split_atD(1)[OF assms(1)] i b assms(4-6) by (auto simp: ys nth)
    next
      case False
      then have "i = l" "h1 \<noteq> l" using i by (auto split: if_splits)
      then have "ys ! i = xs ! h1" "before key (xs ! h1)"
        using scan_down_stop(1)[of l h before key xs] b assms(4-6) by (auto simp: ys nth h1[symmetric])
      then show ?thesis using asym by simp
    qed
  next
    fix i assume i: "h1 < i" "i \<le> high"
    then have "ys ! i = xs ! i" using b assms(6) by (auto simp: ys nth)
    moreover have "\<not> before key (xs ! i)"
      using split_atD(2)[OF assms(1), of i] scan_down_stop(2)[of l h before key xs i] i b h1 by (cases "h < i") auto
    ultimately show "\<not> before key (ys ! i)" by simp
  qed
qed

lemma partition_low_step:
  assumes "split_at before key low high l h xs" "xs ! h = key" "low \<le> l" "l < h" "h \<le> high" "high < length xs"
    and l2: "l2 = scan_up before key l h xs" and ys: "ys = swap h l2 xs"
  shows "permutes low (Suc high) xs ys" "ys ! l2 = key" "split_at before key low high l2 (h - 1) ys"
proof -
  have b: "l \<le> l2" "l2 \<le> h" using scan_up_bounds[of l h before key xs] assms(4) l2 by auto
  show "permutes low (Suc high) xs ys" unfolding ys using b assms by (intro permutes_swap) auto
  show "ys ! l2 = key" unfolding ys using b assms by simp
  note nth = swap_nth[of h xs l2]
  show "split_at before key low high l2 (h - 1) ys"
  proof (rule split_atI)
    fix i assume i: "low \<le> i" "i < l2"
    then have "ys ! i = xs ! i" using b assms(5,6) by (auto simp: ys nth)
    moreover have "\<not> before (xs ! i) key"
      using split_atD(1)[OF assms(1), of i] scan_up_stop(2)[of l h i before key xs] i b l2 assms(4) by (cases "i < l") auto
    ultimately show "\<not> before (ys ! i) key" by simp
  next
    fix i assume i: "h - 1 < i" "i \<le> high"
    show "\<not> before key (ys ! i)"
    proof (cases "i = h")
      case True
      then have "ys ! i = xs ! l2" using b assms(5,6) by (auto simp: ys nth)
      moreover have "\<not> before key (xs ! l2)"
        using scan_up_stop(1)[of l h before key xs] assms(2,4) l2 irrefl asym by auto
      ultimately show ?thesis by simp
    next
      case False
      then have hi: "h < i" using i by linarith
      then have "i \<noteq> l2" "i < length xs" "l2 < length xs" "h < length xs" using i b assms(6) by linarith+
      then have "ys ! i = xs ! i" using hi by (simp add: ys nth)
      then show ?thesis using split_atD(2)[OF assms(1) hi i(2)] by simp
    qed
  qed
qed

lemma partition_correct:
  assumes "split_at before key low high l h xs" "xs ! l = key" "low \<le> l" "l \<le> Suc h" "h \<le> high" "l \<le> high"
    "high < length xs" "partition_loop before key l h l xs = (k, ys)"
  shows "permutes low (Suc high) xs ys \<and> low \<le> k \<and> k \<le> high \<and> ys ! k = key \<and> split_at before key low high k k ys"
  using assms
proof (induction "h - l" arbitrary: l h xs rule: less_induct)
  case less
  show ?case
  proof (cases "l < h")
    case False
    then have r: "k = l" "ys = xs" using less.prems(8) by (simp_all add: partition_loop.simps)
    have "split_at before key low high l l xs"
      using less.prems(1,4) False by (auto simp: split_at_def)
    then show ?thesis using r less.prems by simp
  next
    case True
    define h1 where "h1 = scan_down before key l h xs"
    define xs1 where "xs1 = swap h1 l xs"
    note H = partition_high_step[OF less.prems(1,2,3) True less.prems(5,7) h1_def xs1_def]
    have b: "l \<le> h1" "h1 \<le> h" using scan_down_bounds[of l h before key xs] True h1_def by auto
    have len: "length xs1 = length xs" by (simp add: xs1_def)
    show ?thesis
    proof (cases "h1 \<le> l + 1")
      case True
      then have r: "k = h1" "ys = xs1"
        using less.prems(8) \<open>l < h\<close> by (auto simp: partition_loop.simps[of before key l h] h1_def xs1_def Let_def)
      have "split_at before key low high h1 h1 xs1"
        using H(3) True b by (cases "h1 = l") (auto simp: le_Suc_eq)
      then show ?thesis using r H b less.prems by auto
    next
      case False
      define l2 where "l2 = scan_up before key (l + 1) h1 xs1"
      define xs2 where "xs2 = swap h1 l2 xs1"
      have H3: "split_at before key low high (l + 1) h1 xs1" using H(3) False b by simp
      have hyps: "low \<le> l + 1" "l + 1 < h1" "h1 \<le> high" "high < length xs1"
        using False b less.prems len by auto
      note L = partition_low_step[OF H3 H(2) hyps l2_def xs2_def]
      have u: "l + 1 \<le> l2" "l2 \<le> h1" using scan_up_bounds[of "l + 1" h1 before key xs1] hyps l2_def by auto
      have p: "partition_loop before key l2 (h1 - 1) l2 xs2 = (k, ys)"
        unfolding less.prems(8)[symmetric]
        by (subst (2) partition_loop.simps, simp only: \<open>l < h\<close> False Let_def if_True if_False
            h1_def[symmetric] xs1_def[symmetric] l2_def[symmetric] xs2_def[symmetric])
      have "length xs2 = length xs1" by (simp add: xs2_def)
      then have "permutes low (Suc high) xs2 ys \<and> low \<le> k \<and> k \<le> high \<and> ys ! k = key \<and>
          split_at before key low high k k ys"
        using u b hyps less.prems(3,5,6) by (intro less.hyps[OF _ L(3,2) _ _ _ _ _ p]) auto
      then show ?thesis using H(1) L(1) permutes_trans by blast
    qed
  qed
qed

end

lemma quick_rec_unfold:
  assumes "low < high" "partition_loop cmp (xs ! low) low high low xs = (k, ys)"
  shows "quick_rec cmp low high xs =
    (let zs = (if low + 1 < k then quick_rec cmp low (k - 1) ys else ys)
     in if k + 1 < high then quick_rec cmp (k + 1) high zs else zs)"
  by (subst quick_rec.simps) (use assms in \<open>simp only: not_le prod.case if_False if_True Let_def\<close>, simp)

context weak_order
begin

text \<open>Two ordered halves around a key give an ordered whole.\<close>

lemma join_in_order:
  assumes "in_order before low k xs" "in_order before (Suc k) h xs"
    and "\<And>i. low \<le> i \<Longrightarrow> i < k \<Longrightarrow> \<not> before (xs ! i) (xs ! k)"
    and "\<And>j. k < j \<Longrightarrow> j < h \<Longrightarrow> \<not> before (xs ! k) (xs ! j)"
  shows "in_order before low h xs"
  unfolding in_order_def
proof (intro allI impI, elim conjE)
  fix i j assume ij: "low \<le> i" "i < j" "j < h"
  consider "j < k" | "j = k" | "i = k" | "k < i" | "i < k" "k < j" using ij by linarith
  then show "\<not> before (xs ! i) (xs ! j)"
  proof cases
    case 1 then show ?thesis using in_orderD[OF assms(1)] ij by simp
  next
    case 2 then show ?thesis using assms(3) ij by simp
  next
    case 3 then show ?thesis using assms(4) ij by simp
  next
    case 4 then show ?thesis using in_orderD[OF assms(2)] ij by simp
  next
    case 5
    then have "\<not> before (xs ! i) (xs ! k)" "\<not> before (xs ! k) (xs ! j)" using assms(3,4) ij by auto
    then show ?thesis by (rule neg_trans)
  qed
qed

lemma quick_rec_correct:
  assumes "high < length xs"
  shows "permutes low (Suc high) xs (quick_rec before low high xs) \<and>
    in_order before low (Suc high) (quick_rec before low high xs)"
  using assms
proof (induction "high - low" arbitrary: low high xs rule: less_induct)
  case less
  show ?case
  proof (cases "low < high")
    case False
    then have "quick_rec before low high xs = xs" by (subst quick_rec.simps) simp
    then show ?thesis using False by simp
  next
    case True
    let ?key = "xs ! low"
    obtain k ys where p: "partition_loop before ?key low high low xs = (k, ys)" by fastforce
    have "split_at before ?key low high low high xs" by (auto simp: split_at_def)
    from partition_correct[OF this refl order_refl _ order_refl _ less.prems p] True
    have k: "permutes low (Suc high) xs ys" "low \<le> k" "k \<le> high" "ys ! k = ?key"
      and sp: "split_at before ?key low high k k ys" by auto
    have ly: "length ys = length xs" using k(1) by simp
    define zs where "zs = (if low + 1 < k then quick_rec before low (k - 1) ys else ys)"
    define ws where "ws = (if k + 1 < high then quick_rec before (k + 1) high zs else zs)"
    have z: "permutes low k ys zs" "in_order before low k zs"
      using less.hyps[of "k - 1" low ys] k less.prems ly by (auto simp: zs_def)
    have lz: "length zs = length xs" using permutes_length[OF z(1)] ly by simp
    have w: "permutes (Suc k) (Suc high) zs ws" "in_order before (Suc k) (Suc high) ws"
      using less.hyps[of high "k + 1" zs] k less.prems lz by (auto simp: ws_def)
    have left: "ws ! i = zs ! i" if "i \<le> k" for i
      using permutes_nth[OF w(1), of i] that k(3) less.prems lz by simp
    have key: "ws ! k = ?key"
      using left[of k] permutes_nth[OF z(1), of k] k(3,4) less.prems ly by simp
    have A: "in_order before low k ws"
      using z(2) by (rule in_order_cong) (simp add: left)
    have B: "\<not> before (ws ! i) (ws ! k)" if i: "low \<le> i" "i < k" for i
    proof -
      obtain j where "low \<le> j" "j < k" "zs ! i = ys ! j"
        using permutes_origin[OF z(1) i] k(3) less.prems ly by auto
      then show ?thesis using split_atD(1)[OF sp, of j] left[of i] i(2) key by simp
    qed
    have C: "\<not> before (ws ! k) (ws ! j)" if j: "k < j" "j < Suc high" for j
    proof -
      have "Suc k \<le> j" "Suc high \<le> length zs" using j(1) less.prems lz by linarith+
      from permutes_origin[OF w(1) this(1) j(2) this(2)]
      obtain j' where j': "Suc k \<le> j'" "j' < Suc high" "ws ! j = zs ! j'" by blast
      have "zs ! j' = ys ! j'" using permutes_nth[OF z(1), of j'] j' less.prems ly by simp
      then show ?thesis using split_atD(2)[OF sp, of j'] j' key by simp
    qed
    have "in_order before low (Suc high) ws" by (rule join_in_order[OF A w(2) B C])
    moreover have "permutes low (Suc high) xs ws"
    proof -
      note k(1)
      also have "permutes low (Suc high) ys zs" by (rule permutes_mono[OF z(1)]) (use k in auto)
      also have "permutes low (Suc high) zs ws" by (rule permutes_mono[OF w(1)]) (use k in auto)
      finally show ?thesis .
    qed
    ultimately show ?thesis 
      unfolding quick_rec_unfold[OF True p] Let_def zs_def[symmetric] ws_def[symmetric] by blast
  qed
qed

end

lemma quick_sort_sorter: "sorter quick_sort"
proof (unfold_locales, goal_cases)
  case (1 cmp n xs)
  then show ?case
    using weak_order.quick_rec_correct[OF 1(1), of "n - 1" xs 0] by (auto simp: quick_sort_def)
next
  case (2 cmp n xs)
  then show ?case
    using weak_order.quick_rec_correct[OF 2(1), of "n - 1" xs 0] by (auto simp: quick_sort_def)
qed

interpretation quick: sorter quick_sort
  by (rule quick_sort_sorter)

subsection \<open>heapSort\<close>

lemma pick_child_bounds:
  assumes "2 * k + 1 < n"
  shows "k < pick_child cmp n k xs" "pick_child cmp n k xs < n" "0 < pick_child cmp n k xs"
    "parent (pick_child cmp n k xs) = k"
  using assms by (auto simp: pick_child_def parent_def)

context weak_order
begin

lemma pick_child_best:
  assumes "j < n" "0 < j" "parent j = k"
  shows "\<not> before (xs ! j) (xs ! pick_child before n k xs)"
  using assms irrefl asym by (auto simp: parent_children pick_child_def)

lemma adjust_sift_permutes: "n \<le> length xs \<Longrightarrow> permutes 0 n xs (adjust_sift cmp n k xs)"
proof (induction cmp n k xs rule: adjust_sift.induct)
  case (1 cmp n k xs)
  let ?i = "pick_child cmp n k xs"
  show ?case
  proof (cases "2 * k + 1 < n \<and> cmp (xs ! ?i) (xs ! k)")
    case True
    note b = pick_child_bounds[OF conjunct1[OF True], of cmp xs]
    have "permutes 0 n xs (swap ?i k xs)" using b "1.prems" by (intro permutes_swap) auto
    also have "permutes 0 n (swap ?i k xs) (adjust_sift cmp n ?i (swap ?i k xs))"
      using "1.IH" True "1.prems" by simp
    finally show ?thesis using True by (subst adjust_sift.simps) (simp add: Let_def)
  next
    case False
    then have "adjust_sift cmp n k xs = xs" by (subst adjust_sift.simps) (auto simp: Let_def)
    then show ?thesis by simp
  qed
qed

lemma adjust_sift_heap:
  assumes "hole_down before lo n k xs" "0 < lo" "lo \<le> 2 * k + 1" "n \<le> length xs"
  shows "heap_from before lo n (adjust_sift before n k xs)"
  using assms
proof (induction "n - k" arbitrary: k xs rule: less_induct)
  case (less k xs)
  let ?i = "pick_child before n k xs"
  show ?case
  proof (cases "2 * k + 1 < n \<and> before (xs ! ?i) (xs ! k)")
    case True
    note b = pick_child_bounds[OF conjunct1[OF True], of before xs]
    have "hole_down before lo n ?i (swap ?i k xs)"
      by (rule sift_down_step[OF less.prems b(2,3,4) pick_child_best]) (use True in auto)
    then have "heap_from before lo n (adjust_sift before n ?i (swap ?i k xs))"
      using less.hyps[of ?i "swap ?i k xs"] b less.prems True by simp
    then show ?thesis using True by (subst adjust_sift.simps) (simp add: Let_def)
  next
    case False
    have "edge_ok before xs j" if j: "j < n" "0 < j" "parent j = k" for j
    proof -
      have "2 * k + 1 < n" using j by (auto simp: parent_children)
      then have "\<not> before (xs ! ?i) (xs ! k)" using False by simp
      then show ?thesis using pick_child_best[OF j] neg_trans j by (auto simp: edge_ok_def)
    qed
    then have "heap_from before lo n xs" using heap_hole_down less.prems by blast
    moreover have "adjust_sift before n k xs = xs" using False by (subst adjust_sift.simps) (auto simp: Let_def)
    ultimately show ?thesis by simp
  qed
qed

text \<open>
  With a cell past the elements that comes before none of them, the unguarded loop of
  \<open>buildHeap\<close> never follows it.
\<close>

definition harmless :: "nat \<Rightarrow> 'a list \<Rightarrow> bool" where
  "harmless n xs \<longleftrightarrow> n < length xs \<and> (\<forall>j < n. \<not> before (xs ! n) (xs ! j))"

lemma harmless_permutes:
  assumes "harmless n xs" "permutes 0 n xs ys"
  shows "harmless n ys"
  unfolding harmless_def
proof (intro conjI allI impI)
  show "n < length ys" using assms by (simp add: harmless_def)
  fix j assume "j < n"
  then obtain i where "i < n" "ys ! j = xs ! i"
    using permutes_origin[OF assms(2), of j] assms(1) by (auto simp: harmless_def)
  moreover have "ys ! n = xs ! n"
    using permutes_nth[OF assms(2), of n] assms(1) by (simp add: harmless_def)
  ultimately show "\<not> before (ys ! n) (ys ! j)" using assms(1) by (simp add: harmless_def)
qed

text \<open>The child the unguarded code picks.\<close>

definition build_child :: "nat \<Rightarrow> 'a list \<Rightarrow> nat" where
  "build_child k xs = (if before (xs ! (2 * k + 2)) (xs ! (2 * k + 1)) then 2 * k + 2 else 2 * k + 1)"

lemma build_child_facts:
  assumes "harmless n xs" "2 * k + 1 < n"
  shows "k < build_child k xs" "build_child k xs < n" "0 < build_child k xs" "parent (build_child k xs) = k"
    "\<And>j. j < n \<Longrightarrow> 0 < j \<Longrightarrow> parent j = k \<Longrightarrow> \<not> before (xs ! j) (xs ! build_child k xs)"
proof -
  have "before (xs ! (2 * k + 2)) (xs ! (2 * k + 1)) \<Longrightarrow> 2 * k + 2 \<noteq> n"
    using assms by (auto simp: harmless_def)
  then show "build_child k xs < n" using assms(2) by (auto simp: build_child_def)
  show "k < build_child k xs" "0 < build_child k xs" "parent (build_child k xs) = k"
    by (auto simp: build_child_def parent_def)
  show "\<And>j. j < n \<Longrightarrow> 0 < j \<Longrightarrow> parent j = k \<Longrightarrow> \<not> before (xs ! j) (xs ! build_child k xs)"
    using irrefl asym by (auto simp: parent_children build_child_def)
qed

lemma build_sift_unfold:
  assumes "harmless n xs"
  shows "build_sift before n k xs =
    (if 2 * k + 1 < n \<and> before (xs ! build_child k xs) (xs ! k)
     then build_sift before n (build_child k xs) (swap (build_child k xs) k xs) else Inr xs)"
proof (cases "2 * k + 1 < n")
  case True
  then have "at xs (2 * k + 2) = Inr (xs ! (2 * k + 2))" using assms by (simp add: harmless_def)
  then show ?thesis
    using True by (subst build_sift.simps) (simp only: and_then_Inr Let_def build_child_def[symmetric] if_True simp_thms)
next
  case False
  then show ?thesis by (subst build_sift.simps) simp
qed

lemma build_sift_heap:
  assumes "hole_down before lo n k xs" "0 < lo" "lo \<le> 2 * k + 1" "harmless n xs"
  shows "\<exists>ys. build_sift before n k xs = Inr ys \<and> permutes 0 n xs ys \<and> heap_from before lo n ys"
  using assms
proof (induction "n - k" arbitrary: k xs rule: less_induct)
  case (less k xs)
  let ?i = "build_child k xs"
  have len: "n \<le> length xs" using less.prems(4) by (simp add: harmless_def)
  show ?case
  proof (cases "2 * k + 1 < n \<and> before (xs ! ?i) (xs ! k)")
    case True
    note b = build_child_facts[OF less.prems(4) conjunct1[OF True]]
    have h: "hole_down before lo n ?i (swap ?i k xs)"
      by (rule sift_down_step[OF less.prems(1-3) len b(2,3,4,5)]) (use True in auto)
    have p: "permutes 0 n xs (swap ?i k xs)" using b len by (intro permutes_swap) auto
    have "\<exists>ys. build_sift before n ?i (swap ?i k xs) = Inr ys \<and> permutes 0 n (swap ?i k xs) ys \<and>
        heap_from before lo n ys"
      by (rule less.hyps[OF _ h]) (use b less.prems(2,3) True harmless_permutes[OF less.prems(4) p] in auto)
    then show ?thesis
      unfolding build_sift_unfold[OF less.prems(4), of k] using True p permutes_trans by auto
  next
    case False
    have "edge_ok before xs j" if j: "j < n" "0 < j" "parent j = k" for j
    proof -
      have k: "2 * k + 1 < n" using j by (auto simp: parent_children)
      then have "\<not> before (xs ! ?i) (xs ! k)" using False by simp
      then show ?thesis using build_child_facts(5)[OF less.prems(4) k j] neg_trans j by (auto simp: edge_ok_def)
    qed
    then have "heap_from before lo n xs" using heap_hole_down less.prems by blast
    then show ?thesis unfolding build_sift_unfold[OF less.prems(4), of k] using False by auto
  qed
qed

lemma build_step_hole:
  assumes "heap_from before (Suc c) n xs" "0 < c" "c < n" "n \<le> length xs" "before (xs ! c) (xs ! parent c)"
  shows "hole_down before c n c (swap c (parent c) xs)"
proof -
  let ?p = "parent c" let ?ys = "swap c ?p xs"
  have p: "?p < c" using assms(2) by simp
  have nth: "?ys ! j = (if j = c then xs ! ?p else if j = ?p then xs ! c else xs ! j)" if "j < n" for j
    using that p assms(3,4) by (simp add: swap_nth)
  have e: "\<not> before (xs ! j) (xs ! parent j)" if "c < j" "j < n" for j
    using heap_fromD[OF assms(1), of j] that by (simp add: edge_ok_def)
  have "edge_ok before ?ys j" if j: "c \<le> j" "j < n" "parent j \<noteq> c" for j
  proof (cases "j = c")
    case True
    then show ?thesis using asym[OF assms(5)] p assms(3) nth[of c] nth[of ?p] by (simp add: edge_ok_def)
  next
    case False
    then have cj: "c < j" using j by simp
    have "\<not> before (xs ! j) (xs ! c)" if "parent j = ?p"
      using e[OF cj j(2)] that assms(5) trans by metis
    moreover have "?ys ! parent j = (if parent j = ?p then xs ! c else xs ! parent j)"
      using nth[of "parent j"] j by simp
    ultimately show ?thesis
      using e[OF cj j(2)] cj p j(2) nth[of j] by (simp add: edge_ok_def)
  qed
  moreover have "\<not> before (?ys ! j) (?ys ! ?p)" if j: "j < n" "0 < j" "parent j = c" for j
  proof -
    have "c < j" using j by auto
    then show ?thesis using e[of j] j p assms(3) nth[of j] nth[of ?p] by simp
  qed
  ultimately show ?thesis by (auto simp: hole_down_def)
qed

lemma build_loop_heap:
  assumes "heap_from before (Suc i) n xs" "i < n" "harmless n xs"
  shows "\<exists>ys. build_loop before n i xs = Inr ys \<and> permutes 0 n xs ys \<and> heap_on before n ys"
  using assms
proof (induction i arbitrary: xs)
  case 0
  then show ?case by auto
next
  case (Suc i)
  let ?c = "Suc i"
  have par: "i div 2 = parent ?c" by (simp add: parent_def)
  have len: "n \<le> length xs" using Suc.prems(3) by (simp add: harmless_def)
  let ?step = "if before (xs ! ?c) (xs ! parent ?c) then build_sift before n ?c (swap ?c (parent ?c) xs) else Inr xs"
  have "\<exists>ys. ?step = Inr ys \<and> permutes 0 n xs ys \<and> heap_from before ?c n ys"
  proof (cases "before (xs ! ?c) (xs ! parent ?c)")
    case True
    have p: "permutes 0 n xs (swap ?c (parent ?c) xs)"
      using Suc.prems(2) len by (intro permutes_swap) auto
    have "\<exists>ys. build_sift before n ?c (swap ?c (parent ?c) xs) = Inr ys \<and>
        permutes 0 n (swap ?c (parent ?c) xs) ys \<and> heap_from before ?c n ys"
      by (rule build_sift_heap[OF build_step_hole[OF Suc.prems(1) _ Suc.prems(2) len True]])
        (use harmless_permutes[OF Suc.prems(3) p] in auto)
    then show ?thesis using True p permutes_trans by auto
  next
    case False
    have "heap_from before ?c n xs"
      using Suc.prems(1) False unfolding heap_from_def edge_ok_def by (metis Suc_leI le_neq_implies_less)
    then show ?thesis using False by auto
  qed
  then obtain ys where ys: "?step = Inr ys" "permutes 0 n xs ys" "heap_from before ?c n ys" by blast
  have "build_loop before n ?c xs = build_loop before n i ys"
    unfolding build_loop.simps(2) par ys(1) by simp
  moreover obtain zs where "build_loop before n i ys = Inr zs" "permutes 0 n ys zs" "heap_on before n zs"
    using Suc.IH[OF ys(3) _ harmless_permutes[OF Suc.prems(3) ys(2)]] Suc.prems(2) by auto
  ultimately show ?case using permutes_trans[OF ys(2)] by auto
qed

lemma adjust_root_heap:
  assumes "heap_on before (Suc m) xs" "m < length xs"
  shows "heap_on before m (adjust_sift before m 0 (swap 0 m xs))"
proof -
  have "edge_ok before (swap 0 m xs) j" if "2 < j" "j < m" for j
  proof -
    have "edge_ok before xs j" using heap_fromD[OF assms(1)] that by simp
    moreover have "0 < parent j" using that by (auto simp: parent_def)
    moreover have "j \<noteq> m" "parent j \<noteq> m" "j < length xs" "parent j < length xs" "0 < length xs"
      using that assms(2) parent_le[of j] by linarith+
    ultimately show ?thesis using that assms(2) by (simp add: edge_ok_def swap_nth)
  qed
  then have "hole_down before 1 m 0 (swap 0 m xs)" by (rule hole_down_root)
  then show ?thesis using assms(2) by (intro adjust_sift_heap) auto
qed

lemma heap_loop_correct:
  assumes "heap_on before (Suc m) xs" "m < n" "n \<le> length xs"
    and "\<And>a b. a < b \<Longrightarrow> m < b \<Longrightarrow> b < n \<Longrightarrow> \<not> before (xs ! a) (xs ! b)"
  shows "permutes 0 n xs (heap_loop before m xs) \<and> in_order before 0 n (heap_loop before m xs)"
  using assms
proof (induction m arbitrary: xs)
  case 0
  then show ?case by (auto simp: in_order_def)
next
  case (Suc m)
  let ?m = "Suc m" let ?xs = "swap 0 ?m xs" let ?ys = "adjust_sift before ?m 0 ?xs"
  have m: "?m < length xs" using Suc.prems by linarith
  have p1: "permutes 0 (Suc ?m) xs ?xs" using m by (intro permutes_swap) auto
  have p2: "permutes 0 ?m ?xs ?ys" using m by (intro adjust_sift_permutes) simp
  have p: "permutes 0 (Suc ?m) xs ?ys"
    by (rule permutes_trans[OF p1 permutes_mono[OF p2]]) auto
  have top: "?ys ! ?m = xs ! 0" using permutes_nth[OF p2, of ?m] m by simp
  have "\<not> before (?ys ! a) (?ys ! b)" if ab: "a < b" "m < b" "b < n" for a b
  proof (cases "b = ?m")
    case True
    have "a < Suc ?m" using ab True by simp
    then obtain j where "j < Suc ?m" "?ys ! a = xs ! j"
      using permutes_origin[OF p, of a] m by auto
    then show ?thesis using root_least[OF Suc.prems(1), of j] top True by simp
  next
    case False
    then have b: "?m < b" using ab by simp
    then have yb: "?ys ! b = xs ! b" using permutes_nth[OF p, of b] ab Suc.prems(3) by simp
    show ?thesis
    proof (cases "a < Suc ?m")
      case True
      then obtain j where "j < Suc ?m" "?ys ! a = xs ! j"
        using permutes_origin[OF p, of a] m by auto
      then show ?thesis using Suc.prems(4)[of j b] b ab yb by simp
    next
      case False
      then have "?ys ! a = xs ! a" using permutes_nth[OF p, of a] ab Suc.prems(3) by simp
      then show ?thesis using Suc.prems(4)[of a b] b ab yb by simp
    qed
  qed
  moreover have "length ?ys = length xs" using p by (rule permutes_length)
  moreover have "heap_on before ?m ?ys" by (rule adjust_root_heap[OF Suc.prems(1) m])
  ultimately have "permutes 0 n ?ys (heap_loop before m ?ys) \<and> in_order before 0 n (heap_loop before m ?ys)"
    using Suc.prems(2,3) by (intro Suc.IH) auto
  moreover have "permutes 0 n xs ?ys" by (rule permutes_mono[OF p]) (use Suc.prems(2) in auto)
  ultimately show ?case using permutes_trans by auto
qed

lemma heap_sort_harmless:
  assumes "harmless n xs"
  shows "\<exists>ys. heap_sort before n xs = Inr ys \<and> permutes 0 n xs ys \<and> in_order before 0 n ys"
proof (cases "n < 2")
  case True
  then show ?thesis by (auto simp: heap_sort_def)
next
  case False
  have len: "n \<le> length xs" using assms by (simp add: harmless_def)
  obtain ys where ys: "build_loop before n (n - 1) xs = Inr ys" "permutes 0 n xs ys" "heap_on before n ys"
    using build_loop_heap[of "n - 1" n xs] False assms by auto
  have "permutes 0 n ys (heap_loop before (n - 1) ys) \<and> in_order before 0 n (heap_loop before (n - 1) ys)"
  proof (rule heap_loop_correct)
    have "Suc (n - 1) = n" using False by linarith
    then show "heap_on before (Suc (n - 1)) ys" using ys(3) by (simp only:)
    show "n - 1 < n" "n \<le> length ys" using False len permutes_length[OF ys(2)] by linarith+
    show "\<And>a b. n - 1 < b \<Longrightarrow> b < n \<Longrightarrow> \<not> before (ys ! a) (ys ! b)" by linarith
  qed
  then show ?thesis
    using ys False permutes_trans by (auto simp: heap_sort_def build_heap_def)
qed

end

subsection \<open>Properties\<close>

text \<open>
  C9 \<open>quickSort\<close> with any comparison callback that is a strict weak order rearranges the first
  \<open>n\<close> cells so that none of them compares as coming after a later one, and touches no other
  cell.
\<close>

theorem quick_sort_correct:
  assumes "weak_order cmp" "n \<le> length xs"
  shows "mset (take n (quick_sort cmp n xs)) = mset (take n xs) \<and>
    sorted_wrt (\<lambda>a b. \<not> cmp a b) (take n (quick_sort cmp n xs)) \<and>
    drop n (quick_sort cmp n xs) = drop n xs"
  using quick.sort_mset[OF assms] quick.sort_wrt[OF assms] quick.sort_drop[OF assms] by simp

lemma quick_sort_correct_witness:
  "sorted_wrt (\<lambda>a b. \<not> (a > (b::int))) (take 4 (quick_sort (\<lambda>a b. a > b) 4 [3, 1, 2, 1, 0])) \<and>
   quick_sort (\<lambda>a b. a > (b::int)) 4 [3, 1, 2, 1, 0] = [1, 1, 2, 3, 0]"
proof
  show "sorted_wrt (\<lambda>a b. \<not> (a > (b::int))) (take 4 (quick_sort (\<lambda>a b. a > b) 4 [3, 1, 2, 1, 0]))"
    using quick_sort_correct[OF weak_order_greater, of 4 "[3::int, 1, 2, 1, 0]"] by simp
  show "quick_sort (\<lambda>a b. a > (b::int)) 4 [3, 1, 2, 1, 0] = [1, 1, 2, 3, 0]" by code_simp
qed

text \<open>
  C10 On numbers with "greater" as the callback, \<open>selectSort\<close>, \<open>bubbleSort\<close>, \<open>insertSort\<close>,
  \<open>shellSort\<close> and \<open>quickSort\<close> compute the same array: the first \<open>n\<close> cells in ascending order,
  then the others as they were.
\<close>

theorem sorts_agree:
  fixes xs :: "int list"
  assumes "n \<le> length xs"
  shows "select_sort (\<lambda>a b. a > b) n xs = sort (take n xs) @ drop n xs \<and>
    bubble_sort (\<lambda>a b. a > b) n xs = sort (take n xs) @ drop n xs \<and>
    insert_sort (\<lambda>a b. a > b) n xs = sort (take n xs) @ drop n xs \<and>
    shell_sort (\<lambda>a b. a > b) n xs = sort (take n xs) @ drop n xs \<and>
    quick_sort (\<lambda>a b. a > b) n xs = sort (take n xs) @ drop n xs"
  using assms select_sort_sorter bubble_sort_sorter insert_sort_sorter shell_sort_sorter quick_sort_sorter
  by (intro conjI) (rule sorter_sort; simp)+

lemma sorts_agree_witness: "shell_sort (\<lambda>a b. a > (b::int)) 3 [3, 2, 1, 0] = [1, 2, 3, 0]"
  using sorts_agree[of 3 "[3, 2, 1, 0]"] by simp

text \<open>
  \<open>heapSort\<close> sorts as the others do, without a fault, if the cell after the last element
  exists and comes before none of the elements.
\<close>

theorem heap_sort_correct:
  assumes "weak_order cmp" "n < length xs" "\<forall>j < n. \<not> cmp (xs ! n) (xs ! j)"
  shows "\<exists>ys. heap_sort cmp n xs = Inr ys \<and> mset (take n ys) = mset (take n xs) \<and>
    sorted_wrt (\<lambda>a b. \<not> cmp a b) (take n ys) \<and> drop n ys = drop n xs"
proof -
  have "weak_order.harmless cmp n xs" using assms by (simp add: weak_order.harmless_def)
  then obtain ys where ys: "heap_sort cmp n xs = Inr ys" "permutes 0 n xs ys" "in_order cmp 0 n ys"
    using weak_order.heap_sort_harmless[OF assms(1)] by blast
  have "sorted_wrt (\<lambda>a b. \<not> cmp a b) (take n ys)"
    using ys(3) permutes_length[OF ys(2)] assms(2) by (simp add: sorted_wrt_iff_nth_less in_order_def)
  moreover have "drop n ys = drop n xs" using ys(2) same_outside_drop by (auto simp: permutes_def)
  ultimately show ?thesis using ys(1) permutes_mset_take[OF ys(2)] by blast
qed

lemma heap_sort_correct_witness:
  "\<exists>ys. heap_sort (\<lambda>a b. a > (b::int)) 4 [2, 4, 1, 3, 0] = Inr ys \<and> drop 4 ys = [0]"
proof -
  have "\<forall>j < (4::nat). \<not> ([2, 4, 1, 3, 0::int] ! 4 > [2, 4, 1, 3, 0] ! j)" by code_simp
  from heap_sort_correct[OF weak_order_greater _ this] show ?thesis by auto
qed

text \<open>
  The bound missing in \<open>buildHeap\<close>: with the array exactly full, \<open>heapSort\<close> of four elements
  reads outside of it; with a larger value in the cell after the elements, that value is moved
  in, an element is pushed out to the cell after them, and the result is not in order.
\<close>

theorem heap_sort_overrun:
  "heap_sort (\<lambda>a b. a > (b::int)) 4 [- 4, - 1, - 3, - 2] = Inl Out_Of_Bounds \<and>
   heap_sort (\<lambda>a b. a > (b::int)) 4 [- 4, - 1, - 3, - 2, 0] = Inr [- 4, - 2, 0, - 1, - 3]"
proof
  show "heap_sort (\<lambda>a b. a > (b::int)) 4 [- 4, - 1, - 3, - 2] = Inl Out_Of_Bounds" by code_simp
  show "heap_sort (\<lambda>a b. a > (b::int)) 4 [- 4, - 1, - 3, - 2, 0] = Inr [- 4, - 2, 0, - 1, - 3]"
    by code_simp
qed

end
