(* ===== verification/DArray.thy ===== *)
theory DArray
  imports Sort_Correct
begin

text \<open>
  The dynamic array: \<open>dymanicArray/dArray.h\<close>, \<open>dymanicArray/dArray.cpp\<close>. \<open>cells\<close> is the
  storage \<open>p_base\<close> points to, \<open>m_length\<close> the capacity the object believes in, \<open>m_size\<close> the
  number of elements. \<open>fresh\<close> is what newly allocated storage holds; allocation does not
  fail. Sizes are natural numbers. A write or read outside the storage is a fault.
\<close>

datatype Ret = FAILED | SUCCEED

record darray =
  cells :: "int list"
  m_length :: nat
  m_size :: nat

type_synonym memory = "nat \<Rightarrow> int"

definition fresh_cells :: "memory \<Rightarrow> nat \<Rightarrow> int list" where
  "fresh_cells fresh n = map fresh [0..<n]"

definition darray_new :: "nat \<Rightarrow> darray" where
  "darray_new sz = \<lparr>cells = replicate sz 0, m_length = sz, m_size = 0\<rparr>"

definition darray_copy :: "int list \<Rightarrow> nat \<Rightarrow> darray run" where
  "darray_copy src validLength =
     (if length src < validLength then Inl Out_Of_Bounds
      else Inr \<lparr>cells = take validLength src, m_length = validLength, m_size = validLength\<rparr>)"

definition need_expand :: "darray \<Rightarrow> bool" where
  "need_expand d \<longleftrightarrow> m_length d - m_size d \<le> 4"

definition need_shrink :: "darray \<Rightarrow> bool" where
  "need_shrink d \<longleftrightarrow> m_length d div 4 \<le> m_length d - m_size d"

definition get_space_size :: "darray \<Rightarrow> nat" where
  "get_space_size d = m_length d - m_size d"

text \<open>\<open>new\<close>, \<open>memcpy\<close> of the elements, \<open>delete\<close> of the old storage.\<close>

definition reallocate :: "memory \<Rightarrow> nat \<Rightarrow> darray \<Rightarrow> darray run" where
  "reallocate fresh n d =
     (if n < m_size d \<or> length (cells d) < m_size d then Inl Out_Of_Bounds
      else Inr (d\<lparr>cells := take (m_size d) (cells d) @ drop (m_size d) (fresh_cells fresh n), m_length := n\<rparr>))"

definition d_expand :: "memory \<Rightarrow> darray \<Rightarrow> (Ret \<times> darray) run" where
  "d_expand fresh d =
     (let n = (if m_length d < 8 then 16 else m_length d + m_length d div 2)
      in and_then (reallocate fresh n d) (\<lambda>d'. Inr (SUCCEED, d')))"

definition d_shrink :: "memory \<Rightarrow> darray \<Rightarrow> (Ret \<times> darray) run" where
  "d_shrink fresh d =
     (let n = m_length d - get_space_size d div 2 in
      if n \<le> 16 then Inr (SUCCEED, d\<lparr>m_length := n\<rparr>)
      else and_then (reallocate fresh n d) (\<lambda>d'. Inr (SUCCEED, d')))"

text \<open>Writing one cell.\<close>

definition put :: "'a list \<Rightarrow> nat \<Rightarrow> 'a \<Rightarrow> 'a list run" where
  "put xs i x = (if i < length xs then Inr (xs[i := x]) else Inl Out_Of_Bounds)"

lemma put_Inr [simp]: "i < length xs \<Longrightarrow> put xs i x = Inr (xs[i := x])"
  by (simp add: put_def)

text \<open>The loop of \<open>dInsert\<close> that opens the gap, with the store into it.\<close>

fun open_gap :: "nat \<Rightarrow> nat \<Rightarrow> int \<Rightarrow> int list \<Rightarrow> int list run" where
  "open_gap 0 index data xs = put xs 0 data"
| "open_gap (Suc i) index data xs =
     (if index < Suc i then and_then (at xs i) (\<lambda>y. and_then (put xs (Suc i) y) (open_gap i index data))
      else put xs (Suc i) data)"

definition d_insert :: "memory \<Rightarrow> nat \<Rightarrow> int \<Rightarrow> darray \<Rightarrow> (Ret \<times> darray) run" where
  "d_insert fresh index data d0 =
     and_then (if need_expand d0 then d_expand fresh d0 else Inr (SUCCEED, d0)) (\<lambda>(ret, d).
       if ret = FAILED then Inr (FAILED, d)
       else and_then
         (if m_size d \<le> index then put (cells d) (m_size d) data
          else open_gap (m_size d) index data (cells d))
         (\<lambda>xs. Inr (SUCCEED, d\<lparr>cells := xs, m_size := m_size d + 1\<rparr>)))"

definition d_prepend :: "memory \<Rightarrow> int \<Rightarrow> darray \<Rightarrow> (Ret \<times> darray) run" where
  "d_prepend fresh data d = d_insert fresh 0 data d"

definition d_append :: "memory \<Rightarrow> int \<Rightarrow> darray \<Rightarrow> (Ret \<times> darray) run" where
  "d_append fresh data d = d_insert fresh (m_size d) data d"

text \<open>The loop of \<open>dDelete\<close>: it also copies the cell after the last element.\<close>

function close_gap :: "nat \<Rightarrow> nat \<Rightarrow> int list \<Rightarrow> int list run" where
  "close_gap i sz xs =
     (if i < sz then and_then (at xs (i + 1)) (\<lambda>y. close_gap (i + 1) sz (xs[i := y])) else Inr xs)"
  by pat_completeness auto
termination
  by (relation "measure (\<lambda>(i, sz, xs). sz - i)") auto

declare close_gap.simps [simp del]

text \<open>The result carries what is stored through \<open>value\<close>.\<close>

definition d_delete :: "nat \<Rightarrow> darray \<Rightarrow> ((Ret \<times> int option) \<times> darray) run" where
  "d_delete index d =
     (if m_size d \<le> index then Inr ((FAILED, None), d)
      else and_then (at (cells d) index) (\<lambda>value.
           and_then (close_gap index (m_size d) (cells d)) (\<lambda>xs.
             Inr ((SUCCEED, Some value), d\<lparr>cells := xs, m_size := m_size d - 1\<rparr>))))"

definition d_get_by_index :: "nat \<Rightarrow> darray \<Rightarrow> int run" where
  "d_get_by_index index d = (if index < m_size d then at (cells d) index else Inl Assert_Failed)"

definition d_set_by_index :: "nat \<Rightarrow> int \<Rightarrow> darray \<Rightarrow> (Ret \<times> darray) run" where
  "d_set_by_index index data d =
     (if m_length d \<le> index then Inl Assert_Failed
      else if m_size d \<le> index then
        (if m_size d = 0 then Inl Out_Of_Bounds
         else and_then (put (cells d) (m_size d - 1) data) (\<lambda>xs. Inr (SUCCEED, d\<lparr>cells := xs\<rparr>)))
      else and_then (put (cells d) index data) (\<lambda>xs. Inr (SUCCEED, d\<lparr>cells := xs\<rparr>)))"

definition d_get_size :: "darray \<Rightarrow> nat" where
  "d_get_size d = m_size d"

definition d_get_length :: "darray \<Rightarrow> nat" where
  "d_get_length d = m_length d"

definition d_clear_and_resize :: "memory \<Rightarrow> int \<Rightarrow> darray \<Rightarrow> (Ret \<times> darray) run" where
  "d_clear_and_resize fresh sz d =
     (if sz \<le> 0 then Inl Assert_Failed
      else Inr (SUCCEED, \<lparr>cells = fresh_cells fresh (nat sz), m_length = nat sz, m_size = 0\<rparr>))"

text \<open>\<open>dFind\<close>: \<open>None\<close> is the code's \<open>(size_t)-1\<close>.\<close>

function find_from :: "(int \<Rightarrow> bool) \<Rightarrow> nat \<Rightarrow> nat \<Rightarrow> int list \<Rightarrow> nat" where
  "find_from p i sz xs = (if i < sz \<and> \<not> p (xs ! i) then find_from p (i + 1) sz xs else i)"
  by pat_completeness auto
termination
  by (relation "measure (\<lambda>(p, i, sz, xs). sz - i)") auto

declare find_from.simps [simp del]

definition d_find :: "(int \<Rightarrow> bool) \<Rightarrow> darray \<Rightarrow> nat option" where
  "d_find p d = (let i = find_from p 0 (m_size d) (cells d) in if i = m_size d then None else Some i)"

text \<open>\<open>dForeach\<close>: the visitor may change its context and the element.\<close>

function visit_from :: "('c \<Rightarrow> int \<Rightarrow> 'c \<times> int) \<Rightarrow> nat \<Rightarrow> nat \<Rightarrow> 'c \<Rightarrow> int list \<Rightarrow> 'c \<times> int list" where
  "visit_from visit i sz ctx xs =
     (if i < sz then
        visit_from visit (i + 1) sz (fst (visit ctx (xs ! i))) (xs[i := snd (visit ctx (xs ! i))])
      else (ctx, xs))"
  by pat_completeness auto
termination
  by (relation "measure (\<lambda>(visit, i, sz, ctx, xs). sz - i)") auto

declare visit_from.simps [simp del]

definition d_foreach :: "('c \<Rightarrow> int \<Rightarrow> 'c \<times> int) \<Rightarrow> 'c \<Rightarrow> darray \<Rightarrow> 'c \<times> darray" where
  "d_foreach visit ctx d =
     (let (ctx', xs) = visit_from visit 0 (m_size d) ctx (cells d) in (ctx', d\<lparr>cells := xs\<rparr>))"

definition d_sort :: "(int compare \<Rightarrow> nat \<Rightarrow> int list \<Rightarrow> int list run) \<Rightarrow> int compare \<Rightarrow> darray \<Rightarrow> (Ret \<times> darray) run" where
  "d_sort srt cmp d = and_then (srt cmp (m_size d) (cells d)) (\<lambda>xs. Inr (SUCCEED, d\<lparr>cells := xs\<rparr>))"

subsection \<open>The elements\<close>

definition elems :: "darray \<Rightarrow> int list" where
  "elems d = take (m_size d) (cells d)"

text \<open>
  What the operations keep: the storage has the capacity the object believes in, and there
  is a cell after the last element unless there is no element at all.
\<close>

definition wf_darray :: "darray \<Rightarrow> bool" where
  "wf_darray d \<longleftrightarrow> length (cells d) = m_length d \<and> (m_size d = 0 \<or> m_size d < m_length d)"

lemma wf_darrayD:
  assumes "wf_darray d"
  shows "length (cells d) = m_length d" "m_size d \<le> m_length d" "length (elems d) = m_size d"
  using assms by (auto simp: wf_darray_def elems_def)

lemma wf_darray_new: "wf_darray (darray_new n)" "elems (darray_new n) = []"
  by (simp_all add: wf_darray_def darray_new_def elems_def)

text \<open>An element put at a position, or at the end.\<close>

definition list_insert :: "nat \<Rightarrow> 'a \<Rightarrow> 'a list \<Rightarrow> 'a list" where
  "list_insert i x xs = take i xs @ x # drop i xs"

definition list_delete :: "nat \<Rightarrow> 'a list \<Rightarrow> 'a list" where
  "list_delete i xs = take i xs @ drop (Suc i) xs"

lemma open_gap_correct:
  assumes "index \<le> i" "i < length xs"
  shows "open_gap i index x xs = Inr (take index xs @ x # take (i - index) (drop index xs) @ drop (Suc i) xs)"
  using assms
proof (induction i index x xs rule: open_gap.induct)
  case (1 index data xs)
  then show ?case by (cases xs) auto
next
  case (2 i index data xs)
  show ?case
  proof (cases "index < Suc i")
    case True
    let ?ys = "xs[Suc i := xs ! i]"
    have "open_gap i index data ?ys
        = Inr (take index ?ys @ data # take (i - index) (drop index ?ys) @ drop (Suc i) ?ys)"
      using "2.IH"[OF True] "2.prems" True by auto
    moreover have "take index ?ys = take index xs" using True by simp
    moreover have "take (i - index) (drop index ?ys) @ drop (Suc i) ?ys
        = take (Suc i - index) (drop index xs) @ drop (Suc (Suc i)) xs"
    proof -
      have "take (i - index) (drop index ?ys) = take (i - index) (drop index xs)"
        using True by (intro nth_equalityI) auto
      moreover have "drop (Suc i) ?ys = xs ! i # drop (Suc (Suc i)) xs"
        using "2.prems" by (simp add: Cons_nth_drop_Suc[symmetric] drop_update_cancel)
      moreover have "take (Suc i - index) (drop index xs) = take (i - index) (drop index xs) @ [xs ! i]"
        using True "2.prems" by (simp add: Suc_diff_le take_Suc_conv_app_nth)
      ultimately show ?thesis by simp
    qed
    ultimately show ?thesis using True "2.prems" by simp
  next
    case False
    then have "index = Suc i" using "2.prems" by simp
    then show ?thesis using "2.prems" by (simp add: upd_conv_take_nth_drop)
  qed
qed

lemma close_gap_correct:
  assumes "i \<le> sz" "sz < length xs"
  shows "\<exists>ys. close_gap i sz xs = Inr ys \<and> length ys = length xs \<and>
    take (sz - 1) ys = take (sz - 1) (take i xs @ drop (Suc i) xs)"
  using assms
proof (induction "sz - i" arbitrary: i xs)
  case 0
  then have "i = sz" by simp
  then show ?case using 0 by (subst close_gap.simps) auto
next
  case (Suc k)
  then have i: "i < sz" by simp
  let ?zs = "xs[i := xs ! Suc i]"
  have k: "k = sz - Suc i" "Suc i \<le> sz" "sz < length ?zs" using Suc.hyps(2) Suc.prems i by simp_all
  obtain ys where ys: "close_gap (Suc i) sz ?zs = Inr ys" "length ys = length xs"
    "take (sz - 1) ys = take (sz - 1) (take (Suc i) ?zs @ drop (Suc (Suc i)) ?zs)"
    using Suc.hyps(1)[OF k] by (elim exE conjE) (simp only: length_list_update)
  have "take (Suc i) ?zs @ drop (Suc (Suc i)) ?zs = take i xs @ drop (Suc i) xs"
  proof -
    have "take (Suc i) ?zs = take i xs @ [xs ! Suc i]"
      using i Suc.prems by (simp add: take_Suc_conv_app_nth)
    moreover have "drop (Suc i) xs = xs ! Suc i # drop (Suc (Suc i)) xs"
      using i Suc.prems by (simp add: Cons_nth_drop_Suc)
    ultimately show ?thesis by simp
  qed
  then show ?case using ys i Suc.prems by (subst close_gap.simps) simp
qed

lemma reallocate_ok:
  assumes "wf_darray d" "m_size d \<le> n"
  shows "reallocate fresh n d = Inr (d\<lparr>cells := elems d @ drop (m_size d) (fresh_cells fresh n), m_length := n\<rparr>)"
  using assms wf_darrayD[OF assms(1)] by (simp add: reallocate_def elems_def not_less)

lemma make_room:
  assumes "wf_darray d"
  shows "\<exists>d'. (if need_expand d then d_expand fresh d else Inr (SUCCEED, d)) = Inr (SUCCEED, d') \<and>
    length (cells d') = m_length d' \<and> m_size d' = m_size d \<and> m_size d + 1 < m_length d' \<and> elems d' = elems d"
proof (cases "need_expand d")
  case True
  let ?n = "if m_length d < 8 then 16 else m_length d + m_length d div 2"
  note w = wf_darrayD[OF assms]
  have n: "m_size d + 1 < ?n" using w(2) by (simp, linarith)
  let ?d = "d\<lparr>cells := elems d @ drop (m_size d) (fresh_cells fresh ?n), m_length := ?n\<rparr>"
  have "d_expand fresh d = Inr (SUCCEED, ?d)"
    using reallocate_ok[OF assms, of ?n fresh] n by (simp only: d_expand_def Let_def and_then_Inr)
  moreover have "length (cells ?d) = ?n" "elems ?d = elems d"
    using n w(3) by (simp_all add: fresh_cells_def elems_def)
  ultimately show ?thesis using True n by (intro exI[of _ ?d]) simp
next
  case False
  then have "m_size d + 4 < m_length d" by (simp add: need_expand_def)
  then show ?thesis using False wf_darrayD[OF assms] by (intro exI[of _ d]) simp
qed

lemma d_insert_correct:
  assumes "wf_darray d"
  shows "\<exists>d'. d_insert fresh i x d = Inr (SUCCEED, d') \<and> wf_darray d' \<and>
    elems d' = list_insert i x (elems d) \<and> m_size d' = m_size d + 1"
proof -
  obtain d1 where d1: "(if need_expand d then d_expand fresh d else Inr (SUCCEED, d)) = Inr (SUCCEED, d1)"
    "length (cells d1) = m_length d1" "m_size d1 = m_size d" "m_size d + 1 < m_length d1" "elems d1 = elems d"
    using make_room[OF assms] by blast
  let ?n = "m_size d"
  have n: "?n < length (cells d1)" using d1 by linarith
  have el: "elems d = take ?n (cells d1)" using d1(3,5) by (simp add: elems_def)
  let ?st = "if m_size d1 \<le> i then put (cells d1) (m_size d1) x else open_gap (m_size d1) i x (cells d1)"
  have "\<exists>ys. ?st = Inr ys \<and> length ys = length (cells d1) \<and> take (Suc ?n) ys = list_insert i x (elems d)"
  proof (cases "?n \<le> i")
    case True
    have "take (Suc ?n) ((cells d1)[?n := x]) = take ?n (cells d1) @ [x]"
      using n by (simp add: take_Suc_conv_app_nth)
    then show ?thesis using True n d1(3) by (simp add: list_insert_def el)
  next
    case False
    let ?ys = "take i (cells d1) @ x # take (?n - i) (drop i (cells d1)) @ drop (Suc ?n) (cells d1)"
    have "?st = Inr ?ys" using False n d1(3) open_gap_correct[of i ?n "cells d1" x] by simp
    moreover have "length ?ys = length (cells d1)" using False n by simp
    moreover have "take (Suc ?n) ?ys = list_insert i x (elems d)"
      using False n by (simp add: list_insert_def el min_def take_drop Suc_diff_le)
    ultimately show ?thesis by blast
  qed
  then obtain ys where ys: "?st = Inr ys" "length ys = length (cells d1)"
    "take (Suc ?n) ys = list_insert i x (elems d)" by blast
  let ?d = "d1\<lparr>cells := ys, m_size := m_size d1 + 1\<rparr>"
  have "d_insert fresh i x d = Inr (SUCCEED, ?d)"
    unfolding d_insert_def d1(1) using ys(1) by (simp del: put_Inr)
  moreover have "wf_darray ?d" using ys(2) d1(2-4) by (simp add: wf_darray_def)
  moreover have "elems ?d = list_insert i x (elems d)" using ys(3) d1(3) by (simp add: elems_def)
  ultimately show ?thesis using d1(3) by auto
qed

lemma d_delete_correct:
  assumes "wf_darray d" "i < m_size d"
  shows "\<exists>d'. d_delete i d = Inr ((SUCCEED, Some (elems d ! i)), d') \<and> wf_darray d' \<and>
    elems d' = list_delete i (elems d) \<and> m_size d' = m_size d - 1"
proof -
  let ?n = "m_size d"
  note w = wf_darrayD[OF assms(1)]
  have n: "?n < length (cells d)" using assms by (simp add: wf_darray_def)
  obtain ys where ys: "close_gap i ?n (cells d) = Inr ys" "length ys = length (cells d)"
    "take (?n - 1) ys = take (?n - 1) (take i (cells d) @ drop (Suc i) (cells d))"
    using close_gap_correct[of i ?n "cells d"] assms n by auto
  let ?d = "d\<lparr>cells := ys, m_size := ?n - 1\<rparr>"
  have "d_delete i d = Inr ((SUCCEED, Some (elems d ! i)), ?d)"
    using assms(2) n ys(1) by (simp add: d_delete_def elems_def)
  moreover have "?n - 1 < m_length d" using w(1) n by linarith
  then have "wf_darray ?d" using ys(2) w by (simp add: wf_darray_def)
  moreover have "i \<le> ?n - 1" using assms(2) by linarith
  then have "elems ?d = list_delete i (elems d)"
    using ys(3) assms(2) n by (simp add: elems_def list_delete_def min_absorb2 min_absorb1 take_drop)
  ultimately show ?thesis by auto
qed

lemma find_from_correct:
  "i \<le> sz \<Longrightarrow> (\<forall>j. i \<le> j \<and> j < find_from p i sz xs \<longrightarrow> \<not> p (xs ! j)) \<and> i \<le> find_from p i sz xs \<and>
     find_from p i sz xs \<le> sz \<and> (find_from p i sz xs < sz \<longrightarrow> p (xs ! find_from p i sz xs))"
proof (induction "sz - i" arbitrary: i)
  case 0
  then have "find_from p i sz xs = i" by (subst find_from.simps) simp
  then show ?case using 0 by auto
next
  case (Suc k)
  show ?case
  proof (cases "p (xs ! i)")
    case True
    then have "find_from p i sz xs = i" by (subst find_from.simps) simp
    then show ?thesis using True Suc.prems by auto
  next
    case False
    have k: "k = sz - Suc i" "Suc i \<le> sz" using Suc.hyps(2) by linarith+
    have eq: "find_from p i sz xs = find_from p (Suc i) sz xs"
      using False k by (subst find_from.simps) simp
    note IH = Suc.hyps(1)[OF k]
    have "\<not> p (xs ! j)" if "i \<le> j" "j < find_from p (Suc i) sz xs" for j
      using IH False that by (cases "j = i") auto
    then show ?thesis unfolding eq using IH by auto
  qed
qed

subsection \<open>The contract of a sequence\<close>

text \<open>
  A store that implements insertion and deletion on a list. Every run of such operations
  then gives what it gives on the list.
\<close>

datatype seq_op = Ins nat int | Del nat

fun seq_run :: "(nat \<Rightarrow> int \<Rightarrow> 's \<Rightarrow> 's run) \<Rightarrow> (nat \<Rightarrow> 's \<Rightarrow> 's run) \<Rightarrow> seq_op list \<Rightarrow> 's \<Rightarrow> 's run" where
  "seq_run ins del [] s = Inr s"
| "seq_run ins del (Ins i x # os) s = and_then (ins i x s) (seq_run ins del os)"
| "seq_run ins del (Del i # os) s = and_then (del i s) (seq_run ins del os)"

fun seq_spec :: "seq_op list \<Rightarrow> int list \<Rightarrow> int list" where
  "seq_spec [] xs = xs"
| "seq_spec (Ins i x # os) xs = seq_spec os (list_insert i x xs)"
| "seq_spec (Del i # os) xs = seq_spec os (list_delete i xs)"

locale sequence =
  fixes ins :: "nat \<Rightarrow> int \<Rightarrow> 's \<Rightarrow> 's run"
    and del :: "nat \<Rightarrow> 's \<Rightarrow> 's run"
    and abs :: "'s \<Rightarrow> int list"
    and invar :: "'s \<Rightarrow> bool"
  assumes ins: "invar s \<Longrightarrow> \<exists>s'. ins i x s = Inr s' \<and> invar s' \<and> abs s' = list_insert i x (abs s)"
    and del: "invar s \<Longrightarrow> \<exists>s'. del i s = Inr s' \<and> invar s' \<and> abs s' = list_delete i (abs s)"
begin

lemma run_refines:
  "invar s \<Longrightarrow> \<exists>s'. seq_run ins del os s = Inr s' \<and> invar s' \<and> abs s' = seq_spec os (abs s)"
proof (induction os arbitrary: s)
  case (Cons oper os)
  show ?case
  proof (cases oper)
    case (Ins i x)
    then show ?thesis using ins[OF Cons.prems, of i x] Cons.IH by fastforce
  next
    case (Del i)
    then show ?thesis using del[OF Cons.prems, of i] Cons.IH by fastforce
  qed
qed simp

lemma insert_then_delete:
  assumes "invar s" "i \<le> length (abs s)"
  shows "\<exists>s'. seq_run ins del [Ins i x, Del i] s = Inr s' \<and> invar s' \<and> abs s' = abs s"
  using run_refines[OF assms(1), of "[Ins i x, Del i]"] assms(2)
  by (auto simp: list_insert_def list_delete_def)

end

lemma darray_delete_any:
  assumes "wf_darray d"
  shows "\<exists>d'. run_map snd (d_delete i d) = Inr d' \<and> wf_darray d' \<and> elems d' = list_delete i (elems d)"
proof (cases "i < m_size d")
  case True
  then show ?thesis using d_delete_correct[OF assms True] by auto
next
  case False
  then show ?thesis using assms wf_darrayD(3)[OF assms] by (simp add: d_delete_def list_delete_def)
qed

interpretation darray: sequence "\<lambda>i x d. run_map snd (d_insert fresh i x d)"
  "\<lambda>i d. run_map snd (d_delete i d)" elems wf_darray for fresh
proof (unfold_locales, goal_cases)
  case (1 s i x)
  then show ?case using d_insert_correct[OF 1, of fresh i x] by auto
next
  case (2 s i)
  then show ?case by (rule darray_delete_any)
qed

subsection \<open>Properties\<close>

text \<open>
  C11 A \<open>DArray\<close> created empty, of any initial length, and driven by any run of \<open>dInsert\<close> and
  \<open>dDelete\<close> calls, never faults, and its elements are those that the same run gives on a
  plain list, where an insertion beyond the end appends and a deletion beyond it does
  nothing.
\<close>

theorem darray_refines_list:
  "\<exists>d. seq_run (\<lambda>i x d. run_map snd (d_insert fresh i x d)) (\<lambda>i d. run_map snd (d_delete i d)) os (darray_new n)
       = Inr d \<and> m_size d = length (seq_spec os []) \<and> elems d = seq_spec os []"
proof -
  obtain d where d: "seq_run (\<lambda>i x d. run_map snd (d_insert fresh i x d)) (\<lambda>i d. run_map snd (d_delete i d)) os
      (darray_new n) = Inr d" "wf_darray d" "elems d = seq_spec os []"
    using darray.run_refines[OF wf_darray_new(1), of fresh os n] wf_darray_new(2) by auto
  then show ?thesis using wf_darrayD(3)[OF d(2)] by auto
qed

text \<open>
  \<open>dDelete\<close> on a dynamic array in order: of an index in range it returns \<open>SUCCEED\<close> and hands
  out the element that was there, and a later \<open>dGetByIndex\<close> finds the following elements one
  place further down; of an index out of range it returns \<open>FAILED\<close> and changes nothing.
\<close>

theorem d_delete_functional:
  assumes "wf_darray d"
  shows "(i < d_get_size d \<longrightarrow> (\<exists>d'. d_delete i d = Inr ((SUCCEED, Some (elems d ! i)), d') \<and>
      d_get_size d' = d_get_size d - 1 \<and>
      (\<forall>j < d_get_size d'. d_get_by_index j d' = d_get_by_index (if j < i then j else j + 1) d))) \<and>
    (d_get_size d \<le> i \<longrightarrow> d_delete i d = Inr ((FAILED, None), d))"
proof (intro conjI impI)
  assume i: "i < d_get_size d"
  obtain d' where d': "d_delete i d = Inr ((SUCCEED, Some (elems d ! i)), d')" "wf_darray d'"
    "elems d' = list_delete i (elems d)" "m_size d' = m_size d - 1"
    using d_delete_correct[OF assms] i by (auto simp: d_get_size_def)
  have get: "d_get_by_index j x = Inr (elems x ! j)" if "wf_darray x" "j < m_size x" for j x
    using that wf_darrayD[OF that(1)] by (simp add: d_get_by_index_def elems_def)
  have "d_get_by_index j d' = d_get_by_index (if j < i then j else j + 1) d" if j: "j < d_get_size d'" for j
  proof -
    have "elems d' ! j = elems d ! (if j < i then j else j + 1)"
      using j i d'(3,4) wf_darrayD[OF assms] by (auto simp: list_delete_def nth_append d_get_size_def)
    then show ?thesis using get[OF d'(2)] get[OF assms] j i d'(4) by (auto simp: d_get_size_def)
  qed
  then show "\<exists>d'. d_delete i d = Inr ((SUCCEED, Some (elems d ! i)), d') \<and> d_get_size d' = d_get_size d - 1 \<and>
      (\<forall>j < d_get_size d'. d_get_by_index j d' = d_get_by_index (if j < i then j else j + 1) d)"
    using d' by (auto simp: d_get_size_def)
qed (simp add: d_delete_def d_get_size_def)

definition demo_darray :: darray where
  "demo_darray = \<lparr>cells = [5, 6, 7, 0], m_length = 4, m_size = 3\<rparr>"

lemma d_delete_functional_witness:
  "\<exists>d'. d_delete 1 demo_darray = Inr ((SUCCEED, Some 6), d') \<and> d_get_size d' = 2 \<and> d_get_by_index 1 d' = Inr 7"
proof -
  have "wf_darray demo_darray" by (simp add: wf_darray_def demo_darray_def)
  from d_delete_functional[OF this, of 1] show ?thesis
    by (force simp: demo_darray_def d_get_size_def elems_def d_get_by_index_def)
qed

text \<open>
  C19 \<open>DArray::dSort\<close> with \<open>selectSort\<close>, \<open>bubbleSort\<close>, \<open>insertSort\<close>, \<open>shellSort\<close> or \<open>quickSort\<close> and
  "greater" as the callback: the elements come out in ascending order, the same elements as
  before, and the number of elements and the capacity stay.
\<close>

theorem d_sort_correct:
  assumes "wf_darray d" "f \<in> {select_sort, bubble_sort, insert_sort, shell_sort, quick_sort}"
  shows "\<exists>d'. d_sort (\<lambda>cmp n xs. Inr (f cmp n xs)) (\<lambda>a b. a > b) d = Inr (SUCCEED, d') \<and>
    elems d' = sort (elems d) \<and> m_size d' = m_size d \<and> wf_darray d'"
proof -
  have "sorter f"
    using assms(2) select_sort_sorter bubble_sort_sorter insert_sort_sorter shell_sort_sorter quick_sort_sorter
    by auto
  moreover note w = wf_darrayD[OF assms(1)]
  ultimately have "f (\<lambda>a b. a > b) (m_size d) (cells d) = sort (elems d) @ drop (m_size d) (cells d)"
    using sorter_sort[of f "m_size d" "cells d"] by (simp add: elems_def)
  moreover have "length (sort (elems d) @ drop (m_size d) (cells d)) = length (cells d)"
    using w by simp
  ultimately show ?thesis using w assms(1) by (simp add: d_sort_def elems_def wf_darray_def)
qed

lemma d_sort_correct_witness:
  "\<exists>d'. d_sort (\<lambda>cmp n xs. Inr (quick_sort cmp n xs)) (\<lambda>a b. a > b) (demo_darray\<lparr>cells := [7, 5, 6, 0]\<rparr>)
     = Inr (SUCCEED, d') \<and> elems d' = [5, 6, 7]"
proof -
  have "wf_darray (demo_darray\<lparr>cells := [7, 5, 6, 0]\<rparr>)" by (simp add: wf_darray_def demo_darray_def)
  from d_sort_correct[OF this, of quick_sort] show ?thesis
    by (auto simp: elems_def demo_darray_def)
qed

text \<open>
  A \<open>DArray\<close> made by the copying constructor has no spare cell: if it is not empty, any
  \<open>dDelete\<close> of an index in range reads the cell past its storage.
\<close>

theorem copied_darray_delete_overrun:
  assumes "darray_copy src n = Inr d" "i < n"
  shows "d_delete i d = Inl Out_Of_Bounds"
proof -
  have d: "cells d = take n src" "m_size d = n" "length (cells d) = n"
    using assms by (auto simp: darray_copy_def split: if_splits)
  have "close_gap i n xs = Inl Out_Of_Bounds" if "length xs = n" "i < n" for xs i
    using that
  proof (induction "n - i" arbitrary: i xs)
    case (Suc k)
    show ?case
    proof (cases "Suc i < n")
      case True
      have k: "k = n - Suc i" using Suc.hyps(2) by linarith
      from Suc.hyps(1)[OF k, of "xs[i := xs ! Suc i]"] show ?thesis
        using True Suc.prems by (subst close_gap.simps) simp
    qed (use Suc.prems in \<open>subst close_gap.simps, simp\<close>)
  qed simp
  from this[OF d(3) assms(2)] show ?thesis using d assms(2) by (simp add: d_delete_def)
qed

lemma copied_darray_delete_overrun_witness:
  "d_delete 0 \<lparr>cells = [1, 2], m_length = 2, m_size = 2\<rparr> = Inl Out_Of_Bounds"
  by (rule copied_darray_delete_overrun[of "[1, 2, 3]" 2]) (simp_all add: darray_copy_def)

end
