(* ===== verification/Net_Buffer.thy ===== *)
theory Net_Buffer
  imports Prelude
begin

unbundle bit_operations_syntax

text \<open>
  Framing of messages on a connection: \<open>common/BufferManager.h\<close>,
  \<open>common/BufferManager.cpp\<close>, the message header of \<open>common/BaseHeader.h\<close> and the encoding
  in \<open>TCPAgent::send_data\<close>. A socket is what the successive system calls will answer: the
  segments of data that arrive (a read of fewer bytes leaves the rest for the next one),
  \<open>EWOULDBLOCK\<close>, \<open>EINTR\<close>, the end of the stream, another error. Buffers on the heap are
  numbered; \<open>freed\<close> records what is released. Callbacks are recorded in the order in which
  they are made.
\<close>

type_synonym byte = "8 word"

record msg_header =
  cmd :: u32
  len :: u32
  error :: u32
  para1 :: u32
  para2 :: u32

definition HEADER_SIZE :: u32 where
  "HEADER_SIZE = 20"

text \<open>
  The code copies a \<open>struct MsgHeader\<close> to and from a buffer of characters with \<open>memcpy\<close>. What that
  does is not in its sources but in the representation of the structure in memory, here that of
  the platform the code is built for: five words of 32 bits without padding, the least
  significant byte of each first.
\<close>

definition le_bytes :: "u32 \<Rightarrow> byte list" where
  "le_bytes w = [ucast w, ucast (drop_bit 8 w), ucast (drop_bit 16 w), ucast (drop_bit 24 w)]"

definition le_word :: "byte list \<Rightarrow> u32" where
  "le_word bs = ucast (bs ! 0) OR push_bit 8 (ucast (bs ! 1)) OR push_bit 16 (ucast (bs ! 2))
     OR push_bit 24 (ucast (bs ! 3))"

definition header_bytes :: "msg_header \<Rightarrow> byte list" where
  "header_bytes h = le_bytes (cmd h) @ le_bytes (len h) @ le_bytes (error h) @ le_bytes (para1 h)
     @ le_bytes (para2 h)"

definition header_of :: "byte list \<Rightarrow> msg_header" where
  "header_of bs = \<lparr>cmd = le_word (take 4 bs), len = le_word (take 4 (drop 4 bs)),
     error = le_word (take 4 (drop 8 bs)), para1 = le_word (take 4 (drop 12 bs)),
     para2 = le_word (take 4 (drop 16 bs))\<rparr>"

subsection \<open>The socket\<close>

datatype segment = Data "byte list" | Would_Block | Interrupted | Closed | Broken

datatype answer = Got "byte list" | Again | Intr | Eof | Failure

fun sock_read :: "nat \<Rightarrow> segment list \<Rightarrow> answer \<times> segment list" where
  "sock_read n [] = (Again, [])"
| "sock_read n (Data bs # ss) =
     (if length bs \<le> n then (Got bs, ss) else (Got (take n bs), Data (drop n bs) # ss))"
| "sock_read n (Would_Block # ss) = (Again, ss)"
| "sock_read n (Interrupted # ss) = (Intr, ss)"
| "sock_read n (Closed # ss) = (Eof, Closed # ss)"
| "sock_read n (Broken # ss) = (Failure, ss)"

subsection \<open>The state\<close>

record iov_req =
  iov_base :: "nat option"
  iov_data :: "byte list"
  mComplete :: bool
  mTask :: "nat option"

record in_req =
  m_msgHeader :: "byte list"
  ioBuf :: "byte list option"

datatype event =
    Read_Back msg_header "byte list option"
  | Write_Back "nat option" bool

record bufmgr =
  mIovList :: "iov_req list"
  mLastIov :: "nat option"
  m_Agent :: bool
  m_iOffset :: u32
  m_iLen :: u32
  m_bReadHead :: bool
  m_bInit :: bool
  m_InReq :: in_req
  freed :: "nat list"
  events :: "event list"

definition new_bufmgr :: bufmgr where
  "new_bufmgr = \<lparr>mIovList = [], mLastIov = None, m_Agent = False, m_iOffset = 0, m_iLen = 0,
     m_bReadHead = True, m_bInit = True, m_InReq = \<lparr>m_msgHeader = replicate 20 0, ioBuf = None\<rparr>,
     freed = [], events = []\<rparr>"

definition set_agent :: "bufmgr \<Rightarrow> bufmgr" where
  "set_agent b = b\<lparr>m_Agent := True\<rparr>"

definition write_dynamic :: "nat \<Rightarrow> byte list \<Rightarrow> nat option \<Rightarrow> bufmgr \<Rightarrow> int \<times> bufmgr" where
  "write_dynamic buffer data task b =
     (0, b\<lparr>mIovList := mIovList b @ [\<lparr>iov_base = Some buffer, iov_data = data, mComplete = True, mTask = task\<rparr>]\<rparr>)"

definition get_length :: "bufmgr \<Rightarrow> nat" where
  "get_length b = length (mIovList b)"

definition free_iov :: "iov_req \<Rightarrow> nat list" where
  "free_iov v = (if mComplete v then (case iov_base v of None \<Rightarrow> [] | Some p \<Rightarrow> [p]) else [])"

definition free_last :: "bufmgr \<Rightarrow> nat list" where
  "free_last b = (case mLastIov b of None \<Rightarrow> [] | Some p \<Rightarrow> [p])"

text \<open>\<open>clear\<close>; the destructor does the same. The state of the reader is not touched.\<close>

definition clear :: "bufmgr \<Rightarrow> int \<times> bufmgr" where
  "clear b = (0, b\<lparr>freed := freed b @ concat (map free_iov (mIovList b)) @ free_last b,
     mIovList := [], mLastIov := None\<rparr>)"

subsection \<open>Writing\<close>

text \<open>What \<open>writev\<close> answers: a number of bytes, \<open>EINTR\<close>, \<open>EWOULDBLOCK\<close>, another error.\<close>

datatype wanswer = Wrote nat | W_Intr | W_Block | W_Error

text \<open>
  The loop around \<open>writev\<close> calls it again after \<open>EINTR\<close> and after \<open>EWOULDBLOCK\<close>; \<open>None\<close> when
  no other answer ever comes.
\<close>

fun writev_loop :: "wanswer list \<Rightarrow> (wanswer \<times> wanswer list) option" where
  "writev_loop [] = None"
| "writev_loop (W_Intr # ws) = writev_loop ws"
| "writev_loop (W_Block # ws) = writev_loop ws"
| "writev_loop (w # ws) = Some (w, ws)"

text \<open>\<open>handleWriteError\<close>: every entry is told; without a task and an agent nobody is.\<close>

definition handle_write_error :: "bufmgr \<Rightarrow> bufmgr" where
  "handle_write_error b = b\<lparr>events := events b @
     concat (map (\<lambda>v. if mTask v \<noteq> None \<or> m_Agent b then [Write_Back (mTask v) False] else []) (mIovList b))\<rparr>"

text \<open>
  The loop that takes \<open>ret\<close> written bytes off the list; \<open>False\<close> when it ends in the early
  return for an entry that has neither a task nor an agent.
\<close>

fun take_written :: "nat \<Rightarrow> iov_req list \<Rightarrow> bufmgr \<Rightarrow> bool \<times> bufmgr" where
  "take_written ret [] b = (True, b\<lparr>mIovList := []\<rparr>)"
| "take_written ret (v # vs) b =
     (if ret = 0 then (True, b\<lparr>mIovList := v # vs\<rparr>)
      else if length (iov_data v) \<le> ret then
        let b1 = (if mComplete v then b\<lparr>freed := freed b @ free_iov v\<rparr>
                  else b\<lparr>freed := freed b @ free_last b, mLastIov := None\<rparr>)
        in if mTask v \<noteq> None \<or> m_Agent b
           then take_written (ret - length (iov_data v)) vs (b1\<lparr>events := events b1 @ [Write_Back (mTask v) True]\<rparr>)
           else (False, b1\<lparr>mIovList := (if mComplete v then v\<lparr>iov_base := None\<rparr> else v) # vs\<rparr>)
      else (True, b\<lparr>mLastIov := (if mComplete v then iov_base v else mLastIov b),
                    mIovList := v\<lparr>mComplete := False, iov_data := drop ret (iov_data v)\<rparr> # vs\<rparr>))"

definition buf_write :: "wanswer list \<Rightarrow> bufmgr \<Rightarrow> (int \<times> bufmgr \<times> wanswer list) option" where
  "buf_write ws b = (case writev_loop ws of
       None \<Rightarrow> None
     | Some (Wrote n, ws') \<Rightarrow>
         let (ok, b') = take_written n (mIovList b) b in Some (if ok then int n else - 1, b', ws')
     | Some (_, ws') \<Rightarrow> Some (- 1, handle_write_error b, ws'))"

subsection \<open>Reading\<close>

text \<open>Storing what a read returned at an offset of a buffer.\<close>

definition store :: "byte list \<Rightarrow> nat \<Rightarrow> byte list \<Rightarrow> byte list run" where
  "store buf off bs =
     (if length buf < off + length bs then Inl Out_Of_Bounds
      else Inr (take off buf @ bs @ drop (off + length bs) buf))"

definition read_init :: "bufmgr \<Rightarrow> bufmgr" where
  "read_init b = (if m_bInit b
     then b\<lparr>m_InReq := \<lparr>m_msgHeader = replicate 20 0, ioBuf = None\<rparr>, m_bInit := False, m_iLen := HEADER_SIZE\<rparr>
     else b)"

text \<open>How a phase of \<open>read\<close> ends: with a return value, or by going on to the next phase.\<close>

datatype phase = Return int | Continue

definition read_head :: "bufmgr \<Rightarrow> segment list \<Rightarrow> (phase \<times> bufmgr \<times> segment list) run" where
  "read_head b sock = (let (a, sock') = sock_read (unat (HEADER_SIZE - m_iOffset b)) sock in
     case a of
       Again \<Rightarrow> Inr (Return 0, b, sock')
     | Intr \<Rightarrow> Inr (Return 0, b, sock')
     | Failure \<Rightarrow> Inr (Return (- 1), b, sock')
     | Eof \<Rightarrow> Inr (Return (- 1), b, sock')
     | Got bs \<Rightarrow>
         if bs = [] then Inr (Return (- 1), b, sock')
         else and_then (store (m_msgHeader (m_InReq b)) (unat (m_iOffset b)) bs) (\<lambda>hdr.
           let b1 = b\<lparr>m_InReq := (m_InReq b)\<lparr>m_msgHeader := hdr\<rparr>, m_iOffset := m_iOffset b + of_nat (length bs)\<rparr>
           in if m_iOffset b1 \<noteq> HEADER_SIZE then Inr (Continue, b1, sock')
              else let n = len (header_of hdr); b2 = b1\<lparr>m_iOffset := 0, m_iLen := n\<rparr> in
                if 0 < n then
                  Inr (Continue, b2\<lparr>m_InReq := (m_InReq b2)\<lparr>ioBuf := Some (replicate (unat (n + 1)) 0)\<rparr>,
                         m_bReadHead := False\<rparr>, sock')
                else
                  let b3 = (if m_Agent b2 then b2\<lparr>events := events b2 @ [Read_Back (header_of hdr) (ioBuf (m_InReq b2))],
                              m_bInit := True\<rparr> else b2)
                  in Inr (Return 0, b3\<lparr>m_bReadHead := True\<rparr>, sock')))"

definition read_body :: "bufmgr \<Rightarrow> segment list \<Rightarrow> (phase \<times> bufmgr \<times> segment list) run" where
  "read_body b sock = (let (a, sock') = sock_read (unat (m_iLen b - m_iOffset b)) sock in
     case a of
       Again \<Rightarrow> Inr (Return 0, b, sock')
     | Intr \<Rightarrow> Inr (Return 0, b, sock')
     | Failure \<Rightarrow> Inr (Return (- 1), b, sock')
     | Eof \<Rightarrow> Inr (Return (- 1), b, sock')
     | Got bs \<Rightarrow>
         if bs = [] then Inr (Return (- 1), b, sock')
         else and_then (case ioBuf (m_InReq b) of None \<Rightarrow> Inl Null_Deref | Some buf \<Rightarrow> store buf (unat (m_iOffset b)) bs)
           (\<lambda>buf.
             let off = m_iOffset b + of_nat (length bs);
                 b1 = b\<lparr>m_InReq := (m_InReq b)\<lparr>ioBuf := Some buf\<rparr>, m_iOffset := off\<rparr>
             in if off \<noteq> m_iLen b then Inr (Continue, b1, sock')
                else and_then (store buf (unat (m_iLen b)) [0]) (\<lambda>buf'.
                  let b2 = b1\<lparr>m_iOffset := 0, m_iLen := 0, m_bReadHead := True\<rparr>;
                      b3 = (if m_Agent b2 then b2\<lparr>events := events b2 @
                              [Read_Back (header_of (m_msgHeader (m_InReq b))) (Some buf')], m_bInit := True\<rparr> else b2)
                  in Inr (Return 0, b3\<lparr>m_InReq := (m_InReq b)\<lparr>ioBuf := None\<rparr>\<rparr>, sock'))))"

definition buf_read :: "bufmgr \<Rightarrow> segment list \<Rightarrow> (int \<times> bufmgr \<times> segment list) run" where
  "buf_read b0 sock0 =
     (let b = read_init b0 in
      and_then (if m_bReadHead b then read_head b sock0 else Inr (Continue, b, sock0)) (\<lambda>(p, b1, sock1).
        case p of Return r \<Rightarrow> Inr (r, b1, sock1)
        | Continue \<Rightarrow>
            and_then (if m_bReadHead b1 then Inr (Continue, b1, sock1) else read_body b1 sock1) (\<lambda>(p, b2, sock2).
              case p of Return r \<Rightarrow> Inr (r, b2, sock2)
              | Continue \<Rightarrow> Inr (sint (m_iLen b2 - m_iOffset b2), b2, sock2))))"

subsection \<open>Sending a message\<close>

text \<open>
  The characters \<open>TCPAgent::send_data\<close> copies into its buffer: the length field has 32 bits, and so
  many characters of the data are copied.
\<close>

definition message_bytes :: "u32 \<Rightarrow> u32 \<Rightarrow> u32 \<Rightarrow> u32 \<Rightarrow> byte list \<Rightarrow> byte list" where
  "message_bytes c err p1 p2 data = (let n = of_nat (length data) :: u32 in
     header_bytes \<lparr>cmd = c, len = n, error = err, para1 = p1, para2 = p2\<rparr> @ take (unat n) data)"

end
