(* ===== verification/Net_Buffer_Correct.thy ===== *)
theory Net_Buffer_Correct
  imports Net_Buffer
begin

text \<open>
  What the framing layer promises: however the bytes of
  a sequence of messages are cut into segments, the reader hands up exactly these messages,
  in order; the writer keeps the byte stream and the order of the completions, and frees
  every buffer once.
\<close>

subsection \<open>The header in memory\<close>

lemma le_word_le_bytes [simp]: "le_word (le_bytes w) = w"
proof (rule bit_word_eqI)
  fix n assume n: "n < LENGTH(32)"
  then consider "n < 8" | "8 \<le> n" "n < 16" | "16 \<le> n" "n < 24" | "24 \<le> n" "n < 32" by (auto, linarith)
  then show "bit (le_word (le_bytes w)) n = bit w n"
    by cases (auto simp: le_word_def le_bytes_def bit_simps)
qed

lemma le_bytes_le_word:
  assumes "length bs = 4"
  shows "le_bytes (le_word bs) = bs"
proof -
  obtain a b c d where bs: "bs = [a, b, c, d]"
    using assms by (auto simp: length_Suc_conv numeral_eq_Suc)
  have "ucast (le_word bs) = a" "ucast (drop_bit 8 (le_word bs)) = b"
    "ucast (drop_bit 16 (le_word bs)) = c" "ucast (drop_bit 24 (le_word bs)) = d"
    by (rule bit_word_eqI, auto simp: bs le_word_def bit_simps dest: bit_imp_le_length)+
  then show ?thesis by (simp add: le_bytes_def bs)
qed

lemma length_le_bytes [simp]: "length (le_bytes w) = 4"
  by (simp add: le_bytes_def)

lemma length_header_bytes [simp]: "length (header_bytes h) = 20"
  by (simp add: header_bytes_def)

lemma header_of_bytes [simp]: "header_of (header_bytes h) = h"
  by (simp add: header_of_def header_bytes_def)

lemma header_bytes_of:
  assumes "length bs = 20"
  shows "header_bytes (header_of bs) = bs"
proof -
  have q: "le_bytes (le_word (take 4 (drop i bs))) = take 4 (drop i bs)" if "i \<le> 16" for i
    using assms that by (intro le_bytes_le_word) simp
  have "header_bytes (header_of bs)
      = take 4 bs @ take 4 (drop 4 bs) @ take 4 (drop 8 bs) @ take 4 (drop 12 bs) @ take 4 (drop 16 bs)"
    using q[of 0] q[of 4] q[of 8] q[of 12] q[of 16] by (simp add: header_bytes_def header_of_def)
  also have "\<dots> = take 20 bs"
    by (simp add: take_add[of 4 4 bs, simplified] take_add[of 8 4 bs, simplified]
        take_add[of 12 4 bs, simplified] take_add[of 16 4 bs, simplified])
  finally show ?thesis using assms by simp
qed

subsection \<open>Messages and segments\<close>

type_synonym message = "msg_header \<times> byte list"

definition encode :: "message \<Rightarrow> byte list" where
  "encode m = header_bytes (fst m) @ snd m"

text \<open>A length field that tells the truth and stays below the sign bit of the result of \<open>read\<close>.\<close>

definition wf_message :: "message \<Rightarrow> bool" where
  "wf_message m \<longleftrightarrow> unat (len (fst m)) = length (snd m) \<and> length (snd m) < 2 ^ 31"

definition deliver :: "message \<Rightarrow> event" where
  "deliver m = Read_Back (fst m) (if snd m = [] then None else Some (snd m @ [0]))"

fun flat :: "segment list \<Rightarrow> byte list" where
  "flat [] = []"
| "flat (Data bs # ss) = bs @ flat ss"
| "flat (s # ss) = flat ss"

text \<open>Segments of data only, none of them empty.\<close>

definition clean :: "segment list \<Rightarrow> bool" where
  "clean ss \<longleftrightarrow> (\<forall>s \<in> set ss. \<exists>bs. s = Data bs \<and> bs \<noteq> [])"

lemma clean_Nil [simp]: "clean []"
  by (simp add: clean_def)

lemma clean_Cons [simp]: "clean (s # ss) \<longleftrightarrow> (\<exists>bs. s = Data bs \<and> bs \<noteq> []) \<and> clean ss"
  by (auto simp: clean_def)

lemma flat_eq_Nil: "clean ss \<Longrightarrow> flat ss = [] \<longleftrightarrow> ss = []"
  by (cases ss) auto

lemma sock_read_clean:
  assumes "clean ss" "ss \<noteq> []" "0 < n"
  shows "\<exists>got ss'. sock_read n ss = (Got got, ss') \<and> got \<noteq> [] \<and> length got \<le> n \<and>
    flat ss = got @ flat ss' \<and> clean ss'"
proof -
  obtain bs ss0 where "ss = Data bs # ss0" "bs \<noteq> []" "clean ss0" using assms by (cases ss) auto
  then show ?thesis using assms(3) by (cases "length bs \<le> n") auto
qed

subsection \<open>The reader\<close>

definition idle :: "bufmgr \<Rightarrow> bool" where
  "idle b \<longleftrightarrow> m_Agent b \<and> m_bInit b \<and> m_bReadHead b \<and> m_iOffset b = 0"

text \<open>Reading the header, with the bytes \<open>pend\<close> of it already in.\<close>

definition in_head :: "bufmgr \<Rightarrow> byte list \<Rightarrow> bool" where
  "in_head b pend \<longleftrightarrow> m_Agent b \<and> m_iLen b = HEADER_SIZE \<and> \<not> m_bInit b \<and> m_bReadHead b \<and> ioBuf (m_InReq b) = None \<and>
     length (m_msgHeader (m_InReq b)) = 20 \<and> unat (m_iOffset b) = length pend \<and> length pend < 20 \<and>
     take (length pend) (m_msgHeader (m_InReq b)) = pend"

text \<open>Reading the body, of \<open>n\<close> bytes; \<open>part\<close> of it is in.\<close>

definition in_body :: "bufmgr \<Rightarrow> byte list \<Rightarrow> nat \<Rightarrow> byte list \<Rightarrow> bool" where
  "in_body b hdr n part \<longleftrightarrow> m_Agent b \<and> \<not> m_bInit b \<and> \<not> m_bReadHead b \<and>
     m_msgHeader (m_InReq b) = hdr \<and> length hdr = 20 \<and> unat (m_iLen b) = n \<and> n < 2 ^ 31 \<and>
     len (header_of hdr) = m_iLen b \<and>
     unat (m_iOffset b) = length part \<and> length part < n \<and>
     (\<exists>buf. ioBuf (m_InReq b) = Some buf \<and> length buf = n + 1 \<and> take (length part) buf = part)"

definition reading :: "bufmgr \<Rightarrow> byte list \<Rightarrow> bool" where
  "reading b pend \<longleftrightarrow> (idle b \<and> pend = []) \<or> (in_head b pend \<and> pend \<noteq> []) \<or>
     (\<exists>hdr n part. in_body b hdr n part \<and> pend = hdr @ part)"

lemma store_ok:
  assumes "off + length bs \<le> length buf" "take off buf = pre"
  shows "\<exists>buf'. store buf off bs = Inr buf' \<and> length buf' = length buf \<and>
    take (off + length bs) buf' = pre @ bs"
proof -
  have "length pre = off" using assms by auto
  then show ?thesis using assms by (simp add: store_def not_less)
qed

lemma read_body_step:
  assumes "in_body b hdr n part" "clean ss"
    and msg: "hdr @ part @ flat ss = encode m @ rest" and wf: "wf_message m" "length (snd m) = n"
  shows "\<exists>p b' ss'. read_body b ss = Inr (p, b', ss') \<and> clean ss' \<and>
    (ss = [] \<and> p = Return 0 \<and> b' = b \<and> ss' = [] \<or>
     ss \<noteq> [] \<and> p = Return 0 \<and> idle b' \<and> events b' = events b @ [deliver m] \<and> flat ss' = rest \<or>
     ss \<noteq> [] \<and> p = Continue \<and> events b' = events b \<and>
       (\<exists>got. got \<noteq> [] \<and> in_body b' hdr n (part @ got) \<and> flat ss = got @ flat ss'))"
proof (cases "ss = []")
  case True
  then show ?thesis by (simp add: read_body_def)
next
  case False
  obtain buf where buf: "ioBuf (m_InReq b) = Some buf" "length buf = n + 1" "take (length part) buf = part"
    and st: "m_Agent b" "\<not> m_bInit b" "\<not> m_bReadHead b" "m_msgHeader (m_InReq b) = hdr" "length hdr = 20"
      "unat (m_iLen b) = n" "n < 2 ^ 31" "unat (m_iOffset b) = length part" "length part < n"
      "len (header_of hdr) = m_iLen b"
    using assms(1) by (auto simp: in_body_def)
  have hdr: "hdr = header_bytes (fst m)" and body: "part @ flat ss = snd m @ rest"
    using msg st(5) by (auto simp: encode_def append_eq_append_conv)
  have room: "unat (m_iLen b - m_iOffset b) = n - length part"
    using st by (simp add: unat_sub word_le_nat_alt)
  obtain got ss' where got: "sock_read (n - length part) ss = (Got got, ss')" "got \<noteq> []"
    "length got \<le> n - length part" "flat ss = got @ flat ss'" "clean ss'"
    using sock_read_clean[OF assms(2) False, of "n - length part"] st(9) by auto
  have "length part + length got \<le> length buf" using got(3) st(9) buf(2) by linarith
  from store_ok[OF this buf(3)]
  obtain buf' where buf': "store buf (length part) got = Inr buf'" "length buf' = n + 1"
    "take (length part + length got) buf' = part @ got" using buf(2) by auto
  have off: "unat (m_iOffset b + of_nat (length got)) = length part + length got"
    using st got(3) by (simp add: unat_word_ariths unat_of_nat)
  define b1 where "b1 = b\<lparr>m_InReq := (m_InReq b)\<lparr>ioBuf := Some buf'\<rparr>, m_iOffset := m_iOffset b + of_nat (length got)\<rparr>"
  show ?thesis
  proof (cases "length part + length got = n")
    case False
    then have ne: "m_iOffset b + of_nat (length got) \<noteq> m_iLen b" using off st(6) by auto
    have "read_body b ss = Inr (Continue, b1, ss')"
      using room got(1,2) buf(1) buf'(1) ne st by (simp add: read_body_def b1_def Let_def)
    moreover have "in_body b1 hdr n (part @ got)"
      using st off got(3) buf'(2,3) False by (simp add: in_body_def b1_def)
    ultimately show ?thesis using got \<open>ss \<noteq> []\<close> by (auto simp: b1_def)
  next
    case True
    then have eq: "m_iOffset b + of_nat (length got) = m_iLen b" using off st(6) by (simp add: word_unat_eq_iff)
    have "(part @ got) @ flat ss' = snd m @ rest" using body got(4) by simp
    moreover have "length (part @ got) = length (snd m)" using True wf(2) by simp
    ultimately have full: "part @ got = snd m" "flat ss' = rest"
      using append_eq_append_conv by blast+
    have "store buf' n [0] = Inr (snd m @ [0])"
      using buf'(2,3) True full(1) by (simp add: store_def)
    moreover have "snd m \<noteq> []" using wf(2) st(9) by auto
    ultimately show ?thesis
      using room got(1,2,5) buf(1) buf'(1) eq st hdr full \<open>ss \<noteq> []\<close>
      by (simp add: read_body_def Let_def idle_def deliver_def)
  qed
qed

lemma read_head_step:
  assumes "in_head b pend" "clean ss" "ss \<noteq> []"
    and msg: "pend @ flat ss = encode m @ rest" and wf: "wf_message m"
  shows "\<exists>p b' ss'. read_head b ss = Inr (p, b', ss') \<and> clean ss' \<and> length (flat ss') < length (flat ss) \<and>
    (p = Return 0 \<and> idle b' \<and> events b' = events b @ [deliver m] \<and> flat ss' = rest \<or>
     p = Continue \<and> events b' = events b \<and>
       (\<exists>pend'. in_head b' pend' \<and> pend' \<noteq> [] \<and> pend' @ flat ss' = encode m @ rest) \<or>
     p = Continue \<and> events b' = events b \<and>
       (\<exists>hdr. in_body b' hdr (length (snd m)) [] \<and> hdr @ flat ss' = encode m @ rest))"
proof -
  let ?h = "m_msgHeader (m_InReq b)"
  have st: "m_Agent b" "\<not> m_bInit b" "m_bReadHead b" "ioBuf (m_InReq b) = None" "length ?h = 20"
    "unat (m_iOffset b) = length pend" "length pend < 20" "take (length pend) ?h = pend" "m_iLen b = HEADER_SIZE"
    using assms(1) by (auto simp: in_head_def)
  have room: "unat (HEADER_SIZE - m_iOffset b) = 20 - length pend"
    using st by (simp add: HEADER_SIZE_def unat_sub word_le_nat_alt)
  obtain got ss' where got: "sock_read (20 - length pend) ss = (Got got, ss')" "got \<noteq> []"
    "length got \<le> 20 - length pend" "flat ss = got @ flat ss'" "clean ss'"
    using sock_read_clean[OF assms(2,3), of "20 - length pend"] st(7) by auto
  have "length pend + length got \<le> length ?h" using got(3) st(5,7) by linarith
  from store_ok[OF this st(8)]
  obtain h' where h': "store ?h (length pend) got = Inr h'" "length h' = 20"
    "take (length pend + length got) h' = pend @ got" using st(5) by auto
  have off: "unat (m_iOffset b + of_nat (length got)) = length pend + length got"
    using st got(3) by (simp add: unat_word_ariths unat_of_nat)
  have short: "length (flat ss') < length (flat ss)" using got(2,4) by simp
  show ?thesis
  proof (cases "length pend + length got = 20")
    case False
    then have ne: "m_iOffset b + of_nat (length got) \<noteq> HEADER_SIZE"
      using off by (auto simp: HEADER_SIZE_def)
    let ?b = "b\<lparr>m_InReq := (m_InReq b)\<lparr>m_msgHeader := h'\<rparr>, m_iOffset := m_iOffset b + of_nat (length got)\<rparr>"
    have "read_head b ss = Inr (Continue, ?b, ss')"
      using room got(1,2) h'(1) ne st by (simp add: read_head_def Let_def)
    moreover have "in_head ?b (pend @ got)"
      using st off got(3) h'(2,3) False by (simp add: in_head_def)
    moreover have "(pend @ got) @ flat ss' = encode m @ rest" "pend @ got \<noteq> []" using msg got(2,4) by simp_all
    ultimately show ?thesis using got(5) short
      by (intro exI[of _ Continue] exI[of _ ?b] exI[of _ ss']) auto
  next
    case True
    then have eq: "m_iOffset b + of_nat (length got) = HEADER_SIZE"
      using off by (simp add: word_unat_eq_iff HEADER_SIZE_def)
    have pg: "pend @ got = h'" using h'(2,3) True by simp
    have "h' @ flat ss' = header_bytes (fst m) @ snd m @ rest"
      unfolding pg[symmetric] using msg got(4) by (simp add: encode_def)
    then have hdr: "h' = header_bytes (fst m)" and body: "flat ss' = snd m @ rest"
      using h'(2) by (auto simp: append_eq_append_conv)
    have n: "unat (len (fst m)) = length (snd m)" "length (snd m) < 2 ^ 31" using wf by (auto simp: wf_message_def)
    show ?thesis
    proof (cases "snd m = []")
      case True
      then have z: "len (fst m) = 0" using n(1) by (simp add: unat_eq_zero)
      show ?thesis
        using room got(1,2,5) h'(1) eq st hdr body short True z
        by (simp add: read_head_def Let_def idle_def deliver_def)
    next
      case False
      then have pos: "0 < len (fst m)" using n(1) by (metis length_0_conv unat_0 word_neq_0_conv)
      have sz: "unat (len (fst m) + 1) = length (snd m) + 1"
        using n by (simp add: unat_word_ariths)
      let ?b = "b\<lparr>m_InReq := \<lparr>m_msgHeader = h', ioBuf = Some (replicate (unat (len (fst m) + 1)) 0)\<rparr>,
        m_iOffset := 0, m_iLen := len (fst m), m_bReadHead := False\<rparr>"
      have "read_head b ss = Inr (Continue, ?b, ss')"
        using room got(1,2) h'(1) eq st hdr pos by (simp add: read_head_def Let_def)
      moreover have "len (header_of h') = len (fst m)" using hdr by simp
      then have "in_body ?b h' (length (snd m)) []"
        using st n sz h'(2) False by (simp add: in_body_def)
      moreover have "h' @ flat ss' = encode m @ rest" using hdr body by (simp add: encode_def)
      ultimately show ?thesis using got(5) short
        by (intro exI[of _ Continue] exI[of _ ?b] exI[of _ ss']) auto
    qed
  qed
qed

lemma sint_small:
  fixes w :: u32
  assumes "unat w < 2 ^ 31"
  shows "0 \<le> sint w"
proof -
  have "int (unat w) < 2 ^ 31" using assms by (subst of_nat_less_numeral_power_cancel_iff)
  then have "uint w < 2 ^ 31" by (simp only: uint_nat)
  moreover have "- (2 ^ 31) \<le> uint w" by (rule order_trans[OF _ uint_ge_0]) simp
  ultimately have "signed_take_bit (LENGTH(32) - Suc 0) (uint w) = uint w"
    by (intro signed_take_bit_int_eq_self) simp_all
  then show ?thesis unfolding sint_uint by (simp only: uint_ge_0)
qed

lemma in_body_step:
  assumes "in_body b hdr n part" "clean ss" "hdr @ part @ flat ss = encode m @ rest" "wf_message m"
    "length (snd m) = n"
  shows "\<exists>p b' ss'. read_body b ss = Inr (p, b', ss') \<and> clean ss' \<and> length (flat ss') \<le> length (flat ss) \<and>
    (ss \<noteq> [] \<longrightarrow> length (flat ss') < length (flat ss)) \<and>
    (p = Return 0 \<or> p = Continue \<and> 0 \<le> sint (m_iLen b' - m_iOffset b')) \<and> \<not> (p = Continue \<and> m_bReadHead b') \<and>
    (\<exists>pend'. reading b' pend' \<and>
      (events b' = events b \<and> pend' @ flat ss' = encode m @ rest \<or>
       events b' = events b @ [deliver m] \<and> pend' @ flat ss' = rest))"
proof -
  have len0: "flat ss' = rest \<Longrightarrow> ss \<noteq> [] \<Longrightarrow> length (flat ss') < length (flat ss)" for ss'
  proof -
    assume r: "flat ss' = rest"
    have "length part < n" "length hdr = 20" using assms(1) by (auto simp: in_body_def)
    then have "length (flat ss) = (n - length part) + length rest"
      using arg_cong[OF assms(3), of length] assms(5) by (simp add: encode_def)
    then show ?thesis using r \<open>length part < n\<close> by simp
  qed
  from read_body_step[OF assms] obtain p b' ss' where
    s: "read_body b ss = Inr (p, b', ss')" "clean ss'" and
    c: "ss = [] \<and> p = Return 0 \<and> b' = b \<and> ss' = [] \<or>
     ss \<noteq> [] \<and> p = Return 0 \<and> idle b' \<and> events b' = events b @ [deliver m] \<and> flat ss' = rest \<or>
     ss \<noteq> [] \<and> p = Continue \<and> events b' = events b \<and>
       (\<exists>got. got \<noteq> [] \<and> in_body b' hdr n (part @ got) \<and> flat ss = got @ flat ss')" by blast
  from c consider (none) "ss = []" "p = Return 0" "b' = b" "ss' = []"
    | (finish) "ss \<noteq> []" "p = Return 0" "idle b'" "events b' = events b @ [deliver m]" "flat ss' = rest"
    | (more) got where "ss \<noteq> []" "p = Continue" "events b' = events b" "got \<noteq> []"
        "in_body b' hdr n (part @ got)" "flat ss = got @ flat ss'" by blast
  then show ?thesis
  proof cases
    case none
    have "reading b (hdr @ part)" using assms(1) by (auto simp: reading_def)
    then show ?thesis using none s assms(3) by auto
  next
    case finish
    have "reading b' []" using finish by (simp add: reading_def)
    then show ?thesis using finish s len0[OF finish(5,1)]
      by (intro exI[of _ p] exI[of _ b'] exI[of _ ss']) (auto intro: less_imp_le)
  next
    case more
    have "reading b' (hdr @ part @ got)" using more by (auto simp: reading_def)
    moreover have "0 \<le> sint (m_iLen b' - m_iOffset b')"
    proof -
      have b: "unat (m_iLen b') = n" "n < 2 ^ 31" "unat (m_iOffset b') \<le> n"
        using more(5) by (auto simp: in_body_def)
      then have "unat (m_iLen b' - m_iOffset b') < 2 ^ 31" by (simp add: unat_sub word_le_nat_alt)
      then show ?thesis by (rule sint_small)
    qed
    moreover have "\<not> m_bReadHead b'" using more(5) by (simp add: in_body_def)
    ultimately have ok: "reading b' (hdr @ part @ got)" "0 \<le> sint (m_iLen b' - m_iOffset b')" "\<not> m_bReadHead b'" .
    have eq: "(hdr @ part @ got) @ flat ss' = encode m @ rest" using more(6) assms(3) by simp
    have "length (flat ss') < length (flat ss)" using more(4,6) by simp
    then show ?thesis unfolding s(1) using s(2) ok eq more(2,3) by auto
  qed
qed

lemma in_head_result:
  assumes "in_head b pend"
  shows "0 \<le> sint (m_iLen b - m_iOffset b)"
proof -
  have "unat (m_iLen b - m_iOffset b) \<le> 20"
    using assms by (simp add: in_head_def HEADER_SIZE_def unat_sub word_le_nat_alt)
  then show ?thesis by (intro sint_small) simp
qed

text \<open>One call of \<open>read\<close> on a socket with data.\<close>

lemma buf_read_step:
  assumes "reading b pend" "clean ss" "ss \<noteq> []" "pend @ flat ss = encode m @ rest" "wf_message m"
  shows "\<exists>r b' ss'. buf_read b ss = Inr (r, b', ss') \<and> 0 \<le> r \<and> clean ss' \<and>
    length (flat ss') < length (flat ss) \<and>
    (\<exists>pend'. reading b' pend' \<and>
      (events b' = events b \<and> pend' @ flat ss' = encode m @ rest \<or>
       events b' = events b @ [deliver m] \<and> pend' @ flat ss' = rest))"
proof -
  have body_run: ?thesis if c: "in_body c hdr (length (snd m)) part" "hdr @ part @ flat ss1 = encode m @ rest"
    and e: "clean ss1" "length (flat ss1) \<le> length (flat ss)" "ss1 = ss \<or> length (flat ss1) < length (flat ss)"
      "events c = events b"
    and run: "buf_read b ss = and_then (read_body c ss1) (\<lambda>(p, b2, sock2).
        case p of Return r \<Rightarrow> Inr (r, b2, sock2) | Continue \<Rightarrow> Inr (sint (m_iLen b2 - m_iOffset b2), b2, sock2))"
    for c hdr part ss1
  proof -
    from in_body_step[OF c(1) e(1) c(2) assms(5) refl] obtain p b' ss' where
      s: "read_body c ss1 = Inr (p, b', ss')" "clean ss'" "length (flat ss') \<le> length (flat ss1)"
        "ss1 \<noteq> [] \<longrightarrow> length (flat ss') < length (flat ss1)"
        "p = Return 0 \<or> p = Continue \<and> 0 \<le> sint (m_iLen b' - m_iOffset b')"
        "\<exists>pend'. reading b' pend' \<and> (events b' = events c \<and> pend' @ flat ss' = encode m @ rest \<or>
           events b' = events c @ [deliver m] \<and> pend' @ flat ss' = rest)" by blast
    have "length (flat ss') < length (flat ss)" using s(3,4) e(2,3) assms(3) by auto
    then show ?thesis using s e(4) unfolding run by auto
  qed
  have head_run: ?thesis if h: "in_head c pend" "events c = events b"
    and run: "buf_read b ss = and_then (read_head c ss) (\<lambda>(p, b1, sock1).
        case p of Return r \<Rightarrow> Inr (r, b1, sock1)
        | Continue \<Rightarrow>
            and_then (if m_bReadHead b1 then Inr (Continue, b1, sock1) else read_body b1 sock1) (\<lambda>(p, b2, sock2).
              case p of Return r \<Rightarrow> Inr (r, b2, sock2)
              | Continue \<Rightarrow> Inr (sint (m_iLen b2 - m_iOffset b2), b2, sock2)))"
for c
  proof -
    from read_head_step[OF h(1) assms(2,3,4,5)] obtain p b1 ss1 where
      s: "read_head c ss = Inr (p, b1, ss1)" "clean ss1" "length (flat ss1) < length (flat ss)" and
      k: "p = Return 0 \<and> idle b1 \<and> events b1 = events c @ [deliver m] \<and> flat ss1 = rest \<or>
       p = Continue \<and> events b1 = events c \<and> (\<exists>pend'. in_head b1 pend' \<and> pend' \<noteq> [] \<and> pend' @ flat ss1 = encode m @ rest) \<or>
       p = Continue \<and> events b1 = events c \<and>
         (\<exists>hdr. in_body b1 hdr (length (snd m)) [] \<and> hdr @ flat ss1 = encode m @ rest)" by blast
    from k consider (a) "p = Return 0" "idle b1" "events b1 = events c @ [deliver m]" "flat ss1 = rest"
      | (b) pend' where "p = Continue" "events b1 = events c" "in_head b1 pend'" "pend' \<noteq> []" "pend' @ flat ss1 = encode m @ rest"
      | (c) hdr where "p = Continue" "events b1 = events c" "in_body b1 hdr (length (snd m)) []"
          "hdr @ flat ss1 = encode m @ rest" by blast
    then show ?thesis
    proof cases
      case a
      then have "reading b1 []" by (simp add: reading_def)
      then show ?thesis using a s h(2) unfolding run by auto
    next
      case b
      then have "reading b1 pend'" "m_bReadHead b1" by (auto simp: reading_def in_head_def)
      moreover have "0 \<le> sint (m_iLen b1 - m_iOffset b1)" by (rule in_head_result[OF b(3)])
      ultimately show ?thesis using b s h(2) unfolding run by auto
    next
      case c
      then have "\<not> m_bReadHead b1" by (simp add: in_body_def)
      then show ?thesis using c s h(2) by (intro body_run[of b1 hdr "[]" ss1]) (auto simp: run)
    qed
  qed
  consider (idle) "idle b" "pend = []" | (head) "in_head b pend"
    | (body) hdr n part where "in_body b hdr n part" "pend = hdr @ part"
    using assms(1) by (auto simp: reading_def)
  then show ?thesis
  proof cases
    case idle
    let ?c = "read_init b"
    have "in_head ?c pend" "events ?c = events b"
      using idle by (auto simp: in_head_def idle_def read_init_def)
    then show ?thesis by (rule head_run) (use idle in \<open>auto simp: buf_read_def idle_def read_init_def Let_def\<close>)
  next
    case head
    then have "read_init b = b" "m_bReadHead b" by (auto simp: in_head_def read_init_def)
    then show ?thesis by (intro head_run[OF head]) (auto simp: buf_read_def Let_def)
  next
    case body
    have "hdr @ part @ flat ss = header_bytes (fst m) @ snd m @ rest" "length hdr = 20"
      using assms(4) body by (auto simp: encode_def in_body_def)
    then have "hdr = header_bytes (fst m)" by (simp add: append_eq_append_conv)
    then have "n = length (snd m)"
      using body(1) assms(5) by (auto simp: in_body_def wf_message_def)
    then have "in_body b hdr (length (snd m)) part" "hdr @ part @ flat ss = encode m @ rest"
      using body assms(4) by auto
    moreover have "read_init b = b" "\<not> m_bReadHead b" using body(1) by (auto simp: in_body_def read_init_def)
    ultimately show ?thesis
      by (intro body_run[of b hdr part ss]) (use assms(2) in \<open>auto simp: buf_read_def Let_def\<close>)
  qed
qed

subsection \<open>A whole stream\<close>

text \<open>
  The event loop calls \<open>read\<close> as long as the socket is readable; each call takes at least one
  byte, so as many calls as there are bytes are enough.
\<close>

lemma reading_incomplete:
  assumes "reading b pend" "wf_message m"
  shows "pend \<noteq> encode m @ rest"
proof
  assume eq: "pend = encode m @ rest"
  then have "20 \<le> length pend" by (simp add: encode_def)
  then obtain hdr n part where body: "in_body b hdr n part" "pend = hdr @ part"
    using assms(1) by (auto simp: reading_def in_head_def)
  then have "hdr = header_bytes (fst m)" "part = snd m @ rest"
    using eq by (auto simp: encode_def in_body_def append_eq_append_conv)
  then show False using body(1) assms(2) by (auto simp: in_body_def wf_message_def)
qed

lemma reading_whole:
  assumes "reading b pend" "pend = concat (map encode ms)" "list_all wf_message ms"
  shows "pend = []"
proof (cases ms)
  case (Cons m ms')
  then have "pend \<noteq> encode m @ concat (map encode ms')"
    using reading_incomplete[OF assms(1)] assms(3) by simp
  then show ?thesis using assms(2) Cons by simp
qed (use assms in simp)

fun drain :: "nat \<Rightarrow> bufmgr \<Rightarrow> segment list \<Rightarrow> (bufmgr \<times> segment list) run" where
  "drain 0 b ss = Inr (b, ss)"
| "drain (Suc n) b ss =
     (if ss = [] then Inr (b, ss)
      else and_then (buf_read b ss) (\<lambda>(r, b', ss'). if r < 0 then Inr (b', ss') else drain n b' ss'))"

lemma drain_correct:
  assumes "reading b pend" "clean ss" "pend @ flat ss = concat (map encode ms)" "list_all wf_message ms"
    "length (flat ss) \<le> n" "pend = [] \<or> ss \<noteq> []"
  shows "\<exists>b'. drain n b ss = Inr (b', []) \<and> events b' = events b @ map deliver ms \<and> reading b' []"
  using assms
proof (induction n arbitrary: b ss pend ms)
  case 0
  then have "ss = []" by (simp add: flat_eq_Nil)
  then have "pend = []" using "0.prems"(6) by simp
  then have "ms = []" using \<open>ss = []\<close> "0.prems"(3) by (cases ms) (auto simp: encode_def header_bytes_def le_bytes_def)
  then show ?case using \<open>ss = []\<close> \<open>pend = []\<close> "0.prems"(1) by simp
next
  case (Suc n)
  show ?case
  proof (cases "ss = []")
    case True
    then have "pend = []" using Suc.prems(6) by simp
    then have "ms = []" using True Suc.prems(3) by (cases ms) (auto simp: encode_def header_bytes_def le_bytes_def)
    then show ?thesis using True \<open>pend = []\<close> Suc.prems(1) by simp
  next
    case False
    then have "concat (map encode ms) \<noteq> []"
      using Suc.prems(2,3) flat_eq_Nil by (metis append_is_Nil_conv)
    then obtain m ms' where ms: "ms = m # ms'" by (cases ms) auto
    have m: "wf_message m" "list_all wf_message ms'" using Suc.prems(4) ms by auto
    have "pend @ flat ss = encode m @ concat (map encode ms')" using Suc.prems(3) ms by simp
    from buf_read_step[OF Suc.prems(1,2) False this m(1)] obtain r b1 ss1 pend1 where
      s: "buf_read b ss = Inr (r, b1, ss1)" "0 \<le> r" "clean ss1" "length (flat ss1) < length (flat ss)" "reading b1 pend1"
      and k: "events b1 = events b \<and> pend1 @ flat ss1 = encode m @ concat (map encode ms') \<or>
        events b1 = events b @ [deliver m] \<and> pend1 @ flat ss1 = concat (map encode ms')" by blast
    have run: "drain (Suc n) b ss = drain n b1 ss1" using False s(1,2) by simp
    have n: "length (flat ss1) \<le> n" using s(4) Suc.prems(5) by simp
    from k show ?thesis
    proof
      assume k: "events b1 = events b \<and> pend1 @ flat ss1 = encode m @ concat (map encode ms')"
      then have "pend1 @ flat ss1 = concat (map encode ms)" using ms by simp
      moreover have "ss1 \<noteq> []" using reading_incomplete[OF s(5) m(1)] k by auto
      ultimately show ?thesis using Suc.IH[OF s(5,3) _ Suc.prems(4) n] k unfolding run by simp
    next
      assume k: "events b1 = events b @ [deliver m] \<and> pend1 @ flat ss1 = concat (map encode ms')"
      then have "pend1 = [] \<or> ss1 \<noteq> []" using reading_whole[OF s(5) _ m(2)] by auto
      then show ?thesis using Suc.IH[OF s(5,3) _ m(2) n] k unfolding run by (simp add: ms)
    qed
  qed
qed

subsection \<open>The writer\<close>

text \<open>
  Only the first entry may have been written in part; the buffer it started with is then in
  \<open>mLastIov\<close>. Every other entry still owns its buffer.
\<close>

fun queue_ok :: "iov_req list \<Rightarrow> nat option \<Rightarrow> bool" where
  "queue_ok [] lst \<longleftrightarrow> lst = None"
| "queue_ok (v # vs) lst \<longleftrightarrow> (mComplete v \<longleftrightarrow> lst = None) \<and> (mComplete v \<longrightarrow> iov_base v \<noteq> None) \<and>
     list_all (\<lambda>u. mComplete u \<and> iov_base u \<noteq> None) vs"

definition owned :: "iov_req list \<Rightarrow> nat option \<Rightarrow> nat list" where
  "owned vs lst = (case lst of None \<Rightarrow> [] | Some p \<Rightarrow> [p]) @ concat (map free_iov vs)"

definition queued :: "iov_req list \<Rightarrow> byte list" where
  "queued vs = concat (map iov_data vs)"

lemma queue_ok_tail: "queue_ok (v # vs) lst \<Longrightarrow> queue_ok vs None"
  by (cases vs) auto

lemma take_written_correct:
  assumes "m_Agent b" "queue_ok vs (mLastIov b)" "n \<le> length (queued vs)"
  shows "\<exists>b' k. take_written n vs b = (True, b') \<and> queue_ok (mIovList b') (mLastIov b') \<and>
    queued (mIovList b') = drop n (queued vs) \<and> m_Agent b' \<and>
    mset (freed b' @ owned (mIovList b') (mLastIov b')) = mset (freed b @ owned vs (mLastIov b)) \<and>
    map mTask (mIovList b') = drop k (map mTask vs) \<and>
    events b' = events b @ map (\<lambda>t. Write_Back t True) (take k (map mTask vs))"
  using assms
proof (induction n vs b rule: take_written.induct)
  case (1 ret b)
  then show ?case by (simp add: queued_def owned_def)
next
  case (2 ret v vs b)
  consider (none) "ret = 0" | (all) "ret \<noteq> 0" "length (iov_data v) \<le> ret" | (part) "ret \<noteq> 0" "ret < length (iov_data v)"
    by linarith
  then show ?case
  proof cases
    case none
    then show ?thesis using "2.prems"
      by (intro exI[of _ "b\<lparr>mIovList := v # vs\<rparr>"] exI[of _ 0]) simp
  next
    case part
    let ?b = "b\<lparr>mLastIov := (if mComplete v then iov_base v else mLastIov b),
        mIovList := v\<lparr>mComplete := False, iov_data := drop ret (iov_data v)\<rparr> # vs\<rparr>"
    have "take_written ret (v # vs) b = (True, ?b)" using part by simp
    moreover have "queue_ok (mIovList ?b) (mLastIov ?b)" using "2.prems"(2) by auto
    moreover have "mset (owned (mIovList ?b) (mLastIov ?b)) = mset (owned (v # vs) (mLastIov b))"
      using "2.prems"(2) by (auto simp: owned_def free_iov_def)
    moreover have "queued (mIovList ?b) = drop ret (queued (v # vs))" using part by (simp add: queued_def)
    ultimately show ?thesis using "2.prems"(1) by (intro exI[of _ ?b] exI[of _ 0]) simp
  next
    case all
    define b1 where "b1 = (if mComplete v then b\<lparr>freed := freed b @ free_iov v\<rparr>
                  else b\<lparr>freed := freed b @ free_last b, mLastIov := None\<rparr>)"
    let ?c = "b1\<lparr>events := events b1 @ [Write_Back (mTask v) True]\<rparr>"
    have c: "m_Agent ?c" "mLastIov ?c = None" "events ?c = events b @ [Write_Back (mTask v) True]"
      using "2.prems"(1,2) by (auto simp: b1_def)
    have fr: "mset (freed ?c @ owned vs None) = mset (freed b @ owned (v # vs) (mLastIov b))"
      using "2.prems"(2) by (auto simp: b1_def owned_def free_iov_def free_last_def)
    have run: "take_written ret (v # vs) b = take_written (ret - length (iov_data v)) vs ?c"
      using all "2.prems"(1) by (simp add: b1_def Let_def)
    have len: "ret - length (iov_data v) \<le> length (queued vs)"
      using "2.prems"(3) by (simp add: queued_def)
    have "\<exists>b' k. take_written (ret - length (iov_data v)) vs ?c = (True, b') \<and>
        queue_ok (mIovList b') (mLastIov b') \<and>
        queued (mIovList b') = drop (ret - length (iov_data v)) (queued vs) \<and> m_Agent b' \<and>
        mset (freed b' @ owned (mIovList b') (mLastIov b')) = mset (freed ?c @ owned vs (mLastIov ?c)) \<and>
        map mTask (mIovList b') = drop k (map mTask vs) \<and>
        events b' = events ?c @ map (\<lambda>t. Write_Back t True) (take k (map mTask vs))"
      using "2.IH"[OF all(1,2) b1_def] "2.prems"(1) c queue_ok_tail[OF "2.prems"(2)] len by simp
    then obtain b' k where *: "take_written (ret - length (iov_data v)) vs ?c = (True, b')"
        "queue_ok (mIovList b') (mLastIov b')"
        "queued (mIovList b') = drop (ret - length (iov_data v)) (queued vs)" "m_Agent b'"
        "mset (freed b' @ owned (mIovList b') (mLastIov b')) = mset (freed ?c @ owned vs (mLastIov ?c))"
        "map mTask (mIovList b') = drop k (map mTask vs)"
        "events b' = events ?c @ map (\<lambda>t. Write_Back t True) (take k (map mTask vs))" by blast
    have "drop ret (queued (v # vs)) = drop (ret - length (iov_data v)) (queued vs)"
      using all(2) by (simp add: queued_def)
    then show ?thesis
      unfolding run using * fr c by (intro exI[of _ b'] exI[of _ "Suc k"]) simp
  qed
qed

subsection \<open>Properties\<close>

text \<open>
  C7 Framing does not depend on how the network cuts the stream: when a fresh reader with an
  agent gets, in any non-empty segments, the bytes of a list of well-formed messages, it
  never faults and never reports failure; it hands up exactly these messages, in order, each
  body with a terminating zero, and is then back between two messages.
\<close>

theorem framing_any_segments:
  assumes "list_all wf_message ms" "clean ss" "flat ss = concat (map encode ms)"
  shows "\<exists>b. drain (length (flat ss)) (set_agent new_bufmgr) ss = Inr (b, []) \<and>
    events b = map deliver ms \<and> idle b"
proof -
  let ?b = "set_agent new_bufmgr"
  have "reading ?b []" by (simp add: reading_def idle_def set_agent_def new_bufmgr_def)
  from drain_correct[OF this assms(2) _ assms(1), of "length (flat ss)"] assms(3)
  obtain b where "drain (length (flat ss)) ?b ss = Inr (b, [])" "events b = map deliver ms" "reading b []"
    by (auto simp: set_agent_def new_bufmgr_def)
  moreover have "idle b"
    using \<open>reading b []\<close> by (auto simp: reading_def in_body_def)
  ultimately show ?thesis by blast
qed

definition demo_messages :: "message list" where
  "demo_messages = [(\<lparr>cmd = 7, len = 2, error = 0, para1 = 1, para2 = 2\<rparr>, [65, 66]),
     (\<lparr>cmd = 8, len = 0, error = 0, para1 = 0, para2 = 0\<rparr>, [])]"

lemma framing_any_segments_witness:
  "\<exists>b. drain 42 (set_agent new_bufmgr)
       [Data (take 5 (concat (map encode demo_messages))), Data (drop 5 (concat (map encode demo_messages)))]
     = Inr (b, []) \<and>
   events b = [Read_Back \<lparr>cmd = 7, len = 2, error = 0, para1 = 1, para2 = 2\<rparr> (Some [65, 66, 0]),
     Read_Back \<lparr>cmd = 8, len = 0, error = 0, para1 = 0, para2 = 0\<rparr> None]"
proof -
  let ?ss = "[Data (take 5 (concat (map encode demo_messages))), Data (drop 5 (concat (map encode demo_messages)))]"
  have "list_all wf_message demo_messages" by (simp add: demo_messages_def wf_message_def)
  moreover have l: "length (concat (map encode demo_messages)) = 42" by (simp add: demo_messages_def encode_def)
  then have "clean ?ss" by (auto simp del: take_eq_Nil simp: demo_messages_def encode_def header_bytes_def le_bytes_def)
  moreover have "flat ?ss = concat (map encode demo_messages)" by simp
  moreover have "length (flat ?ss) = 42" using l by simp
  ultimately show ?thesis
    using framing_any_segments[of demo_messages ?ss] by (auto simp: demo_messages_def deliver_def)
qed

text \<open>
  C13 \<open>BufferManager::write\<close> after \<open>writev\<close> has taken \<open>n\<close> bytes: the call returns \<open>n\<close>, the bytes
  still queued are the old ones without their first \<open>n\<close>, the entries written completely are
  told so in order and leave the list, and no buffer is freed twice or lost: the buffers
  freed and those still owned are together the same as before.
\<close>

theorem write_conserves:
  assumes "m_Agent b" "queue_ok (mIovList b) (mLastIov b)" "writev_loop ws = Some (Wrote n, ws')"
    "n \<le> length (queued (mIovList b))"
  shows "\<exists>b' k. buf_write ws b = Some (int n, b', ws') \<and> queue_ok (mIovList b') (mLastIov b') \<and>
    queued (mIovList b') = drop n (queued (mIovList b)) \<and>
    map mTask (mIovList b') = drop k (map mTask (mIovList b)) \<and>
    events b' = events b @ map (\<lambda>t. Write_Back t True) (take k (map mTask (mIovList b))) \<and>
    mset (freed b' @ owned (mIovList b') (mLastIov b')) = mset (freed b @ owned (mIovList b) (mLastIov b))"
  using take_written_correct[OF assms(1,2,4)] assms(3) by (auto simp: buf_write_def)

definition demo_queue :: bufmgr where
  "demo_queue = snd (write_dynamic 2 [4, 5] (Some 9) (snd (write_dynamic 1 [1, 2, 3] None (set_agent new_bufmgr))))"

lemma write_conserves_witness:
  "\<exists>b'. buf_write [W_Intr, Wrote 4] demo_queue = Some (4, b', []) \<and> queued (mIovList b') = [5] \<and>
     mset (freed b' @ owned (mIovList b') (mLastIov b')) = {#1, 2#}"
proof -
  have "m_Agent demo_queue" "queue_ok (mIovList demo_queue) (mLastIov demo_queue)"
    "queued (mIovList demo_queue) = [1, 2, 3, 4, 5]"
    "freed demo_queue @ owned (mIovList demo_queue) (mLastIov demo_queue) = [1, 2]"
    by (simp_all add: demo_queue_def write_dynamic_def set_agent_def new_bufmgr_def queued_def owned_def free_iov_def)
  with write_conserves[of demo_queue "[W_Intr, Wrote 4]" 4 "[]"] show ?thesis by auto
qed

text \<open>
  C21 A header whose length field is the largest \<open>unsigned int\<close>: the reader allocates
  \<open>m_iLen + 1\<close>, that is 0, bytes for the body, and the first byte of the body is written
  outside of the buffer.
\<close>

theorem huge_length_overflows:
  assumes "len h = - 1" "data \<noteq> []"
  shows "\<exists>b. buf_read (set_agent new_bufmgr) [Data (header_bytes h)] = Inr (0, b, []) \<and>
    buf_read b [Data data] = Inl Out_Of_Bounds"
proof -
  let ?b = "(set_agent new_bufmgr)\<lparr>m_InReq := \<lparr>m_msgHeader = header_bytes h, ioBuf = Some []\<rparr>,
    m_iOffset := 0, m_iLen := - 1, m_bReadHead := False, m_bInit := False\<rparr>"
  have "store (replicate 20 0) 0 (header_bytes h) = Inr (header_bytes h)"
    by (simp add: store_def)
  moreover have "header_bytes h \<noteq> []" by (simp add: header_bytes_def le_bytes_def)
  moreover have "(0::u32) < - 1" by code_simp
  ultimately have "buf_read (set_agent new_bufmgr) [Data (header_bytes h)] = Inr (0, ?b, [])"
    using assms(1)
    by (simp add: buf_read_def read_init_def read_head_def read_body_def HEADER_SIZE_def set_agent_def
        new_bufmgr_def Let_def)
  moreover have "\<exists>got ss'. sock_read (unat (- 1 :: u32)) [Data data] = (Got got, ss') \<and> got \<noteq> []"
  proof -
    have "unat (- 1 :: u32) \<noteq> 0" by (simp add: unat_eq_zero)
    then have "0 < unat (- 1 :: u32)" by (rule neq0_conv[THEN iffD1])
    then show ?thesis using sock_read_clean[of "[Data data]" "unat (- 1 :: u32)"] assms(2) by auto
  qed
  then have "buf_read ?b [Data data] = Inl Out_Of_Bounds"
    by (auto simp: buf_read_def read_init_def read_body_def store_def Let_def simp del: sock_read.simps)
  ultimately show ?thesis by blast
qed

lemma huge_length_overflows_witness:
  "\<exists>b. buf_read (set_agent new_bufmgr)
      [Data (header_bytes \<lparr>cmd = 1, len = - 1, error = 0, para1 = 0, para2 = 0\<rparr>)] = Inr (0, b, []) \<and>
    buf_read b [Data [1]] = Inl Out_Of_Bounds"
  by (rule huge_length_overflows) simp_all

end
