(* ===== verification/Net_Socket.thy ===== *)
theory Net_Socket
  imports Net_Buffer_Correct
begin

text \<open>
  Addresses, sockets and whole reads and writes: \<open>common/SocketAddress.cpp\<close>,
  \<open>common/TCPSocket.cpp\<close>, \<open>common/util.cpp\<close>. What the operating system answers is the record
  \<open>sys\<close>: the results of the system calls by their arguments; a negative number is a failure.
  A C string is a \<open>string\<close> without zero characters. \<open>ipType\<close> is 4 for IPv4.
\<close>

subsection \<open>Addresses\<close>

record sock_addr =
  ip :: string
  port :: u16
  m_Str :: string

definition any_addr :: "int \<Rightarrow> string" where
  "any_addr ipType = (if ipType = 4 then ''0.0.0'' else ''::1'')"

definition max_ip_len :: "int \<Rightarrow> nat" where
  "max_ip_len ipType = (if ipType = 4 then 15 else 39)"

definition empty_addr :: "int \<Rightarrow> sock_addr" where
  "empty_addr ipType = \<lparr>ip = any_addr ipType, port = 0, m_Str = ''''\<rparr>"

definition new_addr :: "int \<Rightarrow> string \<Rightarrow> u16 \<Rightarrow> sock_addr" where
  "new_addr ipType buf p =
     \<lparr>ip = (if max_ip_len ipType < length buf \<or> buf = ''0'' then any_addr ipType else buf), port = p, m_Str = ''''\<rparr>"

definition set_port :: "u16 \<Rightarrow> sock_addr \<Rightarrow> sock_addr" where
  "set_port p a = a\<lparr>port := p\<rparr>"

definition set_address :: "int \<Rightarrow> string \<Rightarrow> u16 \<Rightarrow> sock_addr \<Rightarrow> sock_addr" where
  "set_address ipType buf p a =
     (let a1 = a\<lparr>port := p\<rparr>
      in if length buf \<le> max_ip_len ipType \<and> buf \<noteq> ''0'' then a1\<lparr>ip := buf\<rparr> else a1)"

text \<open>\<open>%u\<close>\<close>

fun decimal :: "nat \<Rightarrow> string" where
  "decimal n = (if n < 10 then [char_of (48 + n)] else decimal (n div 10) @ [char_of (48 + n mod 10)])"

declare decimal.simps [simp del]

definition convert_to_string :: "sock_addr \<Rightarrow> string \<times> sock_addr" where
  "convert_to_string a = (let s = ip a @ '' '' @ decimal (unat (port a)) in (s, a\<lparr>m_Str := s\<rparr>))"

definition if_any_addr :: "int \<Rightarrow> sock_addr \<Rightarrow> bool" where
  "if_any_addr ipType a \<longleftrightarrow> ip a = any_addr ipType"

definition addr_eq :: "sock_addr \<Rightarrow> sock_addr \<Rightarrow> bool" where
  "addr_eq a b \<longleftrightarrow> ip a = ip b \<and> port a = port b"

definition addr_assign :: "sock_addr \<Rightarrow> sock_addr" where
  "addr_assign h = \<lparr>ip = ip h, port = port h, m_Str = ''''\<rparr>"

subsection \<open>Sockets\<close>

record sys =
  sys_socket :: "bool \<Rightarrow> int"
  sys_close :: "int \<Rightarrow> int"
  sys_setsockopt :: "int \<Rightarrow> string \<Rightarrow> int"
  sys_getfl :: "int \<Rightarrow> int"
  sys_setfl :: "int \<Rightarrow> int \<Rightarrow> int"
  sys_inet_ok :: "string \<Rightarrow> bool"
  sys_bind :: "int \<Rightarrow> sock_addr \<Rightarrow> int"
  sys_listen :: "int \<Rightarrow> int \<Rightarrow> int"
  sys_accept :: "int \<Rightarrow> int \<times> string \<times> u16"
  sys_connect :: "int \<Rightarrow> sock_addr \<Rightarrow> int"

definition generate_socket :: "sys \<Rightarrow> int \<Rightarrow> int \<times> int" where
  "generate_socket sy ipType = (let fd = sys_socket sy (ipType = 4) in (fd, fd))"

text \<open>The second component is the field \<open>sockFd\<close> afterwards.\<close>

definition close_socket :: "sys \<Rightarrow> int \<Rightarrow> int \<times> int" where
  "close_socket sy fd = (if fd = - 1 then (0, fd) else if sys_close sy fd < 0 then (- 1, fd) else (0, - 1))"

definition set_option :: "sys \<Rightarrow> string \<Rightarrow> int \<Rightarrow> int" where
  "set_option sy name fd = (if sys_setsockopt sy fd name < 0 then - 1 else 0)"

definition disable_linger :: "sys \<Rightarrow> int \<Rightarrow> int" where
  "disable_linger sy fd = set_option sy ''SO_LINGER'' fd"

definition enable_reuseaddr :: "sys \<Rightarrow> int \<Rightarrow> int" where
  "enable_reuseaddr sy fd = set_option sy ''SO_REUSEADDR'' fd"

definition disable_nagle :: "sys \<Rightarrow> int \<Rightarrow> int" where
  "disable_nagle sy fd = set_option sy ''TCP_NODELAY'' fd"

definition set_keep_alive :: "sys \<Rightarrow> int \<Rightarrow> int" where
  "set_keep_alive sy fd = set_option sy ''SO_KEEPALIVE'' fd"

definition set_nonblock :: "sys \<Rightarrow> int \<Rightarrow> int" where
  "set_nonblock sy fd = (let val = sys_getfl sy fd in
     if val < 0 then val else if sys_setfl sy fd (val OR 2048) < 0 then - 1 else 0)"

definition bind_addr :: "sys \<Rightarrow> int \<Rightarrow> sock_addr \<Rightarrow> int \<Rightarrow> int" where
  "bind_addr sy ipType a fd =
     (if \<not> if_any_addr ipType a \<and> \<not> sys_inet_ok sy (ip a) then - 1
      else if port a = 0 then - 1
      else if sys_bind sy fd a < 0 then - 1 else 0)"

definition listen_on :: "sys \<Rightarrow> int \<Rightarrow> int \<Rightarrow> int" where
  "listen_on sy qs fd = (if sys_listen sy fd qs < 0 then - 1 else 0)"

definition accept_connection :: "sys \<Rightarrow> int \<Rightarrow> sock_addr \<Rightarrow> int \<Rightarrow> int \<times> sock_addr" where
  "accept_connection sy ipType a fd = (let (c, name, p) = sys_accept sy fd in (c, set_address ipType name p a))"

text \<open>
  \<open>connectSocket\<close>: for IPv4 every failure of \<open>connect\<close> is turned into success, since the
  test for \<open>EINPROGRESS\<close> is joined by "or".
\<close>

definition connect_socket :: "sys \<Rightarrow> int \<Rightarrow> sock_addr \<Rightarrow> int \<Rightarrow> int" where
  "connect_socket sy ipType a fd =
     (if if_any_addr ipType a then - 1
      else if \<not> sys_inet_ok sy (ip a) then - 1
      else if port a = 0 then - 1
      else let ret = sys_connect sy fd a in if ipType = 4 \<and> ret < 0 then 0 else ret)"

subsection \<open>Reading and writing \<open>n\<close> bytes\<close>

text \<open>A read shortens the input, or the number of bytes that are missing.\<close>

lemma sock_read_smaller:
  "sock_read n ss = (Got bs, ss') \<Longrightarrow> bs \<noteq> [] \<Longrightarrow> n \<noteq> 0 \<Longrightarrow>
     length ss' < length ss \<or> length ss' = length ss \<and> n - length bs < n"
  by (cases "(n, ss)" rule: sock_read.cases) (auto split: if_splits)

lemma sock_read_intr: "sock_read n ss = (Intr, ss') \<Longrightarrow> length ss' < length ss"
  by (cases "(n, ss)" rule: sock_read.cases) (auto split: if_splits)

lemma sock_read_again: "sock_read n ss = (Again, ss') \<Longrightarrow> ss \<noteq> [] \<Longrightarrow> length ss' < length ss"
  by (cases "(n, ss)" rule: sock_read.cases) (auto split: if_splits)

text \<open>
  \<open>util::io::readn\<close>: the result, the bytes stored, the rest of the input. \<open>EINTR\<close> is retried,
  any other failure is final.
\<close>

function readn_loop :: "nat \<Rightarrow> byte list \<Rightarrow> segment list \<Rightarrow> int \<times> byte list \<times> segment list" where
  "readn_loop nleft acc ss =
     (if nleft = 0 then (int (length acc), acc, ss)
      else case sock_read nleft ss of
        (Got bs, ss') \<Rightarrow>
          if bs = [] then (int (length acc), acc, ss') else readn_loop (nleft - length bs) (acc @ bs) ss'
      | (Again, ss') \<Rightarrow> (- 1, acc, ss')
      | (Intr, ss') \<Rightarrow> readn_loop nleft acc ss'
      | (Eof, ss') \<Rightarrow> (int (length acc), acc, ss')
      | (Failure, ss') \<Rightarrow> (- 1, acc, ss'))"
  by pat_completeness auto

termination
  by (relation "measures [\<lambda>(n, acc, ss). length ss, \<lambda>(n, acc, ss). n]")
    (auto dest: sock_read_smaller[OF sym] sock_read_intr[OF sym])

declare readn_loop.simps [simp del]

definition readn :: "nat \<Rightarrow> segment list \<Rightarrow> int \<times> byte list \<times> segment list" where
  "readn n ss = readn_loop n [] ss"

text \<open>
  \<open>TCPSocket::readnSocket\<close> retries \<open>EWOULDBLOCK\<close> as well: \<open>None\<close> when nothing else ever comes.
\<close>

function readn_socket_loop :: "nat \<Rightarrow> byte list \<Rightarrow> segment list \<Rightarrow> (int \<times> byte list \<times> segment list) option" where
  "readn_socket_loop nleft acc ss =
     (if nleft = 0 then Some (int (length acc), acc, ss)
      else if ss = [] then None
      else case sock_read nleft ss of
        (Got bs, ss') \<Rightarrow>
          if bs = [] then Some (int (length acc), acc, ss') else readn_socket_loop (nleft - length bs) (acc @ bs) ss'
      | (Again, ss') \<Rightarrow> readn_socket_loop nleft acc ss'
      | (Intr, ss') \<Rightarrow> readn_socket_loop nleft acc ss'
      | (Eof, ss') \<Rightarrow> Some (int (length acc), acc, ss')
      | (Failure, ss') \<Rightarrow> Some (- 1, acc, ss'))"
  by pat_completeness auto

termination
  by (relation "measures [\<lambda>(n, acc, ss). length ss, \<lambda>(n, acc, ss). n]")
    (auto dest: sock_read_smaller[OF sym] sock_read_intr[OF sym] sock_read_again[OF sym])

declare readn_socket_loop.simps [simp del]

text \<open>\<open>util::io::writen\<close>: the result and the bytes the system has taken.\<close>

fun writen_loop :: "byte list \<Rightarrow> nat \<Rightarrow> byte list \<Rightarrow> wanswer list \<Rightarrow> (int \<times> byte list \<times> wanswer list) option" where
  "writen_loop data n sent [] = (if data = [] then Some (int n, sent, []) else None)"
| "writen_loop data n sent (w # ws) =
     (if data = [] then Some (int n, sent, w # ws)
      else case w of
        W_Intr \<Rightarrow> writen_loop data n sent ws
      | W_Block \<Rightarrow> Some (- 1, sent, ws)
      | W_Error \<Rightarrow> Some (- 1, sent, ws)
      | Wrote k \<Rightarrow>
          if k = 0 then Some (int (n - length data), sent, ws)
          else writen_loop (drop k data) n (sent @ take k data) ws)"

definition writen :: "byte list \<Rightarrow> wanswer list \<Rightarrow> (int \<times> byte list \<times> wanswer list) option" where
  "writen data ws = writen_loop data (length data) [] ws"

subsection \<open>Lemmas\<close>

lemma decimal_not_space: "CHR '' '' \<notin> set (decimal n)"
proof (induction n rule: decimal.induct)
  case (1 n)
  have ns: "CHR '' '' \<noteq> char_of (48 + k :: nat)" if "k < 10" for k
  proof
    assume "CHR '' '' = char_of (48 + k :: nat)"
    then have "(48 + k) mod 256 = (of_char (CHR '' '') :: nat)" by (metis of_char_of)
    then show False using that by simp
  qed
  show ?case
  proof (cases "n < 10")
    case True
    then show ?thesis using ns[OF True] by (subst decimal.simps) simp
  next
    case False
    then show ?thesis using 1 ns[of "n mod 10"] by (subst decimal.simps) simp
  qed
qed

definition undecimal :: "string \<Rightarrow> nat" where
  "undecimal s = foldl (\<lambda>a c. 10 * a + (of_char c - 48)) 0 s"

lemma undecimal_decimal [simp]: "undecimal (decimal n) = n"
proof (induction n rule: decimal.induct)
  case (1 n)
  show ?case
  proof (cases "n < 10")
    case True
    then have "decimal n = [char_of (48 + n)]" by (subst decimal.simps) simp
    then show ?thesis using True by (simp add: undecimal_def)
  next
    case False
    then have "decimal n = decimal (n div 10) @ [char_of (48 + n mod 10)]" by (subst decimal.simps) simp
    then have "undecimal (decimal n) = 10 * undecimal (decimal (n div 10)) + ((48 + n mod 10) mod 256 - 48)"
      by (simp add: undecimal_def)
    also have "(48 + n mod 10) mod 256 - 48 = n mod 10" by (simp add: mod_less)
    finally show ?thesis using "1.IH"[OF False] by simp
  qed
qed

lemma decimal_inj: "decimal m = decimal n \<longleftrightarrow> m = n"
  by (metis undecimal_decimal)

lemma split_last_sep:
  assumes "xs @ c # ys = xs' @ c # ys'" "c \<notin> set ys" "c \<notin> set ys'"
  shows "xs = xs' \<and> ys = ys'"
proof -
  have tw: "takeWhile (\<lambda>x. x \<noteq> c) (rev (zs @ c # ws)) = rev ws" if "c \<notin> set ws" for zs ws
    using that by simp (subst takeWhile_append2, auto)
  have "rev ys = rev ys'" using assms tw by metis
  then show ?thesis using assms(1) by simp
qed

lemma readn_loop_exact:
  assumes "\<forall>s \<in> set ss. s = Interrupted \<or> (\<exists>bs. s = Data bs \<and> bs \<noteq> [])" "n \<le> length (flat ss)"
  shows "\<exists>ss'. readn_loop n acc ss = (int (length acc + n), acc @ take n (flat ss), ss') \<and> flat ss' = drop n (flat ss)"
  using assms
proof (induction n acc ss rule: readn_loop.induct)
  case (1 n acc ss)
  show ?case
  proof (cases "n = 0")
    case True
    then show ?thesis by (subst readn_loop.simps) simp
  next
    case False
    then obtain s ss0 where ss: "ss = s # ss0" using "1.prems"(2) by (cases ss) auto
    have ok: "\<forall>s \<in> set ss0. s = Interrupted \<or> (\<exists>bs. s = Data bs \<and> bs \<noteq> [])" using "1.prems"(1) ss by simp
    consider "s = Interrupted" | bs where "s = Data bs" "bs \<noteq> []" using "1.prems"(1) ss by auto
    then show ?thesis
    proof cases
      case 1
      have "\<exists>ss'. readn_loop n acc ss0 = (int (length acc + n), acc @ take n (flat ss0), ss') \<and> flat ss' = drop n (flat ss0)"
        by (rule "1.IH"(2)[OF False]) (use ok "1.prems"(2) ss 1 in auto)
      then show ?thesis using False ss 1 by (subst readn_loop.simps) simp
    next
      case 2
      show ?thesis
      proof (cases "length bs \<le> n")
        case True
        have "\<exists>ss'. readn_loop (n - length bs) (acc @ bs) ss0
            = (int (length (acc @ bs) + (n - length bs)), (acc @ bs) @ take (n - length bs) (flat ss0), ss') \<and>
              flat ss' = drop (n - length bs) (flat ss0)"
          by (rule "1.IH"(1)[OF False]) (use ok "1.prems"(2) ss 2 True in auto)
        then show ?thesis using False ss 2 True by (subst readn_loop.simps) auto
      next
        case F: False
        have "readn_loop (n - length (take n bs)) (acc @ take n bs) (Data (drop n bs) # ss0)
            = (int (length acc + n), acc @ take n bs, Data (drop n bs) # ss0)"
          using F by (subst readn_loop.simps) simp
        then show ?thesis using False ss 2 F by (subst readn_loop.simps) auto
      qed
    qed
  qed
qed

lemma writen_loop_total:
  assumes "writen_loop data n sent ws = Some (r, out, ws')" "length data \<le> n"
  shows "\<exists>k \<le> length data. out = sent @ take k data \<and> (r = - 1 \<or> r = int (n - length data + k))"
  using assms
proof (induction data n sent ws rule: writen_loop.induct)
  case (1 data n sent)
  then show ?case by (auto split: if_splits)
next
  case (2 data n sent w ws)
  show ?case
  proof (cases "data = []")
    case True
    then show ?thesis using "2.prems" by auto
  next
    case False
    show ?thesis
    proof (cases w)
      case (Wrote k)
      show ?thesis
      proof (cases "k = 0")
        case True
        then show ?thesis using "2.prems" False Wrote by (auto intro!: exI[of _ 0])
      next
        case k: False
        have rec: "writen_loop (drop k data) n (sent @ take k data) ws = Some (r, out, ws')"
          using "2.prems"(1) False Wrote k by simp
        have "length (drop k data) \<le> n" using "2.prems"(2) by simp
        from "2.IH"(1)[OF False Wrote k rec this] obtain j where j:
          "j \<le> length (drop k data)" "out = (sent @ take k data) @ take j (drop k data)"
          "r = - 1 \<or> r = int (n - length (drop k data) + j)" by blast
        let ?i = "min (length data) (k + j)"
        have "out = sent @ take ?i data" using j(2) by (simp add: take_add min_def)
        moreover have "n - length (drop k data) + j = n - length data + ?i"
          using j(1) "2.prems"(2) by (auto simp: min_def)
        ultimately show ?thesis using j(3) by (intro exI[of _ ?i]) auto
      qed
    qed (use "2" False in \<open>auto intro!: exI[of _ 0]\<close>)
  qed
qed

subsection \<open>Properties\<close>

text \<open>
  C22 \<open>util::io::readn\<close> of \<open>n\<close> bytes, when the input is data in any segments with any
  interruptions by signals in between and holds at least \<open>n\<close> bytes: the result is \<open>n\<close>, the
  buffer holds exactly the first \<open>n\<close> bytes, and the rest of the input is still to be read.
\<close>

theorem readn_exact:
  assumes "\<forall>s \<in> set ss. s = Interrupted \<or> (\<exists>bs. s = Data bs \<and> bs \<noteq> [])" "n \<le> length (flat ss)"
  shows "\<exists>ss'. readn n ss = (int n, take n (flat ss), ss') \<and> flat ss' = drop n (flat ss)"
  using readn_loop_exact[OF assms, of "[]"] by (simp add: readn_def)

lemma readn_exact_witness:
  "\<exists>ss'. readn 3 [Data [1, 2], Interrupted, Data [3, 4]] = (3, [1, 2, 3], ss') \<and> flat ss' = [4]"
  using readn_exact[of "[Data [1, 2], Interrupted, Data [3, 4]]" 3] by (auto simp: numeral_eq_Suc)

text \<open>
  The text form of an address, \<open>SocketAddress::convertToString\<close>, identifies it: two
  addresses whose IP strings may hold anything have the same text exactly when they are equal
  by \<open>operator==\<close>.
\<close>

theorem address_text_identifies:
  "fst (convert_to_string a) = fst (convert_to_string b) \<longleftrightarrow> addr_eq a b"
proof
  assume "fst (convert_to_string a) = fst (convert_to_string b)"
  then have "ip a @ CHR '' '' # decimal (unat (port a)) = ip b @ CHR '' '' # decimal (unat (port b))"
    by (simp add: convert_to_string_def Let_def)
  from split_last_sep[OF this] show "addr_eq a b"
    by (simp add: decimal_not_space decimal_inj addr_eq_def word_unat_eq_iff)
qed (simp add: addr_eq_def convert_to_string_def Let_def)

end
