(* ===== verification/Net_Agent.thy ===== *)
theory Net_Agent
  imports Net_Socket
begin

text \<open>
  Events and agents: \<open>common/EpollEvent.cpp\<close>, \<open>common/Epoll.cpp\<close>, \<open>common/Agent.cpp\<close>,
  \<open>common/TCPAgent.cpp\<close>. The kernel's epoll set is the function \<open>interest\<close> from descriptors to
  event masks; \<open>ctl_fails\<close> says which calls of \<open>epoll_ctl\<close> fail. The functions a user installs
  are numbers; the calls made to them are recorded, and \<open>call_int\<close> is what they return.
  A member the constructors leave unset is a parameter, or \<open>None\<close> where reading it is a fault.
\<close>

datatype ctl = CTL_ADD | CTL_MOD | CTL_DEL

datatype call = Call_Connect nat bool | Call_Recycler nat | Call_Read nat | Call_Write nat bool

text \<open>
  The functions installed for an agent. An agent keeps a pointer to them, into the object that
  owns them: a listening agent, a client, or a table of the user. What the owner writes there
  later is what its agents call from then on. The owners outlive the agents in the model.
\<close>

record agent_ops =
  op_name :: string
  connect_after_op :: "nat option"
  recycler_after_op :: "nat option"
  read_back_op :: "nat option"
  write_back_op :: "nat option"

definition default_operation :: agent_ops where
  "default_operation = \<lparr>op_name = ''default operations'', connect_after_op = None, recycler_after_op = None,
     read_back_op = None, write_back_op = None\<rparr>"

datatype op_place = Of_Listener nat | Of_Client nat | Of_User nat

record kern =
  interest :: "int \<Rightarrow> u32 option"
  ctl_count :: nat
  calls :: "call list"
  op_tables :: "op_place \<Rightarrow> agent_ops"

record netenv =
  ctl_fails :: "nat \<Rightarrow> bool"
  sys_of :: sys
  ip_type :: int
  call_int :: "nat \<Rightarrow> int"
  errno_of :: "int \<Rightarrow> int"

definition EPOLLIN :: u32 where "EPOLLIN = 1"
definition EPOLLOUT :: u32 where "EPOLLOUT = 4"
definition EPOLLERR :: u32 where "EPOLLERR = 8"
definition EPOLLHUP :: u32 where "EPOLLHUP = 16"

definition LEVELEVENTS :: u32 where
  "LEVELEVENTS = EPOLLIN OR EPOLLOUT OR EPOLLERR OR EPOLLHUP"

subsection \<open>EpollEvent\<close>

record epoll_event =
  ev_mask :: u32
  rlock :: u32
  wlock :: u32
  ev_read :: bool
  ev_write :: bool
  mHandler :: "nat option"
  m_Epoll :: bool
  mFd :: int

definition new_epoll_event :: "bool \<Rightarrow> bool \<Rightarrow> epoll_event" where
  "new_epoll_event unset_read unset_write = \<lparr>ev_mask = 0, rlock = 0, wlock = 0, ev_read = unset_read,
     ev_write = unset_write, mHandler = None, m_Epoll = False, mFd = - 1\<rparr>"

definition set_fd :: "int \<Rightarrow> epoll_event \<Rightarrow> epoll_event" where
  "set_fd fd v = v\<lparr>mFd := fd, ev_mask := 0, rlock := 0, wlock := 0\<rparr>"

definition set_epoll :: "bool \<Rightarrow> epoll_event \<Rightarrow> epoll_event" where
  "set_epoll epl v = v\<lparr>m_Epoll := epl\<rparr>"

definition set_handler :: "nat option \<Rightarrow> epoll_event \<Rightarrow> epoll_event" where
  "set_handler h v = v\<lparr>mHandler := h\<rparr>"

text \<open>\<open>Epoll::doEvent\<close>\<close>

definition do_event :: "netenv \<Rightarrow> int \<Rightarrow> ctl \<Rightarrow> u32 \<Rightarrow> kern \<Rightarrow> int \<times> kern" where
  "do_event e fd oper evs k = (let k' = k\<lparr>ctl_count := ctl_count k + 1\<rparr> in
     if ctl_fails e (ctl_count k) then (- 1, k')
     else (0, k'\<lparr>interest := (interest k)(fd := (if oper = CTL_DEL then None else Some evs))\<rparr>))"

text \<open>The call \<open>m_Epoll->doEvent(this, mFd, ...)\<close> with the mask of the event.\<close>

definition event_ctl :: "netenv \<Rightarrow> ctl \<Rightarrow> epoll_event \<Rightarrow> kern \<Rightarrow> (int \<times> epoll_event \<times> kern) run" where
  "event_ctl e oper v k = (if m_Epoll v then let (r, k') = do_event e (mFd v) oper (ev_mask v) k in Inr (r, v, k')
     else Inl Null_Deref)"

definition close_revent :: "netenv \<Rightarrow> epoll_event \<Rightarrow> kern \<Rightarrow> (int \<times> epoll_event \<times> kern) run" where
  "close_revent e v k =
     (if mFd v = - 1 then Inr (0, v, k)
      else let v1 = v\<lparr>rlock := rlock v + 1\<rparr> in
        if rlock v \<noteq> 0 then Inr (0, v1, k)
        else event_ctl e CTL_MOD (v1\<lparr>ev_read := False, ev_mask := ev_mask v AND NOT EPOLLIN\<rparr>) k)"

definition open_revent :: "netenv \<Rightarrow> epoll_event \<Rightarrow> kern \<Rightarrow> (int \<times> epoll_event \<times> kern) run" where
  "open_revent e v k =
     (if mFd v = - 1 then Inr (0, v, k)
      else let l = (if rlock v = 0 then 0 else rlock v - 1); v1 = v\<lparr>rlock := l\<rparr> in
        if l \<noteq> 0 \<or> ev_read v then Inr (0, v1, k)
        else event_ctl e CTL_MOD (v1\<lparr>ev_read := True, ev_mask := ev_mask v OR EPOLLIN\<rparr>) k)"

definition close_wevent :: "netenv \<Rightarrow> epoll_event \<Rightarrow> kern \<Rightarrow> (int \<times> epoll_event \<times> kern) run" where
  "close_wevent e v k =
     (if mFd v = - 1 then Inr (0, v, k)
      else let v1 = v\<lparr>wlock := wlock v + 1\<rparr> in
        if wlock v \<noteq> 0 then Inr (0, v1, k)
        else event_ctl e CTL_MOD (v1\<lparr>ev_write := False, ev_mask := ev_mask v AND NOT EPOLLOUT\<rparr>) k)"

definition open_wevent :: "netenv \<Rightarrow> epoll_event \<Rightarrow> kern \<Rightarrow> (int \<times> epoll_event \<times> kern) run" where
  "open_wevent e v k =
     (if mFd v = - 1 \<or> ev_write v then Inr (0, v, k)
      else let l = (if wlock v = 0 then 0 else wlock v - 1); v1 = v\<lparr>wlock := l\<rparr> in
        if l \<noteq> 0 then Inr (0, v1, k)
        else event_ctl e CTL_MOD (v1\<lparr>ev_write := True, ev_mask := ev_mask v OR EPOLLOUT\<rparr>) k)"

definition register_events :: "netenv \<Rightarrow> u32 \<Rightarrow> bool \<Rightarrow> bool \<Rightarrow> ctl \<Rightarrow> epoll_event \<Rightarrow> kern \<Rightarrow> (int \<times> epoll_event \<times> kern) run" where
  "register_events e evs r w oper v k =
     (if mFd v = - 1 then Inr (0, v, k)
      else event_ctl e oper (v\<lparr>ev_mask := evs, ev_read := r, ev_write := w\<rparr>) k)"

definition register_revent :: "netenv \<Rightarrow> epoll_event \<Rightarrow> kern \<Rightarrow> (int \<times> epoll_event \<times> kern) run" where
  "register_revent e = register_events e EPOLLIN True False CTL_ADD"

definition register_wevent :: "netenv \<Rightarrow> epoll_event \<Rightarrow> kern \<Rightarrow> (int \<times> epoll_event \<times> kern) run" where
  "register_wevent e = register_events e EPOLLOUT False True CTL_ADD"

definition register_rwevents :: "netenv \<Rightarrow> epoll_event \<Rightarrow> kern \<Rightarrow> (int \<times> epoll_event \<times> kern) run" where
  "register_rwevents e = register_events e LEVELEVENTS True True CTL_ADD"

definition unregister_rwevents :: "netenv \<Rightarrow> epoll_event \<Rightarrow> kern \<Rightarrow> (int \<times> epoll_event \<times> kern) run" where
  "unregister_rwevents e = register_events e LEVELEVENTS False False CTL_DEL"

lemmas event_ops = close_revent_def open_revent_def close_wevent_def open_wevent_def
  register_revent_def register_wevent_def register_rwevents_def unregister_rwevents_def register_events_def

subsection \<open>Agent\<close>

record agent =
  m_nRefCount :: int
  m_bIsRecycler :: bool
  m_iConnect :: int
  m_iConnectTimes :: int

definition CONNECTING :: int where "CONNECTING = 0"
definition CONNECTED :: int where "CONNECTED = 1"

definition allow_reconnect :: "('a) agent_scheme \<Rightarrow> bool" where
  "allow_reconnect a \<longleftrightarrow> m_iConnectTimes a < 3"

definition reset_connect :: "('a) agent_scheme \<Rightarrow> ('a) agent_scheme" where
  "reset_connect a = a\<lparr>m_iConnectTimes := 0\<rparr>"

definition agent_ref :: "('a) agent_scheme \<Rightarrow> ('a) agent_scheme" where
  "agent_ref a = a\<lparr>m_nRefCount := m_nRefCount a + 1\<rparr>"

definition agent_release :: "('a) agent_scheme \<Rightarrow> ('a) agent_scheme" where
  "agent_release a = a\<lparr>m_nRefCount := m_nRefCount a - 1\<rparr>"

subsection \<open>TCPAgent\<close>

record tcp_agent = agent +
  m_Socket :: int
  m_Addr :: sock_addr
  mEvent :: epoll_event
  m_Bufv :: bufmgr
  m_isActive :: bool
  agent_op :: "op_place option option"
  m_index :: "u32 option"

definition init_addr :: "int \<Rightarrow> sock_addr" where
  "init_addr ipType = new_addr ipType ''0'' 0"

text \<open>The three constructors; \<open>op\<close> and \<open>m_index\<close> are not set by any of them.\<close>

definition new_tcp_agent :: "netenv \<Rightarrow> bool \<Rightarrow> bool \<Rightarrow> bool \<Rightarrow> tcp_agent" where
  "new_tcp_agent e epl ur uw =
     \<lparr>m_nRefCount = 0, m_bIsRecycler = False, m_iConnect = CONNECTING, m_iConnectTimes = - 1,
      m_Socket = - 1, m_Addr = empty_addr (ip_type e), mEvent = set_epoll epl (new_epoll_event ur uw),
      m_Bufv = set_agent new_bufmgr, m_isActive = True, agent_op = None, m_index = None\<rparr>"

definition new_tcp_agent_addr :: "netenv \<Rightarrow> sock_addr \<Rightarrow> bool \<Rightarrow> bool \<Rightarrow> bool \<Rightarrow> tcp_agent" where
  "new_tcp_agent_addr e addr epl ur uw = (new_tcp_agent e epl ur uw)\<lparr>m_Addr := addr\<rparr>"

definition new_tcp_agent_sock :: "netenv \<Rightarrow> nat \<Rightarrow> int \<Rightarrow> sock_addr \<Rightarrow> bool \<Rightarrow> bool \<Rightarrow> bool \<Rightarrow> tcp_agent" where
  "new_tcp_agent_sock e this sock addr epl ur uw =
     (let a = new_tcp_agent e epl ur uw
      in a\<lparr>m_Socket := sock, m_Addr := addr, m_isActive := False, m_iConnect := CONNECTED,
          mEvent := set_handler (Some this) (set_fd sock (mEvent a))\<rparr>)"

text \<open>Running an operation of the event of an agent.\<close>

definition on_event :: "(epoll_event \<Rightarrow> kern \<Rightarrow> (int \<times> epoll_event \<times> kern) run) \<Rightarrow> tcp_agent \<Rightarrow> kern \<Rightarrow>
    (int \<times> tcp_agent \<times> kern) run" where
  "on_event f a k = and_then (f (mEvent a) k) (\<lambda>(r, v, k'). Inr (r, a\<lparr>mEvent := v\<rparr>, k'))"

text \<open>The pointer \<open>op\<close>: unset, null, or a table of functions.\<close>

definition get_op :: "tcp_agent \<Rightarrow> kern \<Rightarrow> agent_ops option run" where
  "get_op a k = (case agent_op a of None \<Rightarrow> Inl Uninitialised | Some p \<Rightarrow> Inr (map_option (op_tables k) p))"

definition tcp_init :: "netenv \<Rightarrow> op_place option \<Rightarrow> tcp_agent \<Rightarrow> kern \<Rightarrow> (int \<times> tcp_agent \<times> kern) run" where
  "tcp_init e ops a k = and_then (on_event (register_revent e) a k) (\<lambda>(r, a1, k1).
     if r < 0 then Inr (- 1, a1, k1) else Inr (0, a1\<lparr>agent_op := Some ops\<rparr>, k1))"

definition set_agent_operations :: "op_place \<Rightarrow> tcp_agent \<Rightarrow> tcp_agent" where
  "set_agent_operations ops a = a\<lparr>agent_op := Some (Some ops)\<rparr>"

definition tcp_recycler :: "netenv \<Rightarrow> tcp_agent \<Rightarrow> kern \<Rightarrow> (int \<times> tcp_agent \<times> kern) run" where
  "tcp_recycler e a k =
     (if m_bIsRecycler a then Inr (0, a, k)
      else and_then (on_event (unregister_rwevents e) (a\<lparr>m_bIsRecycler := True\<rparr>) k) (\<lambda>(r, a1, k1).
        if r < 0 then Inr (- 1, a1, k1)
        else let a2 = a1\<lparr>mEvent := set_handler None (set_fd (- 1) (mEvent a1))\<rparr>;
                 (c, fd) = close_socket (sys_of e) (m_Socket a2); a3 = a2\<lparr>m_Socket := fd\<rparr>
          in if c < 0 then Inr (- 1, a3, k1)
             else and_then (get_op a3 k1) (\<lambda>p.
               case p of
                 None \<Rightarrow> Inr (0, a3, k1)
               | Some ops \<Rightarrow> (case recycler_after_op ops of
                     None \<Rightarrow> Inr (0, a3, k1)
                   | Some f \<Rightarrow> Inr (call_int e f, a3, k1\<lparr>calls := calls k1 @ [Call_Recycler f]\<rparr>)))))"

definition tcp_connect :: "netenv \<Rightarrow> nat \<Rightarrow> sock_addr \<Rightarrow> tcp_agent \<Rightarrow> kern \<Rightarrow> (int \<times> tcp_agent \<times> kern) run" where
  "tcp_connect e this addr a k =
     (let sy = sys_of e; a1 = a\<lparr>m_iConnectTimes := m_iConnectTimes a + 1\<rparr>;
          a2 = a1\<lparr>m_Socket := snd (close_socket sy (m_Socket a1)), m_Addr := addr_assign addr\<rparr>;
          (g, fd) = generate_socket sy (ip_type e); a3 = a2\<lparr>m_Socket := fd\<rparr>
      in if g < 0 \<or> disable_nagle sy fd < 0 \<or> disable_linger sy fd < 0 \<or> set_nonblock sy fd < 0
           \<or> set_keep_alive sy fd < 0 then Inr (- 1, a3, k)
         else let a4 = a3\<lparr>mEvent := set_handler (Some this) (set_fd fd (mEvent a3))\<rparr>
           in and_then (on_event (register_rwevents e) a4 k) (\<lambda>(r, a5, k5).
                Inr (if r < 0 then - 1 else 0, a5, k5)))"

definition tcp_get_errno :: "netenv \<Rightarrow> tcp_agent \<Rightarrow> int" where
  "tcp_get_errno e a = errno_of e (m_Socket a)"

definition tcp_connect_after :: "netenv \<Rightarrow> bool \<Rightarrow> tcp_agent \<Rightarrow> kern \<Rightarrow> (int \<times> tcp_agent \<times> kern) run" where
  "tcp_connect_after e ok a k = and_then (get_op a k) (\<lambda>p. case p of
       None \<Rightarrow> Inr (0, a, k)
     | Some ops \<Rightarrow> (case connect_after_op ops of
           None \<Rightarrow> Inr (0, a, k)
         | Some f \<Rightarrow> Inr (call_int e f, a, k\<lparr>calls := calls k @ [Call_Connect f ok]\<rparr>)))"

text \<open>\<open>setState\<close>: whatever state is asked for, the agent becomes connected.\<close>

definition tcp_set_state :: "netenv \<Rightarrow> int \<Rightarrow> tcp_agent \<Rightarrow> kern \<Rightarrow> (tcp_agent \<times> kern) run" where
  "tcp_set_state e st a k = (let a1 = a\<lparr>m_iConnect := CONNECTED\<rparr> in
     if st = CONNECTED then and_then (on_event (close_wevent e) a1 k) (\<lambda>(r, a2, k2). Inr (a2, k2))
     else Inr (a1, k))"

text \<open>\<open>readBack\<close> and \<open>writeBack\<close>: the first dereferences \<open>op\<close> in the message it logs for a null \<open>op\<close>.\<close>

definition tcp_read_back :: "tcp_agent \<Rightarrow> kern \<Rightarrow> kern run" where
  "tcp_read_back a k = and_then (get_op a k) (\<lambda>p. case p of
       None \<Rightarrow> Inl Null_Deref
     | Some ops \<Rightarrow> (case read_back_op ops of None \<Rightarrow> Inr k
         | Some f \<Rightarrow> Inr (k\<lparr>calls := calls k @ [Call_Read f]\<rparr>)))"

definition tcp_write_back :: "bool \<Rightarrow> tcp_agent \<Rightarrow> kern \<Rightarrow> kern run" where
  "tcp_write_back ok a k = and_then (get_op a k) (\<lambda>p. case p of
       None \<Rightarrow> Inr k
     | Some ops \<Rightarrow> (case write_back_op ops of None \<Rightarrow> Inr k
         | Some f \<Rightarrow> Inr (k\<lparr>calls := calls k @ [Call_Write f ok]\<rparr>)))"

text \<open>The events the buffer manager has raised, delivered to the agent.\<close>

fun deliver_events :: "tcp_agent \<Rightarrow> event list \<Rightarrow> kern \<Rightarrow> kern run" where
  "deliver_events a [] k = Inr k"
| "deliver_events a (Read_Back h b # vs) k = and_then (tcp_read_back a k) (deliver_events a vs)"
| "deliver_events a (Write_Back None ok # vs) k = and_then (tcp_write_back ok a k) (deliver_events a vs)"
| "deliver_events a (Write_Back (Some t) ok # vs) k = deliver_events a vs k"

definition raised :: "bufmgr \<Rightarrow> bufmgr \<Rightarrow> event list" where
  "raised b b' = drop (length (events b)) (events b')"

definition tcp_read_data :: "tcp_agent \<Rightarrow> segment list \<Rightarrow> kern \<Rightarrow> (int \<times> tcp_agent \<times> segment list \<times> kern) run" where
  "tcp_read_data a ss k = and_then (buf_read (m_Bufv a) ss) (\<lambda>(r, b, ss').
     and_then (deliver_events a (raised (m_Bufv a) b) k) (\<lambda>k1.
       Inr (if r < 0 then - 1 else 0, a\<lparr>m_Bufv := b\<rparr>, ss', k1)))"

definition tcp_write_data :: "netenv \<Rightarrow> tcp_agent \<Rightarrow> wanswer list \<Rightarrow> kern \<Rightarrow> (int \<times> tcp_agent \<times> wanswer list \<times> kern) run" where
  "tcp_write_data e a ws k = (case buf_write ws (m_Bufv a) of
       None \<Rightarrow> Inl Diverges
     | Some (r, b, ws') \<Rightarrow>
         and_then (deliver_events a (raised (m_Bufv a) b) k) (\<lambda>k1.
           let a1 = a\<lparr>m_Bufv := b\<rparr> in
           if r < 0 then Inr (- 1, a1, ws', k1)
           else if get_length b = 0 then
             and_then (on_event (close_wevent e) a1 k1) (\<lambda>(c, a2, k2). Inr (if c < 0 then - 1 else 0, a2, ws', k2))
           else Inr (0, a1, ws', k1)))"

definition tcp_write_dyn :: "netenv \<Rightarrow> nat \<Rightarrow> byte list \<Rightarrow> nat option \<Rightarrow> tcp_agent \<Rightarrow> kern \<Rightarrow> (int \<times> tcp_agent \<times> kern) run" where
  "tcp_write_dyn e buffer data task a k =
     (let a1 = a\<lparr>m_Bufv := snd (write_dynamic buffer data task (m_Bufv a))\<rparr>
      in and_then (on_event (open_wevent e) a1 k) (\<lambda>(r, a2, k2). Inr (if r < 0 then - 1 else 0, a2, k2)))"

text \<open>
  \<open>send_data\<close>. \<open>head.length\<close> and \<open>all\<close> have 32 bits, the second with a sign: a negative size makes
  \<open>new\<close> throw, and a size that has wrapped round is less than the header and the data that are
  then copied.
\<close>

definition message_size :: "byte list \<Rightarrow> int" where
  "message_size data = sint (word_of_int (20 + uint (of_nat (length data) :: u32)) :: u32)"

definition tcp_send_data :: "netenv \<Rightarrow> nat \<Rightarrow> u32 \<Rightarrow> u32 \<Rightarrow> u32 \<Rightarrow> u32 \<Rightarrow> byte list \<Rightarrow> tcp_agent \<Rightarrow> kern \<Rightarrow>
    (int \<times> tcp_agent \<times> kern) run" where
  "tcp_send_data e buffer c err p1 p2 data a k =
     (let all = message_size data; m = message_bytes c err p1 p2 data in
      if all < 0 then Inl Bad_Alloc
      else if nat all < length m then Inl Out_Of_Bounds
      else and_then (tcp_write_dyn e buffer m None a k)
        (\<lambda>(r, a1, k1). Inr (if r < 0 then - 1 else 0, a1, k1)))"

definition tcp_get_opp_addr :: "netenv \<Rightarrow> tcp_agent \<Rightarrow> sock_addr option" where
  "tcp_get_opp_addr e a = (if addr_eq (init_addr (ip_type e)) (m_Addr a) then None else Some (addr_assign (m_Addr a)))"

subsection \<open>The gates of an event\<close>

text \<open>
  The four operations that switch reading and writing off and on again nest: the state they
  promise is two depths, and an interest is registered exactly when its depth is 0.
\<close>

datatype gate_op = Close_R | Open_R | Close_W | Open_W

fun gate_step :: "netenv \<Rightarrow> gate_op \<Rightarrow> epoll_event \<Rightarrow> kern \<Rightarrow> (int \<times> epoll_event \<times> kern) run" where
  "gate_step e Close_R = close_revent e"
| "gate_step e Open_R = open_revent e"
| "gate_step e Close_W = close_wevent e"
| "gate_step e Open_W = open_wevent e"

fun run_gates :: "netenv \<Rightarrow> gate_op list \<Rightarrow> epoll_event \<Rightarrow> kern \<Rightarrow> (epoll_event \<times> kern) run" where
  "run_gates e [] v k = Inr (v, k)"
| "run_gates e (g # gs) v k = and_then (gate_step e g v k) (\<lambda>(r, v', k'). run_gates e gs v' k')"

fun depths :: "gate_op list \<Rightarrow> nat \<times> nat \<Rightarrow> nat \<times> nat" where
  "depths [] d = d"
| "depths (Close_R # gs) (r, w) = depths gs (r + 1, w)"
| "depths (Open_R # gs) (r, w) = depths gs (r - 1, w)"
| "depths (Close_W # gs) (r, w) = depths gs (r, w + 1)"
| "depths (Open_W # gs) (r, w) = depths gs (r, w - 1)"

definition gate_mask :: "nat \<times> nat \<Rightarrow> u32" where
  "gate_mask d = (if fst d = 0 then EPOLLIN else 0) OR (if snd d = 0 then EPOLLOUT else 0) OR EPOLLERR OR EPOLLHUP"

definition gates :: "epoll_event \<Rightarrow> kern \<Rightarrow> nat \<times> nat \<Rightarrow> bool" where
  "gates v k d \<longleftrightarrow> mFd v \<noteq> - 1 \<and> m_Epoll v \<and> unat (rlock v) = fst d \<and> unat (wlock v) = snd d \<and>
     (ev_read v \<longleftrightarrow> fst d = 0) \<and> (ev_write v \<longleftrightarrow> snd d = 0) \<and> ev_mask v = gate_mask d \<and>
     interest k (mFd v) = Some (ev_mask v)"

lemma gate_mask_bits:
  "gate_mask (r, w) AND EPOLLIN \<noteq> 0 \<longleftrightarrow> r = 0"
  "gate_mask (r, w) AND EPOLLOUT \<noteq> 0 \<longleftrightarrow> w = 0"
  by (cases "r = 0"; cases "w = 0"; simp add: gate_mask_def EPOLLIN_def EPOLLOUT_def EPOLLERR_def EPOLLHUP_def)+

lemma gate_mask_upd:
  "gate_mask (0, w) AND NOT EPOLLIN = gate_mask (Suc 0, w)" "gate_mask (r, 0) AND NOT EPOLLOUT = gate_mask (r, Suc 0)"
  "gate_mask (r, w) OR EPOLLIN = gate_mask (0, w)" "gate_mask (r, w) OR EPOLLOUT = gate_mask (r, 0)"
  by (cases "r = 0"; cases "w = 0"; simp add: gate_mask_def EPOLLIN_def EPOLLOUT_def EPOLLERR_def EPOLLHUP_def)+

lemma gate_mask_same:
  "0 < r \<Longrightarrow> gate_mask (Suc r, w) = gate_mask (r, w)" "0 < w \<Longrightarrow> gate_mask (r, Suc w) = gate_mask (r, w)"
  "1 < r \<Longrightarrow> gate_mask (r - Suc 0, w) = gate_mask (r, w)" "1 < w \<Longrightarrow> gate_mask (r, w - Suc 0) = gate_mask (r, w)"
  by (simp_all add: gate_mask_def)

lemma unat_plus_one: "unat w + 1 < 2 ^ 32 \<Longrightarrow> unat (w + 1 :: u32) = unat w + 1"
  by (simp add: unat_word_ariths)

lemma unat_minus_one_pos: "w \<noteq> 0 \<Longrightarrow> unat (w - 1 :: u32) = unat w - 1"
  by (rule unat_minus_one)

lemma gate_step_refines:
  assumes "gates v k d" "\<forall>n. \<not> ctl_fails e n" "fst d + 1 < 2 ^ 32" "snd d + 1 < 2 ^ 32"
  shows "\<exists>v' k'. gate_step e g v k = Inr (0, v', k') \<and> gates v' k' (depths [g] d) \<and> mFd v' = mFd v"
proof (cases d)
  case (Pair r w)
  have g: "mFd v \<noteq> - 1" "m_Epoll v" "unat (rlock v) = r" "unat (wlock v) = w" "ev_read v \<longleftrightarrow> r = 0"
    "ev_write v \<longleftrightarrow> w = 0" "ev_mask v = gate_mask (r, w)" "interest k (mFd v) = Some (gate_mask (r, w))"
    using assms(1) Pair by (simp_all add: gates_def)
  have z: "rlock v = 0 \<longleftrightarrow> r = 0" "wlock v = 0 \<longleftrightarrow> w = 0" using g unat_eq_zero by metis+
  have p: "unat (rlock v + 1) = Suc r" "unat (wlock v + 1) = Suc w"
    using g assms(3,4) Pair unat_plus_one by simp_all
  have m: "0 < r \<Longrightarrow> unat (rlock v - 1) = r - Suc 0" "0 < w \<Longrightarrow> unat (wlock v - 1) = w - Suc 0"
    using g z unat_minus_one_pos by auto
  have m0: "0 < r \<Longrightarrow> rlock v - 1 = 0 \<longleftrightarrow> r = 1" "0 < w \<Longrightarrow> wlock v - 1 = 0 \<longleftrightarrow> w = 1"
    using m unat_eq_zero[of "rlock v - 1"] unat_eq_zero[of "wlock v - 1"] by auto
  note facts = gates_def event_ops event_ctl_def do_event_def Let_def
  show ?thesis
  proof (cases g)
    case Close_R
    then show ?thesis using g z p assms(2) Pair by (cases "r = 0") (simp_all add: facts gate_mask_upd gate_mask_same)
  next
    case Open_R
    consider "r = 0" | "r = 1" | "1 < r" by linarith
    then show ?thesis
      by cases (use Open_R g z m m0 assms(2) Pair in \<open>simp_all add: facts gate_mask_upd gate_mask_same\<close>)
  next
    case Close_W
    then show ?thesis using g z p assms(2) Pair by (cases "w = 0") (simp_all add: facts gate_mask_upd gate_mask_same)
  next
    case Open_W
    consider "w = 0" | "w = 1" | "1 < w" by linarith
    then show ?thesis
      by cases (use Open_W g z m m0 assms(2) Pair in \<open>simp_all add: facts gate_mask_upd gate_mask_same\<close>)
  qed
qed

lemma depths_append: "depths (xs @ ys) d = depths ys (depths xs d)"
  by (induction xs d rule: depths.induct) simp_all

lemma depths_bound: "fst (depths gs d) \<le> fst d + length gs \<and> snd (depths gs d) \<le> snd d + length gs"
  by (induction gs d rule: depths.induct) auto

lemma run_gates_refines:
  assumes "gates v k d" "\<forall>n. \<not> ctl_fails e n" "fst d + length gs < 2 ^ 32" "snd d + length gs < 2 ^ 32"
  shows "\<exists>v' k'. run_gates e gs v k = Inr (v', k') \<and> gates v' k' (depths gs d) \<and> mFd v' = mFd v"
  using assms
proof (induction gs arbitrary: v k d)
  case (Cons g gs)
  obtain v1 k1 where 1: "gate_step e g v k = Inr (0, v1, k1)" "gates v1 k1 (depths [g] d)" "mFd v1 = mFd v"
    using gate_step_refines[OF Cons.prems(1,2)] Cons.prems(3,4) by fastforce
  have d: "depths (g # gs) d = depths gs (depths [g] d)" using depths_append[of "[g]" gs d] by simp
  have b: "fst (depths [g] d) \<le> fst d + 1" "snd (depths [g] d) \<le> snd d + 1" using depths_bound[of "[g]" d] by simp_all
  show ?case using Cons.IH[OF 1(2) Cons.prems(2)] Cons.prems(3,4) b 1(1,3) unfolding d by fastforce
qed simp

text \<open>
  C23 Switching reading and writing off and on: for a descriptor registered for both, any sequence
  of \<open>closeRevent\<close>, \<open>openRevent\<close>, \<open>closeWevent\<close> and \<open>openWevent\<close> leaves the kernel watching for input
  exactly when as many opens as closes have followed (an open too many is ignored), and the same
  for output; it always agrees with the event's own mask, and errors stay watched.
\<close>

theorem gates_nest:
  assumes "mFd v \<noteq> - 1" "m_Epoll v" "\<forall>n. \<not> ctl_fails e n" "length gs < 2 ^ 32"
  shows "\<exists>v0 k0 v' k'. register_rwevents e (set_fd (mFd v) v) k = Inr (0, v0, k0) \<and>
    run_gates e gs v0 k0 = Inr (v', k') \<and> interest k' (mFd v) = Some (ev_mask v') \<and>
    (ev_mask v' AND EPOLLIN \<noteq> 0 \<longleftrightarrow> fst (depths gs (0, 0)) = 0) \<and>
    (ev_mask v' AND EPOLLOUT \<noteq> 0 \<longleftrightarrow> snd (depths gs (0, 0)) = 0) \<and>
    ev_mask v' AND EPOLLERR \<noteq> 0 \<and> ev_mask v' AND EPOLLHUP \<noteq> 0"
proof -
  let ?v0 = "(set_fd (mFd v) v)\<lparr>ev_mask := LEVELEVENTS, ev_read := True, ev_write := True\<rparr>"
  let ?k0 = "k\<lparr>ctl_count := ctl_count k + 1, interest := (interest k)(mFd v := Some LEVELEVENTS)\<rparr>"
  have "register_rwevents e (set_fd (mFd v) v) k = Inr (0, ?v0, ?k0)"
    using assms(1-3) by (simp add: register_rwevents_def register_events_def event_ctl_def do_event_def Let_def set_fd_def)
  moreover have "gates ?v0 ?k0 (0, 0)"
    using assms(1,2) by (simp add: gates_def set_fd_def gate_mask_def LEVELEVENTS_def or.assoc)
  ultimately obtain v0 k0 where 0: "register_rwevents e (set_fd (mFd v) v) k = Inr (0, v0, k0)" "gates v0 k0 (0, 0)"
    "mFd v0 = mFd v" by (simp add: set_fd_def)
  obtain v' k' where 1: "run_gates e gs v0 k0 = Inr (v', k')" "gates v' k' (depths gs (0, 0))" "mFd v' = mFd v0"
    using run_gates_refines[OF 0(2) assms(3), of gs] assms(4) by auto
  have m: "ev_mask v' = gate_mask (depths gs (0, 0))" "interest k' (mFd v) = Some (ev_mask v')"
    using 1(2,3) 0(3) by (simp_all add: gates_def)
  have "gate_mask d AND EPOLLERR \<noteq> 0 \<and> gate_mask d AND EPOLLHUP \<noteq> 0" for d
    by (cases "fst d = 0"; cases "snd d = 0") (simp_all add: gate_mask_def EPOLLIN_def EPOLLOUT_def EPOLLERR_def EPOLLHUP_def)
  then show ?thesis using 0(1) 1(1) m gate_mask_bits[of "fst (depths gs (0, 0))" "snd (depths gs (0, 0))"] by simp
qed

definition quiet_sys :: sys where
  "quiet_sys = \<lparr>sys_socket = \<lambda>v4. 7, sys_close = \<lambda>fd. 0, sys_setsockopt = \<lambda>fd nm. 0, sys_getfl = \<lambda>fd. 0,
     sys_setfl = \<lambda>fd v. 0, sys_inet_ok = \<lambda>s. True, sys_bind = \<lambda>fd a. 0, sys_listen = \<lambda>fd n. 0,
     sys_accept = \<lambda>fd. (8, ''10.0.0.2'', 4242), sys_connect = \<lambda>fd a. 0\<rparr>"

definition quiet_env :: netenv where
  "quiet_env = \<lparr>ctl_fails = \<lambda>n. False, sys_of = quiet_sys, ip_type = 4, call_int = \<lambda>f. 0, errno_of = \<lambda>fd. 106\<rparr>"

definition demo_ops :: agent_ops where
  "demo_ops = \<lparr>op_name = ''demo'', connect_after_op = Some 1, recycler_after_op = Some 2, read_back_op = Some 3,
     write_back_op = Some 4\<rparr>"

definition quiet_kern :: kern where
  "quiet_kern = \<lparr>interest = \<lambda>fd. None, ctl_count = 0, calls = [], op_tables = \<lambda>p. demo_ops\<rparr>"

lemma gates_nest_witness:
  "\<exists>v0 k0 v' k'. register_rwevents quiet_env (set_fd 7 (set_epoll True (set_fd 7 (new_epoll_event True True)))) quiet_kern
        = Inr (0, v0, k0) \<and>
     run_gates quiet_env [Close_W, Close_R, Close_R, Open_R, Open_W, Close_W, Open_R, Open_R] v0 k0 = Inr (v', k') \<and>
     ev_mask v' AND EPOLLIN \<noteq> 0 \<and> \<not> ev_mask v' AND EPOLLOUT \<noteq> 0"
  using gates_nest[of "set_epoll True (set_fd 7 (new_epoll_event True True))" quiet_env
      "[Close_W, Close_R, Close_R, Open_R, Open_W, Close_W, Open_R, Open_R]" quiet_kern]
  by (auto simp: quiet_env_def set_epoll_def set_fd_def)

subsection \<open>Sending and recycling\<close>

definition writable_agent :: "tcp_agent \<Rightarrow> kern \<Rightarrow> bool" where
  "writable_agent a k \<longleftrightarrow> (let v = mEvent a in mFd v \<noteq> - 1 \<and> m_Epoll v \<and> unat (wlock v) \<le> 1 \<and>
     (ev_write v \<longrightarrow> wlock v = 0 \<and> ev_mask v AND EPOLLOUT \<noteq> 0) \<and> interest k (mFd v) = Some (ev_mask v))"

lemma one_bit_or: "((m::u32) OR EPOLLOUT) AND EPOLLOUT \<noteq> 0"
  by (simp add: bit.conj_disj_distrib2 word_bw_comms EPOLLOUT_def)

lemma one_bit_clear: "((m::u32) AND NOT EPOLLOUT) AND EPOLLOUT = 0"
  by (simp add: word_bw_assocs)

lemma open_wevent_writable:
  assumes "writable_agent a k" "\<forall>n. \<not> ctl_fails e n"
  shows "\<exists>v' k'. open_wevent e (mEvent a) k = Inr (0, v', k') \<and> ev_write v' \<and> wlock v' = 0 \<and> mFd v' = mFd (mEvent a) \<and>
     m_Epoll v' \<and> interest k' (mFd v') = Some (ev_mask v') \<and> ev_mask v' AND EPOLLOUT \<noteq> 0 \<and> calls k' = calls k \<and> op_tables k' = op_tables k"
proof -
  let ?v = "mEvent a"
  have "unat (wlock ?v) = 0 \<or> unat (wlock ?v) = 1" using assms(1) by (auto simp: writable_agent_def Let_def)
  then have w: "wlock ?v = 0 \<or> wlock ?v = 1" by (metis word_eq_iff_unsigned unat_0 unat_1)
  then show ?thesis using assms one_bit_or
    by (cases "ev_write ?v")
      (auto simp: writable_agent_def open_wevent_def event_ctl_def do_event_def Let_def)
qed

lemma close_wevent_open:
  assumes "mFd v \<noteq> - 1" "m_Epoll v" "wlock v = 0" "\<forall>n. \<not> ctl_fails e n"
  shows "\<exists>v' k'. close_wevent e v k = Inr (0, v', k') \<and> \<not> ev_write v' \<and> wlock v' = 1 \<and> mFd v' = mFd v \<and>
     m_Epoll v' \<and> interest k' (mFd v') = Some (ev_mask v') \<and> ev_mask v' AND EPOLLOUT = 0 \<and> calls k' = calls k"
  using assms one_bit_clear[of "ev_mask v"] by (simp add: close_wevent_def event_ctl_def do_event_def Let_def)

lemma data_size:
  assumes "length data < 2 ^ 32"
  shows "unat (of_nat (length data) :: u32) = length data"
    "message_size data = signed_take_bit 31 (20 + int (length data))"
proof -
  show u: "unat (of_nat (length data) :: u32) = length data" using assms by (simp add: unat_of_nat)
  have "uint (of_nat (length data) :: u32) = int (length data)" using u by (metis of_nat_unat)
  then show "message_size data = signed_take_bit 31 (20 + int (length data))"
    unfolding message_size_def sint_sbintrunc' by simp
qed

lemma small_size:
  assumes "length data < 2 ^ 31 - 20"
  shows "unat (of_nat (length data) :: u32) = length data" "message_size data = 20 + int (length data)"
proof -
  have n: "length data < 2147483628" using assms by simp
  then show "unat (of_nat (length data) :: u32) = length data" using data_size(1) by simp
  have "signed_take_bit 31 (20 + int (length data)) = 20 + int (length data)"
    using n by (intro signed_take_bit_int_eq_self) auto
  then show "message_size data = 20 + int (length data)" using data_size(2)[of data] n by simp
qed

lemma message_bytes_small:
  assumes "length data < 2 ^ 31 - 20"
  shows "message_bytes c err p1 p2 data =
    header_bytes \<lparr>cmd = c, len = of_nat (length data), error = err, para1 = p1, para2 = p2\<rparr> @ data"
  using small_size(1)[OF assms] by (simp add: message_bytes_def Let_def)

lemma length_message_bytes: "length (message_bytes c err p1 p2 data) = 20 + min (length data) (unat (of_nat (length data) :: u32))"
  by (simp add: message_bytes_def header_bytes_def le_bytes_def Let_def)

lemma send_data_small:
  assumes "length data < 2 ^ 31 - 20"
  shows "tcp_send_data e buffer c err p1 p2 data a k =
    and_then (tcp_write_dyn e buffer (message_bytes c err p1 p2 data) None a k)
      (\<lambda>(r, a1, k1). Inr (if r < 0 then - 1 else 0, a1, k1))"
proof -
  have "\<not> nat (20 + int (length data)) < 20 + length data" by (simp add: nat_add_distrib)
  then show ?thesis using small_size[OF assms] by (simp add: tcp_send_data_def length_message_bytes Let_def)
qed

text \<open>
  C24 Sending a message with less than \<open>2 ^ 31 - 20\<close> bytes of data over an agent whose queue is empty:
  \<open>send_data\<close> queues the header, with the length of the data, followed by the data, and asks the
  kernel to report that the socket can be written; when it then takes the whole of the message,
  \<open>writeData\<close> tells the user so once, releases the buffer once and stops watching for output,
  leaving the agent as it was for the next message. (For more data see \<open>send_data_too_long\<close>.)
\<close>

theorem agent_send_flush:
  assumes "writable_agent a k" "\<forall>n. \<not> ctl_fails e n" "m_Agent (m_Bufv a)" "mIovList (m_Bufv a) = []"
    "mLastIov (m_Bufv a) = None" "agent_op a = Some (Some p)" "write_back_op (op_tables k p) = Some f"
    "length data < 2 ^ 31 - 20"
  shows "\<exists>a1 k1 a2 k2 m1 m2.
    tcp_send_data e buffer c err p1 p2 data a k = Inr (0, a1, k1) \<and>
    interest k1 (mFd (mEvent a)) = Some m1 \<and> m1 AND EPOLLOUT \<noteq> 0 \<and>
    queued (mIovList (m_Bufv a1)) =
      header_bytes \<lparr>cmd = c, len = of_nat (length data), error = err, para1 = p1, para2 = p2\<rparr> @ data \<and>
    tcp_write_data e a1 [Wrote (20 + length data)] k1 = Inr (0, a2, [], k2) \<and>
    interest k2 (mFd (mEvent a)) = Some m2 \<and> m2 AND EPOLLOUT = 0 \<and>
    mIovList (m_Bufv a2) = [] \<and> freed (m_Bufv a2) = freed (m_Bufv a) @ [buffer] \<and>
    calls k2 = calls k @ [Call_Write f True] \<and> writable_agent a2 k2"
proof -
  let ?m = "message_bytes c err p1 p2 data"
  let ?b = "snd (write_dynamic buffer ?m None (m_Bufv a))"
  have lm: "length ?m = 20 + length data" using small_size(1)[OF assms(8)] by (simp add: length_message_bytes)
  obtain v1 k1 where 1: "open_wevent e (mEvent a) k = Inr (0, v1, k1)" "ev_write v1" "wlock v1 = 0"
    "mFd v1 = mFd (mEvent a)" "m_Epoll v1" "interest k1 (mFd v1) = Some (ev_mask v1)"
    "ev_mask v1 AND EPOLLOUT \<noteq> 0" "calls k1 = calls k" "op_tables k1 = op_tables k"
    using open_wevent_writable[OF assms(1,2)] by blast
  let ?a1 = "a\<lparr>m_Bufv := ?b, mEvent := v1\<rparr>"
  have s: "tcp_send_data e buffer c err p1 p2 data a k = Inr (0, ?a1, k1)"
    using 1(1) by (simp add: send_data_small[OF assms(8)] tcp_write_dyn_def on_event_def Let_def)
  have q: "queued (mIovList ?b) = ?m" using assms(4) by (simp add: write_dynamic_def queued_def)
  let ?b' = "?b\<lparr>freed := freed (m_Bufv a) @ [buffer], events := events (m_Bufv a) @ [Write_Back None True], mIovList := []\<rparr>"
  have w: "buf_write [Wrote (20 + length data)] ?b = Some (int (20 + length data), ?b', [])"
    using assms(3-5) lm by (simp add: buf_write_def write_dynamic_def free_iov_def Let_def)
  let ?k1 = "k1\<lparr>calls := calls k1 @ [Call_Write f True]\<rparr>"
  have d: "deliver_events ?a1 (raised ?b ?b') k1 = Inr ?k1"
    using assms(6,7) 1(9) by (simp add: raised_def write_dynamic_def tcp_write_back_def get_op_def)
  have nfd: "mFd v1 \<noteq> - 1" using assms(1) 1(4) by (simp add: writable_agent_def Let_def)
  obtain v2 k2 where 2: "close_wevent e v1 ?k1 = Inr (0, v2, k2)" "\<not> ev_write v2" "wlock v2 = 1" "mFd v2 = mFd v1"
    "m_Epoll v2" "interest k2 (mFd v2) = Some (ev_mask v2)" "ev_mask v2 AND EPOLLOUT = 0" "calls k2 = calls ?k1"
    using close_wevent_open[OF nfd 1(5,3) assms(2)] by blast
  let ?a2 = "?a1\<lparr>m_Bufv := ?b', mEvent := v2\<rparr>"
  have t: "tcp_write_data e ?a1 [Wrote (20 + length data)] k1 = Inr (0, ?a2, [], k2)"
    using w d 2(1) by (simp add: tcp_write_data_def on_event_def get_length_def Let_def)
  have "writable_agent ?a2 k2" using 2(2-6) nfd by (simp add: writable_agent_def Let_def)
  moreover have "interest k1 (mFd (mEvent a)) = Some (ev_mask v1)" "interest k2 (mFd (mEvent a)) = Some (ev_mask v2)"
    using 1(4,6) 2(4,6) by simp_all
  moreover have "mIovList (m_Bufv ?a2) = []" "freed (m_Bufv ?a2) = freed (m_Bufv a) @ [buffer]"
    "queued (mIovList (m_Bufv ?a1)) =
      header_bytes \<lparr>cmd = c, len = of_nat (length data), error = err, para1 = p1, para2 = p2\<rparr> @ data"
    using q message_bytes_small[OF assms(8)] by simp_all
  moreover have "calls k2 = calls k @ [Call_Write f True]" using 2(8) 1(8) by simp
  ultimately show ?thesis using s t 1(7) 2(7) by blast
qed

definition demo_agent :: tcp_agent where
  "demo_agent = set_agent_operations (Of_User 0) (new_tcp_agent_sock quiet_env 1 7 (empty_addr 4) True False False)"

lemma agent_send_flush_witness:
  "\<exists>a1 k1 a2 k2. tcp_send_data quiet_env 50 1 0 0 0 [65, 66] demo_agent (quiet_kern\<lparr>interest := [7 \<mapsto> 0]\<rparr>) = Inr (0, a1, k1) \<and>
     tcp_write_data quiet_env a1 [Wrote 22] k1 = Inr (0, a2, [], k2) \<and> calls k2 = [Call_Write 4 True]"
proof -
  have s: "m_Bufv demo_agent = set_agent new_bufmgr" "agent_op demo_agent = Some (Some (Of_User 0))"
    by (simp_all add: demo_agent_def new_tcp_agent_sock_def new_tcp_agent_def set_agent_operations_def Let_def)
  have "writable_agent demo_agent (quiet_kern\<lparr>interest := [7 \<mapsto> 0]\<rparr>)" "\<forall>n. \<not> ctl_fails quiet_env n"
    "m_Agent (m_Bufv demo_agent)" "mIovList (m_Bufv demo_agent) = []" "mLastIov (m_Bufv demo_agent) = None"
    "write_back_op (op_tables (quiet_kern\<lparr>interest := [7 \<mapsto> 0]\<rparr>) (Of_User 0)) = Some 4"
    by (simp_all add: s, simp_all add: writable_agent_def demo_agent_def new_tcp_agent_sock_def new_tcp_agent_def set_agent_operations_def
        demo_ops_def set_fd_def set_handler_def set_epoll_def new_epoll_event_def set_agent_def new_bufmgr_def quiet_env_def
        quiet_kern_def Let_def)
  moreover have "length [65, 66 :: byte] < 2 ^ 31 - 20" by simp
  ultimately show ?thesis
    using agent_send_flush[of demo_agent "quiet_kern\<lparr>interest := [7 \<mapsto> 0]\<rparr>" quiet_env "Of_User 0" 4 "[65, 66]" 50 1 0 0 0] s(2)
    by (auto simp: quiet_kern_def)
qed

text \<open>
  Recycling an agent: the first call takes its descriptor out of the kernel's set, closes
  the socket, clears the event and calls the user's function; every later call does nothing.
\<close>

theorem recycler_once:
  assumes "\<not> m_bIsRecycler a" "mFd (mEvent a) \<noteq> - 1" "m_Epoll (mEvent a)" "\<not> ctl_fails e (ctl_count k)"
    "0 \<le> sys_close (sys_of e) (m_Socket a)" "agent_op a = Some (Some p)" "recycler_after_op (op_tables k p) = Some f"
  shows "\<exists>a1 k1. tcp_recycler e a k = Inr (call_int e f, a1, k1) \<and> interest k1 = (interest k)(mFd (mEvent a) := None) \<and>
    m_Socket a1 = - 1 \<and> mFd (mEvent a1) = - 1 \<and> mHandler (mEvent a1) = None \<and>
    calls k1 = calls k @ [Call_Recycler f] \<and> tcp_recycler e a1 k1 = Inr (0, a1, k1)"
  using assms
  by (cases "m_Socket a = - 1") (simp_all add: tcp_recycler_def on_event_def unregister_rwevents_def register_events_def event_ctl_def
      do_event_def close_socket_def set_fd_def set_handler_def get_op_def Let_def)

lemma recycler_once_witness:
  "\<exists>a1 k1. tcp_recycler quiet_env demo_agent quiet_kern = Inr (0, a1, k1) \<and> m_Socket a1 = - 1 \<and>
     tcp_recycler quiet_env a1 k1 = Inr (0, a1, k1)"
  using recycler_once[of demo_agent quiet_env quiet_kern "Of_User 0" 2]
  by (auto simp: demo_agent_def new_tcp_agent_sock_def new_tcp_agent_def set_agent_operations_def
        demo_ops_def set_fd_def set_handler_def set_epoll_def new_epoll_event_def quiet_env_def quiet_sys_def
        quiet_kern_def Let_def)

text \<open>
  More data than that: from \<open>2 ^ 31 - 20\<close> bytes on the size of the buffer is negative and \<open>new\<close>
  throws; from \<open>2 ^ 32 - 20\<close> bytes on it has wrapped round to less than the header, which is then
  written behind the buffer.
\<close>

theorem send_data_too_long:
  "2 ^ 31 - 20 \<le> length data \<and> length data < 2 ^ 32 - 20 \<longrightarrow>
     tcp_send_data e buffer c err p1 p2 data a k = Inl Bad_Alloc"
  "2 ^ 32 - 20 \<le> length data \<and> length data < 2 ^ 32 \<longrightarrow>
     tcp_send_data e buffer c err p1 p2 data a k = Inl Out_Of_Bounds"
proof -
  let ?n = "length data"
  have wrap: "message_size data = 20 + int ?n - 2 ^ 32" if "2147483628 \<le> ?n" "?n < 2 ^ 32"
  proof -
    let ?x = "2147483668 + int ?n"
    have "?x mod 4294967296 = (?x - 4294967296) mod 4294967296" by (rule minus_mod_self2[symmetric])
    also have "\<dots> = ?x - 4294967296" using that by (intro mod_pos_pos_trivial) auto
    finally show ?thesis
      using data_size(2)[of data] that by (simp add: signed_take_bit_eq_take_bit_shift take_bit_int_def)
  qed
  show "2 ^ 31 - 20 \<le> ?n \<and> ?n < 2 ^ 32 - 20 \<longrightarrow> tcp_send_data e buffer c err p1 p2 data a k = Inl Bad_Alloc"
  proof
    assume n: "2 ^ 31 - 20 \<le> ?n \<and> ?n < 2 ^ 32 - 20"
    then have "message_size data < 0" using wrap by simp
    then show "tcp_send_data e buffer c err p1 p2 data a k = Inl Bad_Alloc" by (simp add: tcp_send_data_def Let_def)
  qed
  show "2 ^ 32 - 20 \<le> ?n \<and> ?n < 2 ^ 32 \<longrightarrow> tcp_send_data e buffer c err p1 p2 data a k = Inl Out_Of_Bounds"
  proof
    assume n: "2 ^ 32 - 20 \<le> ?n \<and> ?n < 2 ^ 32"
    then have "0 \<le> message_size data" "message_size data < 20" using wrap by simp_all
    moreover have "20 \<le> length (message_bytes c err p1 p2 data)" by (simp add: length_message_bytes)
    ultimately have "\<not> message_size data < 0" "nat (message_size data) < length (message_bytes c err p1 p2 data)"
      by linarith+
    then show "tcp_send_data e buffer c err p1 p2 data a k = Inl Out_Of_Bounds"
      by (simp add: tcp_send_data_def Let_def)
  qed
qed

end
