(* ===== verification/Agent_Manager.thy ===== *)
theory Agent_Manager
  imports Net_Agent "HOL-Library.AList"
begin

text \<open>
  The agents of a process: \<open>common/AgentManager.cpp\<close> and the destructor of \<open>TCPAgent\<close>. Objects
  live at numbered addresses; \<open>agents\<close> is what each address holds, \<open>None\<close> where nothing lives
  (any more), and using such an address is the fault \<open>Dangling\<close>. The \<open>std::map\<close> of agents is the list
  of its entries in the order of their keys. \<open>released\<close> collects the send buffers that dying
  agents release.
\<close>

definition INIT_INDEX :: u32 where "INIT_INDEX = 1"
definition MAX_INDEX :: u32 where "MAX_INDEX = 0xFFFFFFFE"
definition TRY_TIMES :: nat where "TRY_TIMES = 10"

record world =
  agents :: "nat \<Rightarrow> tcp_agent option"
  next_ptr :: nat
  agent_map :: "(u32 \<times> nat) list"
  recycler_list :: "nat list"
  last_index :: u32
  list_agent_num :: int
  kernel :: kern
  released :: "nat list"

definition new_manager :: "kern \<Rightarrow> world" where
  "new_manager k = \<lparr>agents = \<lambda>p. None, next_ptr = 1, agent_map = [], recycler_list = [], last_index = INIT_INDEX,
     list_agent_num = 0, kernel = k, released = []\<rparr>"

definition agent_at :: "nat \<Rightarrow> 'a world_scheme \<Rightarrow> tcp_agent run" where
  "agent_at p w = (case agents w p of None \<Rightarrow> Inl Dangling | Some a \<Rightarrow> Inr a)"

text \<open>Calling a method of the object at an address.\<close>

definition with_agent :: "(tcp_agent \<Rightarrow> kern \<Rightarrow> ('r \<times> tcp_agent \<times> kern) run) \<Rightarrow> nat \<Rightarrow> 'a world_scheme \<Rightarrow>
    ('r \<times> 'a world_scheme) run" where
  "with_agent f p w = and_then (agent_at p w) (\<lambda>a. and_then (f a (kernel w)) (\<lambda>(r, a', k').
     Inr (r, w\<lparr>agents := (agents w)(p := Some a'), kernel := k'\<rparr>)))"

definition generate_index :: "'a world_scheme \<Rightarrow> u32 \<times> 'a world_scheme" where
  "generate_index w = (let i = last_index w + 1; j = (if i = MAX_INDEX then INIT_INDEX else i)
     in (j, w\<lparr>last_index := j\<rparr>))"

definition get_agent_index :: "nat \<Rightarrow> 'a world_scheme \<Rightarrow> u32 run" where
  "get_agent_index p w = and_then (agent_at p w) (\<lambda>a. case m_index a of None \<Rightarrow> Inl Uninitialised | Some i \<Rightarrow> Inr i)"

definition set_agent_index :: "u32 \<Rightarrow> nat \<Rightarrow> 'a world_scheme \<Rightarrow> 'a world_scheme run" where
  "set_agent_index i p w = run_map snd (with_agent (\<lambda>a k. Inr ((), a\<lparr>m_index := Some i\<rparr>, k)) p w)"

text \<open>The attempts to insert; \<open>False\<close> after the last one has failed too.\<close>

fun try_insert :: "nat \<Rightarrow> u32 \<Rightarrow> nat \<Rightarrow> 'a world_scheme \<Rightarrow> (bool \<times> 'a world_scheme) run" where
  "try_insert 0 i p w = Inr (False, w)"
| "try_insert (Suc n) i p w =
     (if map_of (agent_map w) i = None
      then Inr (True, w\<lparr>agent_map := insort_key fst (i, p) (agent_map w)\<rparr>)
      else let (j, w1) = generate_index w
        in and_then (set_agent_index j p w1) (\<lambda>w2. try_insert n j p w2))"

definition add_agent :: "nat option \<Rightarrow> 'a world_scheme \<Rightarrow> (int \<times> 'a world_scheme) run" where
  "add_agent q w = (case q of
       None \<Rightarrow> Inr (- 1, w)
     | Some p \<Rightarrow> and_then (get_agent_index p w) (\<lambda>i.
         and_then (if i = 0 then (let (j, w1) = generate_index w in set_agent_index j p w1) else Inr w) (\<lambda>w2.
           run_map (\<lambda>(ok, w3). (if ok then 0 else - 1, w3)) (try_insert TRY_TIMES i p w2))))"

text \<open>
  The three \<open>createAgent\<close> differ in the constructor, which is told the address; the
  result of \<open>addAgent\<close> is not looked at.
\<close>

definition create_agent :: "(nat \<Rightarrow> tcp_agent) \<Rightarrow> 'a world_scheme \<Rightarrow> (nat \<times> 'a world_scheme) run" where
  "create_agent mk w =
     (let p = next_ptr w; w1 = w\<lparr>agents := (agents w)(p := Some (mk p)), next_ptr := p + 1\<rparr>;
          (i, w2) = generate_index w1
      in and_then (set_agent_index i p w2) (\<lambda>w3. run_map (\<lambda>(r, w4). (p, w4)) (add_agent (Some p) w3)))"

definition create_empty_agent :: "netenv \<Rightarrow> bool \<Rightarrow> bool \<Rightarrow> bool \<Rightarrow> 'a world_scheme \<Rightarrow> (nat \<times> 'a world_scheme) run" where
  "create_empty_agent e epl ur uw = create_agent (\<lambda>p. new_tcp_agent e epl ur uw)"

definition create_client_agent :: "netenv \<Rightarrow> sock_addr \<Rightarrow> bool \<Rightarrow> bool \<Rightarrow> bool \<Rightarrow> 'a world_scheme \<Rightarrow>
    (nat \<times> 'a world_scheme) run" where
  "create_client_agent e addr epl ur uw = create_agent (\<lambda>p. new_tcp_agent_addr e addr epl ur uw)"

definition create_server_agent :: "netenv \<Rightarrow> int \<Rightarrow> sock_addr \<Rightarrow> bool \<Rightarrow> bool \<Rightarrow> bool \<Rightarrow> 'a world_scheme \<Rightarrow>
    (nat \<times> 'a world_scheme) run" where
  "create_server_agent e sock addr epl ur uw = create_agent (\<lambda>p. new_tcp_agent_sock e p sock addr epl ur uw)"

definition delete_agent :: "u32 \<Rightarrow> 'a world_scheme \<Rightarrow> 'a world_scheme" where
  "delete_agent i w = w\<lparr>agent_map := AList.delete i (agent_map w)\<rparr>"

definition get_agent :: "u32 \<Rightarrow> 'a world_scheme \<Rightarrow> nat option" where
  "get_agent i w = map_of (agent_map w) i"

definition add_recycler_agent :: "nat \<Rightarrow> 'a world_scheme \<Rightarrow> 'a world_scheme" where
  "add_recycler_agent p w =
     w\<lparr>recycler_list := recycler_list w @ [p], list_agent_num := list_agent_num w + 1\<rparr>"

text \<open>\<open>recyclerAgent\<close> by index leaves the entry of the map in place.\<close>

definition recycler_by_index :: "netenv \<Rightarrow> u32 \<Rightarrow> 'a world_scheme \<Rightarrow> (int \<times> 'a world_scheme) run" where
  "recycler_by_index e i w = (case get_agent i w of
       None \<Rightarrow> Inr (0, w)
     | Some p \<Rightarrow> run_map (\<lambda>(r, w1). (r, add_recycler_agent p w1)) (with_agent (tcp_recycler e) p w))"

definition recycler_agent :: "netenv \<Rightarrow> nat option \<Rightarrow> 'a world_scheme \<Rightarrow> (int \<times> 'a world_scheme) run" where
  "recycler_agent e q w = (case q of
       None \<Rightarrow> Inr (0, w)
     | Some p \<Rightarrow> and_then (with_agent (tcp_recycler e) p w) (\<lambda>(r, w1).
         and_then (get_agent_index p w1) (\<lambda>i. Inr (r, add_recycler_agent p (delete_agent i w1)))))"

text \<open>\<open>delete agent\<close>: the destructor recycles an agent that has not been recycled yet.\<close>

definition destroy_agent :: "netenv \<Rightarrow> nat \<Rightarrow> 'a world_scheme \<Rightarrow> 'a world_scheme run" where
  "destroy_agent e p w = and_then (agent_at p w) (\<lambda>a.
     and_then (if m_bIsRecycler a then Inr (0, w) else with_agent (tcp_recycler e) p w) (\<lambda>(r, w1).
       Inr (w1\<lparr>agents := (agents w1)(p := None), released := released w1 @ freed (snd (clear (m_Bufv a)))\<rparr>)))"

fun destroy_all :: "netenv \<Rightarrow> nat list \<Rightarrow> 'a world_scheme \<Rightarrow> 'a world_scheme run" where
  "destroy_all e [] w = Inr w"
| "destroy_all e (p # ps) w = and_then (destroy_agent e p w) (destroy_all e ps)"

definition clean_agent :: "netenv \<Rightarrow> 'a world_scheme \<Rightarrow> (int \<times> 'a world_scheme) run" where
  "clean_agent e w =
     (if list_agent_num w = 0 then Inr (0, w)
      else run_map (\<lambda>w1. (list_agent_num w1, w1\<lparr>recycler_list := [], list_agent_num := 0\<rparr>))
             (destroy_all e (recycler_list w) w))"

text \<open>The destructor of the manager: the agents of the map are recycled and deleted.\<close>

fun destroy_mapped :: "netenv \<Rightarrow> nat list \<Rightarrow> 'a world_scheme \<Rightarrow> 'a world_scheme run" where
  "destroy_mapped e [] w = Inr w"
| "destroy_mapped e (p # ps) w = and_then (with_agent (tcp_recycler e) p w) (\<lambda>(r, w1).
     and_then (destroy_agent e p w1) (destroy_mapped e ps))"

definition destroy_manager :: "netenv \<Rightarrow> 'a world_scheme \<Rightarrow> 'a world_scheme run" where
  "destroy_manager e w = run_map (\<lambda>w1. w1\<lparr>agent_map := []\<rparr>) (destroy_mapped e (map snd (agent_map w)) w)"

subsection \<open>The invariant of the manager\<close>

definition manager_ok :: "'a world_scheme \<Rightarrow> bool" where
  "manager_ok w \<longleftrightarrow>
     distinct (map fst (agent_map w)) \<and>
     (\<forall>(i, p) \<in> set (agent_map w). p \<notin> set (recycler_list w) \<and> (\<exists>a. agents w p = Some a \<and> m_index a = Some i)) \<and>
     distinct (recycler_list w) \<and> (\<forall>p \<in> set (recycler_list w). \<exists>a. agents w p = Some a \<and> m_bIsRecycler a) \<and>
     list_agent_num w = int (length (recycler_list w)) \<and> (\<forall>p. agents w p \<noteq> None \<longrightarrow> p < next_ptr w) \<and>
     0 < last_index w \<and> last_index w < MAX_INDEX"

text \<open>An agent that may be used: it is alive, has its index, and is not waiting to be deleted.\<close>

definition usable :: "nat \<Rightarrow> 'a world_scheme \<Rightarrow> bool" where
  "usable p w \<longleftrightarrow> (\<exists>a. agents w p = Some a \<and> m_index a \<noteq> None) \<and> p \<notin> set (recycler_list w)"

text \<open>
  The index of an agent that is not in the map belongs to no other agent. After ten attempts
  at an index have failed this need not hold.
\<close>

definition owns_index :: "nat \<Rightarrow> 'a world_scheme \<Rightarrow> bool" where
  "owns_index p w \<longleftrightarrow> (\<forall>a i q. agents w p = Some a \<longrightarrow> m_index a = Some i \<longrightarrow> (i, q) \<in> set (agent_map w) \<longrightarrow> q = p)"

lemma mapped_unique:
  assumes "manager_ok w" "(i, p) \<in> set (agent_map w)" "(j, p) \<in> set (agent_map w)"
  shows "i = j"
proof -
  obtain a where "agents w p = Some a" "m_index a = Some i" using assms(1,2) by (auto simp: manager_ok_def)
  moreover obtain b where "agents w p = Some b" "m_index b = Some j" using assms(1,3) by (auto simp: manager_ok_def)
  ultimately show ?thesis by simp
qed

text \<open>
  What the manager relies on in a method of an agent: it neither renames nor revives the agent
  and never uses a deleted object.
\<close>

locale agent_method =
  fixes meth :: "tcp_agent \<Rightarrow> kern \<Rightarrow> ('r \<times> tcp_agent \<times> kern) run"
  assumes keeps_index: "meth a k = Inr (r, a', k') \<Longrightarrow> m_index a' = m_index a"
    and keeps_recycled: "meth a k = Inr (r, a', k') \<Longrightarrow> m_bIsRecycler a \<Longrightarrow> m_bIsRecycler a'"
    and not_dangling: "meth a k \<noteq> Inl Dangling"
begin

lemma method_safe:
  assumes "agents w p \<noteq> None"
  shows "with_agent meth p w \<noteq> Inl Dangling"
  using assms not_dangling by (auto simp: with_agent_def agent_at_def and_then_def split: sum.splits)

lemma method_frame:
  assumes "with_agent meth p w = Inr (r, w')"
  shows "\<exists>a a' k'. agents w p = Some a \<and> m_index a' = m_index a \<and> (m_bIsRecycler a \<longrightarrow> m_bIsRecycler a') \<and>
     w' = w\<lparr>agents := (agents w)(p := Some a'), kernel := k'\<rparr>"
proof (cases "agents w p")
  case None
  then show ?thesis using assms by (simp add: with_agent_def agent_at_def)
next
  case (Some a)
  then obtain a' k' where "meth a (kernel w) = Inr (r, a', k')" "w' = w\<lparr>agents := (agents w)(p := Some a'), kernel := k'\<rparr>"
    using assms by (auto simp: with_agent_def agent_at_def)
  then show ?thesis using Some keeps_index keeps_recycled by blast
qed

lemma method_keeps_ok:
  assumes "manager_ok w" "with_agent meth p w = Inr (r, w')"
  shows "manager_ok w'"
proof -
  obtain a a' k' where a: "agents w p = Some a" "m_index a' = m_index a" "m_bIsRecycler a \<longrightarrow> m_bIsRecycler a'"
    "w' = w\<lparr>agents := (agents w)(p := Some a'), kernel := k'\<rparr>"
    using method_frame[OF assms(2)] by blast
  show ?thesis using assms(1) unfolding manager_ok_def a(4) by (auto simp: a split: prod.splits)
qed

lemma method_keeps_usable:
  assumes "with_agent meth p w = Inr (r, w')"
  shows "usable q w' \<longleftrightarrow> usable q w" "owns_index q w' \<longleftrightarrow> owns_index q w" "agents w' q = None \<longleftrightarrow> agents w q = None"
proof -
  obtain a a' k' where a: "agents w p = Some a" "m_index a' = m_index a"
    "w' = w\<lparr>agents := (agents w)(p := Some a'), kernel := k'\<rparr>"
    using method_frame[OF assms] by blast
  show "usable q w' \<longleftrightarrow> usable q w" "owns_index q w' \<longleftrightarrow> owns_index q w" "agents w' q = None \<longleftrightarrow> agents w q = None"
    using a by (auto simp: usable_def owns_index_def)
qed

end

text \<open>The event of an agent has the agent itself for its handler, or none.\<close>

locale own_method = agent_method +
  fixes this :: nat
  assumes keeps_own: "meth a k = Inr (r, a', k') \<Longrightarrow> mHandler (mEvent a) \<in> {None, Some this} \<Longrightarrow>
      mHandler (mEvent a') \<in> {None, Some this}"

named_theorems no_dangling

lemma and_then_eq_Inl: "and_then r f = Inl x \<longleftrightarrow> r = Inl x \<or> (\<exists>y. r = Inr y \<and> f y = Inl x)"
  by (cases r) auto

lemma event_ctl_safe [no_dangling]: "event_ctl e c v k \<noteq> Inl Dangling"
  by (simp add: event_ctl_def split: prod.splits)

lemma on_event_Inl [simp]: "on_event f a k = Inl x \<longleftrightarrow> f (mEvent a) k = Inl x"
  by (auto simp: on_event_def and_then_eq_Inl)

lemma on_event_frame:
  "on_event f a k = Inr (r, a', k') \<Longrightarrow> m_index a' = m_index a \<and> m_bIsRecycler a' = m_bIsRecycler a \<and> m_Socket a' = m_Socket a
     \<and> agent_op a' = agent_op a \<and> m_Bufv a' = m_Bufv a"
  by (auto simp: on_event_def)

lemma event_ops_safe [no_dangling]:
  "unregister_rwevents e v k \<noteq> Inl Dangling" "register_rwevents e v k \<noteq> Inl Dangling"
  "register_revent e v k \<noteq> Inl Dangling" "close_wevent e v k \<noteq> Inl Dangling" "open_wevent e v k \<noteq> Inl Dangling"
  using event_ctl_safe by (simp_all add: event_ops Let_def)

lemma get_op_safe [no_dangling]: "get_op a k \<noteq> Inl Dangling"
  by (simp add: get_op_def split: option.splits)

interpretation recycler_method: agent_method "tcp_recycler e" for e
proof
  fix a k r a' k'
  show "tcp_recycler e a k = Inr (r, a', k') \<Longrightarrow> m_index a' = m_index a"
    by (auto simp: tcp_recycler_def Let_def split: if_splits prod.splits option.splits dest!: on_event_frame)
  show "tcp_recycler e a k = Inr (r, a', k') \<Longrightarrow> m_bIsRecycler a \<Longrightarrow> m_bIsRecycler a'"
    by (simp add: tcp_recycler_def)
  show "tcp_recycler e a k \<noteq> Inl Dangling"
    by (auto simp: tcp_recycler_def Let_def no_dangling and_then_eq_Inl split: prod.splits option.splits)
qed

lemma event_ops_handler:
  "close_revent e v k = Inr (r, v', k') \<Longrightarrow> mHandler v' = mHandler v"
  "open_revent e v k = Inr (r, v', k') \<Longrightarrow> mHandler v' = mHandler v"
  "close_wevent e v k = Inr (r, v', k') \<Longrightarrow> mHandler v' = mHandler v"
  "open_wevent e v k = Inr (r, v', k') \<Longrightarrow> mHandler v' = mHandler v"
  "register_revent e v k = Inr (r, v', k') \<Longrightarrow> mHandler v' = mHandler v"
  "register_rwevents e v k = Inr (r, v', k') \<Longrightarrow> mHandler v' = mHandler v"
  "unregister_rwevents e v k = Inr (r, v', k') \<Longrightarrow> mHandler v' = mHandler v"
  by (auto simp: event_ops event_ctl_def Let_def split: if_splits prod.splits)

lemma on_event_Inr: "on_event f a k = Inr (r, a', k') \<longleftrightarrow> (\<exists>v. f (mEvent a) k = Inr (r, v, k') \<and> a' = a\<lparr>mEvent := v\<rparr>)"
  by (auto simp: on_event_def)

interpretation recycler_own: own_method "tcp_recycler e" this for e this
proof
  fix a k r a' k'
  assume m: "tcp_recycler e a k = Inr (r, a', k')" "mHandler (mEvent a) \<in> {None, Some this}"
  show "mHandler (mEvent a') \<in> {None, Some this}"
    using m by (auto simp: tcp_recycler_def on_event_Inr set_handler_def Let_def
        split: if_splits prod.splits option.splits dest!: event_ops_handler)
qed

lemma recycler_marks:
  "tcp_recycler e a k = Inr (r, a', k') \<Longrightarrow> m_bIsRecycler a'"
  by (auto simp: tcp_recycler_def Let_def split: if_splits prod.splits option.splits dest!: on_event_frame)

text \<open>The calls a user of an agent, or the event loop, makes on it.\<close>

datatype agent_call =
    Do_Init "op_place option"
  | Do_Set_Ops op_place
  | Do_Connect sock_addr
  | Do_Recv "segment list"
  | Do_Send "wanswer list"
  | Do_Send_Data nat u32 u32 u32 u32 "byte list"
  | Do_Set_State int
  | Do_Connect_After bool

fun call_method :: "netenv \<Rightarrow> nat \<Rightarrow> agent_call \<Rightarrow> tcp_agent \<Rightarrow> kern \<Rightarrow> (int \<times> tcp_agent \<times> kern) run" where
  "call_method e p (Do_Init ops) a k = tcp_init e ops a k"
| "call_method e p (Do_Set_Ops ops) a k = Inr (0, set_agent_operations ops a, k)"
| "call_method e p (Do_Connect addr) a k = tcp_connect e p addr a k"
| "call_method e p (Do_Recv ss) a k = run_map (\<lambda>(r, a', ss', k'). (r, a', k')) (tcp_read_data a ss k)"
| "call_method e p (Do_Send ws) a k = run_map (\<lambda>(r, a', ws', k'). (r, a', k')) (tcp_write_data e a ws k)"
| "call_method e p (Do_Send_Data b c err p1 p2 d) a k = tcp_send_data e b c err p1 p2 d a k"
| "call_method e p (Do_Set_State st) a k = run_map (\<lambda>(a', k'). (0, a', k')) (tcp_set_state e st a k)"
| "call_method e p (Do_Connect_After ok) a k = tcp_connect_after e ok a k"

lemma run_map_eq_Inl [simp]: "run_map f r = Inl x \<longleftrightarrow> r = Inl x"
  by (cases r) auto

lemma store_safe [no_dangling]: "store b i xs \<noteq> Inl Dangling"
  by (simp add: store_def)

lemma read_head_safe [no_dangling]: "read_head b ss \<noteq> Inl Dangling"
  by (auto simp: read_head_def Let_def and_then_eq_Inl no_dangling split: prod.splits answer.splits)

lemma read_body_safe [no_dangling]: "read_body b ss \<noteq> Inl Dangling"
  by (auto simp: read_body_def Let_def and_then_eq_Inl no_dangling split: prod.splits answer.splits option.splits)

lemma buf_read_safe [no_dangling]: "buf_read b ss \<noteq> Inl Dangling"
  by (auto simp: buf_read_def Let_def and_then_eq_Inl no_dangling split: prod.splits phase.splits if_splits)

lemma back_safe [no_dangling]: "tcp_read_back a k \<noteq> Inl Dangling" "tcp_write_back ok a k \<noteq> Inl Dangling"
  by (auto simp: tcp_read_back_def tcp_write_back_def and_then_eq_Inl no_dangling split: option.splits)

lemma deliver_safe [no_dangling]: "deliver_events a vs k \<noteq> Inl Dangling"
  by (induction a vs k rule: deliver_events.induct) (auto simp: and_then_eq_Inl no_dangling)

lemmas agent_defs = tcp_init_def set_agent_operations_def tcp_connect_def tcp_read_data_def tcp_write_data_def
  tcp_send_data_def tcp_write_dyn_def tcp_set_state_def tcp_connect_after_def

lemma call_method_frame:
  "call_method e p c a k = Inr (r, a', k') \<Longrightarrow> m_index a' = m_index a \<and> m_bIsRecycler a' = m_bIsRecycler a"
  by (cases c) (auto simp: agent_defs Let_def run_map_eq_Inr split: if_splits prod.splits option.splits dest!: on_event_frame)

lemma call_method_safe [no_dangling]: "call_method e p c a k \<noteq> Inl Dangling"
  by (cases c) (auto simp: agent_defs Let_def and_then_eq_Inl no_dangling split: if_splits prod.splits option.splits)

interpretation call_method: agent_method "call_method e p c" for e p c
  by unfold_locales (auto dest: call_method_frame simp: no_dangling)

interpretation call_own: own_method "call_method e p c" p for e p c
proof
  fix a k r a' k'
  assume m: "call_method e p c a k = Inr (r, a', k')" "mHandler (mEvent a) \<in> {None, Some p}"
  show "mHandler (mEvent a') \<in> {None, Some p}"
    using m by (cases c) (auto simp: agent_defs on_event_Inr set_handler_def Let_def run_map_eq_Inr
        split: if_splits prod.splits option.splits dest!: event_ops_handler)
qed

subsection \<open>Creating agents\<close>

definition next_index :: "u32 \<Rightarrow> u32" where
  "next_index i = (if i + 1 = MAX_INDEX then INIT_INDEX else i + 1)"

lemma generate_index_eq: "generate_index w = (next_index (last_index w), w\<lparr>last_index := next_index (last_index w)\<rparr>)"
  by (simp add: generate_index_def next_index_def Let_def)

lemma next_index_range:
  assumes "i < MAX_INDEX"
  shows "0 < next_index i \<and> next_index i < MAX_INDEX"
proof (cases "i + 1 = MAX_INDEX")
  case True
  then show ?thesis by (simp add: next_index_def INIT_INDEX_def MAX_INDEX_def)
next
  case False
  have i: "unat i < 0xFFFFFFFE" using assms by (simp add: MAX_INDEX_def word_less_nat_alt)
  then have u: "unat (i + 1) = unat i + 1" by (intro unat_plus_one) simp
  have "unat (i + 1) \<noteq> 0xFFFFFFFE"
  proof
    assume "unat (i + 1) = 0xFFFFFFFE"
    then have "unat (i + 1) = unat MAX_INDEX" by (simp add: MAX_INDEX_def)
    then show False using False by (metis word_eq_iff_unsigned)
  qed
  then show ?thesis using False i u by (simp add: next_index_def MAX_INDEX_def word_less_nat_alt)
qed

lemma map_of_insort:
  "i \<notin> fst ` set m \<Longrightarrow> map_of (insort_key fst (i, p) m) = (map_of m)(i \<mapsto> p)"
  by (induction m) (auto simp: fun_upd_twist)

lemma distinct_insort_fst:
  "i \<notin> fst ` set m \<Longrightarrow> distinct (map fst m) \<Longrightarrow> distinct (map fst (insort_key fst (i, p) m))"
  by (induction m) (auto simp: set_insort_key)

text \<open>An agent that has been made and named but is not in the map yet.\<close>

definition fresh_agent :: "nat \<Rightarrow> u32 \<Rightarrow> 'a world_scheme \<Rightarrow> bool" where
  "fresh_agent p i w \<longleftrightarrow> manager_ok w \<and> (\<exists>a. agents w p = Some a \<and> m_index a = Some i) \<and> p \<notin> set (recycler_list w) \<and>
     p \<notin> snd ` set (agent_map w)"

definition others_same :: "nat \<Rightarrow> 'a world_scheme \<Rightarrow> 'a world_scheme \<Rightarrow> bool" where
  "others_same p w w' \<longleftrightarrow> (\<forall>q. q \<noteq> p \<longrightarrow> agents w' q = agents w q) \<and> recycler_list w' = recycler_list w \<and>
     kernel w' = kernel w \<and> next_ptr w' = next_ptr w"

lemma set_agent_index_eq:
  "agents w p = Some a \<Longrightarrow> set_agent_index i p w = Inr (w\<lparr>agents := (agents w)(p := Some (a\<lparr>m_index := Some i\<rparr>))\<rparr>)"
  by (simp add: set_agent_index_def with_agent_def agent_at_def)

lemma fresh_rename:
  assumes "fresh_agent p i w" "0 < j" "j < MAX_INDEX"
  shows "\<exists>w'. set_agent_index k p (w\<lparr>last_index := j\<rparr>) = Inr w' \<and> fresh_agent p k w' \<and> others_same p w w' \<and>
    agent_map w' = agent_map w \<and> last_index w' = j"
proof -
  obtain a where a: "agents w p = Some a" "m_index a = Some i" using assms(1) by (auto simp: fresh_agent_def)
  have "set_agent_index k p (w\<lparr>last_index := j\<rparr>) = Inr (w\<lparr>last_index := j, agents := (agents w)(p := Some (a\<lparr>m_index := Some k\<rparr>))\<rparr>)"
    using set_agent_index_eq[of "w\<lparr>last_index := j\<rparr>" p a k] a by simp
  moreover have "fresh_agent p k (w\<lparr>last_index := j, agents := (agents w)(p := Some (a\<lparr>m_index := Some k\<rparr>))\<rparr>)"
    using assms a by (force simp: fresh_agent_def manager_ok_def)
  ultimately show ?thesis by (force simp: others_same_def)
qed

lemma try_insert_correct:
  assumes "fresh_agent p i w" "i = last_index w"
  shows "\<exists>ok w'. try_insert n i p w = Inr (ok, w') \<and> manager_ok w' \<and> usable p w' \<and> others_same p w w' \<and>
    (ok \<longleftrightarrow> (\<exists>m < n. map_of (agent_map w) ((next_index ^^ m) i) = None)) \<and>
    (ok \<longrightarrow> (\<exists>j a. map_of (agent_map w) j = None \<and> map_of (agent_map w') = (map_of (agent_map w))(j \<mapsto> p) \<and>
       agents w' p = Some a \<and> m_index a = Some j)) \<and> (\<not> ok \<longrightarrow> agent_map w' = agent_map w)"
  using assms
proof (induction n arbitrary: i w)
  case 0
  then show ?case by (auto simp: fresh_agent_def usable_def others_same_def)
next
  case (Suc n)
  show ?case
  proof (cases "map_of (agent_map w) i = None")
    case True
    let ?w = "w\<lparr>agent_map := insort_key fst (i, p) (agent_map w)\<rparr>"
    have n: "i \<notin> fst ` set (agent_map w)" using True by (simp add: map_of_eq_None_iff)
    have "manager_ok ?w" using Suc.prems(1) distinct_insort_fst[OF n]
      by (auto simp: fresh_agent_def manager_ok_def set_insort_key)
    moreover have "map_of (agent_map ?w) = (map_of (agent_map w))(i \<mapsto> p)" using map_of_insort[OF n] by simp
    moreover have "\<exists>m < Suc n. map_of (agent_map w) ((next_index ^^ m) i) = None" using True by (intro exI[of _ 0]) simp
    moreover obtain a where "agents w p = Some a" "m_index a = Some i" "p \<notin> set (recycler_list w)"
      using Suc.prems(1) by (auto simp: fresh_agent_def)
    moreover have "usable p ?w" "others_same p w ?w" using calculation by (simp_all add: usable_def others_same_def)
    moreover have "try_insert (Suc n) i p w = Inr (True, ?w)" using True by simp
    ultimately show ?thesis using True by (intro exI[of _ True] exI[of _ ?w]) auto
  next
    case False
    let ?j = "next_index i"
    have j: "0 < ?j" "?j < MAX_INDEX" using next_index_range Suc.prems by (auto simp: fresh_agent_def manager_ok_def)
    obtain w1 where 1: "set_agent_index ?j p (w\<lparr>last_index := ?j\<rparr>) = Inr w1" "fresh_agent p ?j w1" "others_same p w w1"
      "agent_map w1 = agent_map w" "last_index w1 = ?j"
      using fresh_rename[OF Suc.prems(1) j] by blast
    have e: "try_insert (Suc n) i p w = try_insert n ?j p w1"
      using False 1(1) Suc.prems(2) by (auto simp: generate_index_eq)
    have x: "(\<exists>m < Suc n. map_of (agent_map w) ((next_index ^^ m) i) = None) \<longleftrightarrow>
        (\<exists>m < n. map_of (agent_map w1) ((next_index ^^ m) ?j) = None)"
      using False 1(4) by (auto simp: Ex_less_Suc2 funpow_Suc_right simp del: funpow.simps(2))
    obtain ok w' where r: "try_insert n ?j p w1 = Inr (ok, w')" "manager_ok w'" "usable p w'" "others_same p w1 w'"
      "ok \<longleftrightarrow> (\<exists>m < n. map_of (agent_map w1) ((next_index ^^ m) ?j) = None)"
      "ok \<longrightarrow> (\<exists>j a. map_of (agent_map w1) j = None \<and> map_of (agent_map w') = (map_of (agent_map w1))(j \<mapsto> p) \<and>
         agents w' p = Some a \<and> m_index a = Some j)" "\<not> ok \<longrightarrow> agent_map w' = agent_map w1"
      using Suc.IH[OF 1(2) 1(5)[symmetric]] by blast
    have "others_same p w w'" using 1(3) r(4) by (simp add: others_same_def)
    then show ?thesis using r unfolding e x 1(4) by (intro exI[of _ ok] exI[of _ w'] conjI)
  qed
qed

lemma create_agent_result:
  assumes "manager_ok w"
  shows "\<exists>ok w'. create_agent mk w = Inr (next_ptr w, w') \<and> manager_ok w' \<and> usable (next_ptr w) w' \<and>
    (\<forall>q. q \<noteq> next_ptr w \<longrightarrow> agents w' q = agents w q) \<and> recycler_list w' = recycler_list w \<and> kernel w' = kernel w \<and>
    next_ptr w' = Suc (next_ptr w) \<and>
    (ok \<longleftrightarrow> (\<exists>m < 10. map_of (agent_map w) ((next_index ^^ Suc m) (last_index w)) = None)) \<and>
    (ok \<longrightarrow> (\<exists>j a. map_of (agent_map w) j = None \<and> map_of (agent_map w') = (map_of (agent_map w))(j \<mapsto> next_ptr w) \<and>
       agents w' (next_ptr w) = Some a \<and> m_index a = Some j)) \<and> (\<not> ok \<longrightarrow> agent_map w' = agent_map w)"
proof -
  let ?p = "next_ptr w" and ?i = "next_index (last_index w)"
  let ?w1 = "w\<lparr>agents := (agents w)(?p := Some (mk ?p)), next_ptr := ?p + 1\<rparr>"
  let ?w3 = "?w1\<lparr>last_index := ?i, agents := (agents ?w1)(?p := Some ((mk ?p)\<lparr>m_index := Some ?i\<rparr>))\<rparr>"
  have i: "0 < ?i" "?i < MAX_INDEX" using next_index_range assms by (auto simp: manager_ok_def)
  then have i0: "?i \<noteq> 0" by simp
  have np: "agents w ?p = None" using assms by (auto simp: manager_ok_def)
  have s: "set_agent_index ?i ?p (?w1\<lparr>last_index := ?i\<rparr>) = Inr ?w3"
    using set_agent_index_eq[of "?w1\<lparr>last_index := ?i\<rparr>" ?p "mk ?p" ?i] by simp
  have g: "get_agent_index ?p ?w3 = Inr ?i" by (simp add: get_agent_index_def agent_at_def)
  have nr: "?p \<notin> set (recycler_list w)" "?p \<notin> snd ` set (agent_map w)"
    using assms np by (force simp: manager_ok_def)+
  have "manager_ok ?w3" using assms i np nr unfolding manager_ok_def by (auto simp: less_Suc_eq)
  then have f: "fresh_agent ?p ?i ?w3" using nr by (simp add: fresh_agent_def)
  have li: "?i = last_index ?w3" by simp
  obtain ok w' where r: "try_insert 10 ?i ?p ?w3 = Inr (ok, w')" "manager_ok w'" "usable ?p w'" "others_same ?p ?w3 w'"
    "ok \<longleftrightarrow> (\<exists>m < 10. map_of (agent_map ?w3) ((next_index ^^ m) ?i) = None)"
    "ok \<longrightarrow> (\<exists>j a. map_of (agent_map ?w3) j = None \<and> map_of (agent_map w') = (map_of (agent_map ?w3))(j \<mapsto> ?p) \<and>
       agents w' ?p = Some a \<and> m_index a = Some j)" "\<not> ok \<longrightarrow> agent_map w' = agent_map ?w3"
    using try_insert_correct[OF f li, of 10] by (elim exE conjE) (rule that)
  have "create_agent mk w = Inr (?p, w')"
    using s g r(1) i0 by (simp add: create_agent_def generate_index_eq add_agent_def TRY_TIMES_def Let_def)
  moreover have "\<forall>q. q \<noteq> ?p \<longrightarrow> agents w' q = agents w q" "recycler_list w' = recycler_list w" "kernel w' = kernel w"
    "next_ptr w' = Suc ?p" using r(4) by (simp_all add: others_same_def)
  moreover have "ok \<longleftrightarrow> (\<exists>m < 10. map_of (agent_map w) ((next_index ^^ Suc m) (last_index w)) = None)"
    using r(5) by (simp add: funpow_Suc_right del: funpow.simps(2))
  moreover have "agent_map ?w3 = agent_map w" by simp
  ultimately show ?thesis using r(2,3,6,7) by (intro exI[of _ ok] exI[of _ w'] conjI) simp_all
qed

text \<open>Creating an agent writes to the index of the new agent only, beyond what the constructor set.\<close>

lemma set_agent_index_events:
  "set_agent_index i p w = Inr w' \<Longrightarrow> map_option mEvent (agents w' q) = map_option mEvent (agents w q)"
  by (auto simp: set_agent_index_def with_agent_def agent_at_def run_map_eq_Inr split: option.splits)

lemma try_insert_events:
  "try_insert n i p w = Inr (ok, w') \<Longrightarrow> map_option mEvent (agents w' q) = map_option mEvent (agents w q)"
  by (induction n i p w arbitrary: w' rule: try_insert.induct)
    (auto simp: generate_index_eq split: if_splits dest!: set_agent_index_events[where q = q])

lemma create_agent_events:
  "create_agent mk w = Inr (p, w') \<Longrightarrow> map_option mEvent (agents w' p) = Some (mEvent (mk p))"
  by (auto simp: create_agent_def add_agent_def generate_index_eq Let_def run_map_eq_Inr split: if_splits
      dest!: try_insert_events[where q = p] set_agent_index_events[where q = p])

subsection \<open>Recycling and deleting agents\<close>

lemma delete_agent_ok: "manager_ok w \<Longrightarrow> manager_ok (delete_agent i w)"
  using AList.distinct_delete[of "agent_map w" i] by (auto simp: manager_ok_def delete_agent_def AList.delete_eq)

lemma recycler_agent_result:
  assumes "manager_ok w" "usable p w" "recycler_agent e (Some p) w = Inr (r, w')"
  shows "manager_ok w' \<and> recycler_list w' = recycler_list w @ [p] \<and>
    (\<exists>a. agents w p = Some a \<and> agent_map w' = AList.delete (the (m_index a)) (agent_map w)) \<and>
    (\<forall>q. q \<noteq> p \<longrightarrow> agents w' q = agents w q) \<and> next_ptr w' = next_ptr w"
proof -
  obtain a i where a: "agents w p = Some a" "m_index a = Some i" "p \<notin> set (recycler_list w)"
    using assms(2) by (auto simp: usable_def)
  obtain w1 where 1: "with_agent (tcp_recycler e) p w = Inr (r, w1)"
    using assms(3) by (auto simp: recycler_agent_def)
  obtain b k where b: "m_bIsRecycler b" "m_index b = Some i" "w1 = w\<lparr>agents := (agents w)(p := Some b), kernel := k\<rparr>"
    using 1 a recycler_marks recycler_method.keeps_index by (fastforce simp: with_agent_def agent_at_def)
  have ok1: "manager_ok w1" by (rule recycler_method.method_keeps_ok[OF assms(1) 1])
  have w': "w' = add_recycler_agent p (delete_agent i w1)"
    using assms(3) 1 b by (simp add: recycler_agent_def get_agent_index_def agent_at_def)
  have gone: "(j, p) \<notin> set (agent_map (delete_agent i w1))" for j
    using ok1 b by (fastforce simp: delete_agent_def manager_ok_def AList.delete_eq)
  have "manager_ok (delete_agent i w1)" by (rule delete_agent_ok[OF ok1])
  then have "manager_ok w'" using gone a b unfolding w' by (auto simp: manager_ok_def add_recycler_agent_def delete_agent_def)
  then show ?thesis using a b by (simp add: w' add_recycler_agent_def delete_agent_def)
qed

lemma recycler_agent_safe:
  assumes "usable p w"
  shows "recycler_agent e (Some p) w \<noteq> Inl Dangling"
proof -
  have "with_agent (tcp_recycler e) p w \<noteq> Inl Dangling"
    using assms by (intro recycler_method.method_safe) (auto simp: usable_def)
  moreover have "get_agent_index p w1 \<noteq> Inl Dangling" if "with_agent (tcp_recycler e) p w = Inr (r, w1)" for r w1
    using recycler_method.method_keeps_usable(1)[OF that, of p] assms
    by (auto simp: usable_def get_agent_index_def agent_at_def)
  ultimately show ?thesis by (auto simp: recycler_agent_def and_then_eq_Inl)
qed

lemma destroy_all_recycled:
  assumes "distinct ps" "\<forall>p \<in> set ps. \<exists>a. agents w p = Some a \<and> m_bIsRecycler a"
  shows "\<exists>rs. destroy_all e ps w = Inr (w\<lparr>agents := (\<lambda>q. if q \<in> set ps then None else agents w q),
    released := released w @ rs\<rparr>)"
  using assms
proof (induction ps arbitrary: w)
  case Nil
  show ?case by (rule exI[of _ "[]"]) simp
next
  case (Cons p ps)
  obtain a where a: "agents w p = Some a" "m_bIsRecycler a" using Cons.prems(2) by auto
  let ?w = "w\<lparr>agents := (agents w)(p := None), released := released w @ freed (snd (clear (m_Bufv a)))\<rparr>"
  have "\<forall>q \<in> set ps. \<exists>a. agents ?w q = Some a \<and> m_bIsRecycler a" using Cons.prems by auto
  from Cons.IH[OF _ this] obtain rs where "destroy_all e ps ?w = Inr (?w\<lparr>agents := (\<lambda>q. if q \<in> set ps then None
      else agents ?w q), released := released ?w @ rs\<rparr>)" using Cons.prems(1) by auto
  moreover have "destroy_agent e p w = Inr ?w" using a by (simp add: destroy_agent_def agent_at_def)
  moreover have "(\<lambda>q. if q \<in> set ps then None else agents ?w q) = (\<lambda>q. if q \<in> set (p # ps) then None else agents w q)"
    by auto
  ultimately show ?case by (intro exI[of _ "freed (snd (clear (m_Bufv a))) @ rs"]) simp
qed

lemma clean_agent_result:
  assumes "manager_ok w"
  shows "\<exists>w'. clean_agent e w = Inr (int (length (recycler_list w)), w') \<and> manager_ok w' \<and> recycler_list w' = [] \<and>
    agents w' = (\<lambda>q. if q \<in> set (recycler_list w) then None else agents w q) \<and> agent_map w' = agent_map w \<and>
    kernel w' = kernel w \<and> next_ptr w' = next_ptr w"
proof (cases "recycler_list w = []")
  case True
  then show ?thesis using assms by (auto simp: clean_agent_def manager_ok_def)
next
  case False
  obtain rs where 1: "destroy_all e (recycler_list w) w = Inr (w\<lparr>agents := (\<lambda>q. if q \<in> set (recycler_list w) then None
      else agents w q), released := released w @ rs\<rparr>)"
    using destroy_all_recycled[of "recycler_list w" w e] assms by (auto simp: manager_ok_def)
  have "manager_ok (w\<lparr>agents := (\<lambda>q. if q \<in> set (recycler_list w) then None else agents w q),
      released := released w @ rs, recycler_list := [], list_agent_num := 0\<rparr>)"
    using assms by (fastforce simp: manager_ok_def)
  then show ?thesis using 1 False assms by (simp add: clean_agent_def manager_ok_def)
qed

subsection \<open>Reachable managers\<close>

text \<open>
  The histories of a process that recycles its agents by pointer, as every caller in the sources
  does, and hands the manager no pointer to an agent that is waiting to be deleted or deleted.
  \<open>recyclerAgent\<close> by index, which no source file calls, is not a step: it ends the order of the
  manager, see C6.
\<close>

inductive mgr_reachable :: "netenv \<Rightarrow> world \<Rightarrow> bool" for e where
  Start: "mgr_reachable e (new_manager k)"
| Create: "mgr_reachable e w \<Longrightarrow> create_agent mk w = Inr (p, w') \<Longrightarrow> mgr_reachable e w'"
| Call: "mgr_reachable e w \<Longrightarrow> usable p w \<Longrightarrow> with_agent (call_method e p c) p w = Inr (r, w') \<Longrightarrow> mgr_reachable e w'"
| Recycle: "mgr_reachable e w \<Longrightarrow> usable p w \<Longrightarrow> recycler_agent e (Some p) w = Inr (r, w') \<Longrightarrow> mgr_reachable e w'"
| Clean: "mgr_reachable e w \<Longrightarrow> clean_agent e w = Inr (n, w') \<Longrightarrow> mgr_reachable e w'"

lemma new_manager_ok: "manager_ok (new_manager k)"
  by (simp add: manager_ok_def new_manager_def INIT_INDEX_def MAX_INDEX_def)

lemma reachable_ok: "mgr_reachable e w \<Longrightarrow> manager_ok w"
proof (induction rule: mgr_reachable.induct)
  case (Start k)
  show ?case by (rule new_manager_ok)
next
  case (Create w mk p w')
  then show ?case using create_agent_result[OF Create.IH, of mk] by auto
next
  case (Call w p c r w')
  then show ?case using call_method.method_keeps_ok by blast
next
  case (Recycle w p r w')
  then show ?case using recycler_agent_result by blast
next
  case (Clean w n w')
  then show ?case using clean_agent_result[OF Clean.IH, of e] by auto
qed

lemma destroy_mapped_safe:
  assumes "distinct ps" "\<forall>p \<in> set ps. agents w p \<noteq> None"
  shows "destroy_mapped e ps w \<noteq> Inl Dangling"
  using assms
proof (induction ps arbitrary: w)
  case (Cons p ps)
  have "with_agent (tcp_recycler e) p w \<noteq> Inl Dangling" using Cons.prems by (intro recycler_method.method_safe) simp
  moreover have "and_then (destroy_agent e p w1) (destroy_mapped e ps) \<noteq> Inl Dangling"
    if call: "with_agent (tcp_recycler e) p w = Inr (r, w1)" for r w1
  proof -
    obtain a where a: "agents w p = Some a" using Cons.prems(2) by auto
    then obtain b k where b: "tcp_recycler e a (kernel w) = Inr (r, b, k)" "w1 = w\<lparr>agents := (agents w)(p := Some b), kernel := k\<rparr>"
      using call by (auto simp: with_agent_def agent_at_def)
    have "m_bIsRecycler b" by (rule recycler_marks[OF b(1)])
    then have "destroy_agent e p w1 = Inr (w1\<lparr>agents := (agents w1)(p := None),
        released := released w1 @ freed (snd (clear (m_Bufv b)))\<rparr>)"
      using b(2) by (simp add: destroy_agent_def agent_at_def)
    moreover have "destroy_mapped e ps (w1\<lparr>agents := (agents w1)(p := None),
        released := released w1 @ freed (snd (clear (m_Bufv b)))\<rparr>) \<noteq> Inl Dangling"
      by (rule Cons.IH) (use Cons.prems b(2) in auto)
    ultimately show ?thesis by simp
  qed
  ultimately show ?case by (auto simp: and_then_eq_Inl)
qed simp

lemma distinct_mapped:
  assumes "manager_ok w"
  shows "distinct (map snd (agent_map w))"
proof -
  have "inj_on snd (set (agent_map w))"
    using assms mapped_unique[OF assms] by (auto simp: inj_on_def)
  moreover have "distinct (agent_map w)" using assms by (auto simp: manager_ok_def distinct_map)
  ultimately show ?thesis by (simp add: distinct_map)
qed

text \<open>
  Recycling by index: after the next clean-up the map still hands out the address of the deleted
  agent, and recycling it once more, or the destructor of the manager, uses the deleted object.
\<close>

theorem recycle_by_index_dangles:
  assumes "manager_ok w" "get_agent i w = Some p" "recycler_by_index e i w = Inr (r, w1)"
    "clean_agent e w1 = Inr (n, w2)"
  shows "get_agent i w2 = Some p \<and> agents w2 p = None \<and> recycler_by_index e i w2 = Inl Dangling"
proof -
  obtain w0 where 0: "with_agent (tcp_recycler e) p w = Inr (r, w0)" "w1 = add_recycler_agent p w0"
    using assms(2,3) by (auto simp: recycler_by_index_def run_map_eq_Inr)
  obtain a b k where b: "agents w p = Some a" "tcp_recycler e a (kernel w) = Inr (r, b, k)"
    "w0 = w\<lparr>agents := (agents w)(p := Some b), kernel := k\<rparr>"
    using 0(1) by (auto simp: with_agent_def agent_at_def split: option.splits)
  have rb: "m_bIsRecycler b" by (rule recycler_marks[OF b(2)])
  have np: "p \<notin> set (recycler_list w)" using assms(1,2) by (auto simp: manager_ok_def get_agent_def dest!: map_of_SomeD)
  have "distinct (recycler_list w1)" "\<forall>q \<in> set (recycler_list w1). \<exists>a. agents w1 q = Some a \<and> m_bIsRecycler a"
    using assms(1) np rb by (auto simp: 0(2) b(3) add_recycler_agent_def manager_ok_def)
  from destroy_all_recycled[OF this, of e] obtain rs where "destroy_all e (recycler_list w1) w1 = Inr (w1\<lparr>agents :=
      (\<lambda>q. if q \<in> set (recycler_list w1) then None else agents w1 q), released := released w1 @ rs\<rparr>)" by blast
  moreover have "list_agent_num w1 \<noteq> 0" using assms(1) by (simp add: 0(2) b(3) add_recycler_agent_def manager_ok_def)
  ultimately have w2: "agents w2 p = None" "agent_map w2 = agent_map w"
    using assms(4) 0(2) b(3) by (auto simp: clean_agent_def run_map_eq_Inr add_recycler_agent_def)
  then have "get_agent i w2 = Some p" using assms(2) by (simp add: get_agent_def)
  then show ?thesis using w2 by (simp add: recycler_by_index_def with_agent_def agent_at_def)
qed

text \<open>
  C6 In every state reached by creating agents, calling their methods, recycling them by pointer
  while they are in use, and deleting the recycled ones: the map, the list of recycled agents and
  the live objects agree; recycling an agent that is in use, creating one, and deleting the
  recycled ones never touch a deleted object, and neither does the destructor of the manager.
  The one operation that is left out, \<open>recyclerAgent\<close> by index, is safe in such a state too, but
  it leaves the entry of the map: after the next clean-up the map hands out the deleted agent,
  and recycling it once more touches it.
\<close>

theorem manager_never_dangles:
  assumes "mgr_reachable e w"
  shows "manager_ok w \<and> (usable p w \<longrightarrow> recycler_agent e (Some p) w \<noteq> Inl Dangling) \<and>
    (\<exists>p' w'. create_agent mk w = Inr (p', w') \<and> usable p' w') \<and>
    (\<exists>w'. clean_agent e w = Inr (int (length (recycler_list w)), w')) \<and> destroy_manager e w \<noteq> Inl Dangling \<and>
    recycler_by_index e i w \<noteq> Inl Dangling \<and>
    (\<forall>q r w1 n w2. get_agent i w = Some q \<and> recycler_by_index e i w = Inr (r, w1) \<and> clean_agent e w1 = Inr (n, w2) \<longrightarrow>
       get_agent i w2 = Some q \<and> agents w2 q = None \<and> recycler_by_index e i w2 = Inl Dangling)"
proof (intro conjI impI)
  show ok: "manager_ok w" by (rule reachable_ok[OF assms])
  show "recycler_agent e (Some p) w \<noteq> Inl Dangling" if "usable p w" by (rule recycler_agent_safe[OF that])
  show "\<exists>p' w'. create_agent mk w = Inr (p', w') \<and> usable p' w'" using create_agent_result[OF ok, of mk] by blast
  show "\<exists>w'. clean_agent e w = Inr (int (length (recycler_list w)), w')" using clean_agent_result[OF ok, of e] by blast
  have live: "\<forall>p \<in> set (map snd (agent_map w)). agents w p \<noteq> None" using ok by (fastforce simp: manager_ok_def)
  then show "destroy_manager e w \<noteq> Inl Dangling"
    using destroy_mapped_safe[OF distinct_mapped[OF ok]] by (simp add: destroy_manager_def)
  show "recycler_by_index e i w \<noteq> Inl Dangling"
  proof (cases "get_agent i w")
    case (Some q)
    then have "agents w q \<noteq> None" using live by (force simp: get_agent_def dest: map_of_SomeD)
    then show ?thesis using Some recycler_method.method_safe[of w q e] by (simp add: recycler_by_index_def)
  qed (simp add: recycler_by_index_def)
  show "\<forall>q r w1 n w2. get_agent i w = Some q \<and> recycler_by_index e i w = Inr (r, w1) \<and> clean_agent e w1 = Inr (n, w2) \<longrightarrow>
       get_agent i w2 = Some q \<and> agents w2 q = None \<and> recycler_by_index e i w2 = Inl Dangling"
    using recycle_by_index_dangles[OF ok] by blast
qed

text \<open>
  C25 Creating an agent: when one of the next ten indices is free, the agent is entered under a
  free index, which is its own, and every other entry stays; when all ten are taken it is still
  returned but cannot be found in the map.
\<close>

theorem create_agent_correct:
  assumes "manager_ok w"
  shows "\<exists>p w'. create_agent mk w = Inr (p, w') \<and> usable p w' \<and> (\<forall>q. q \<noteq> p \<longrightarrow> agents w' q = agents w q) \<and>
    (if \<exists>m < 10. get_agent ((next_index ^^ Suc m) (last_index w)) w = None
     then \<exists>i a. get_agent i w = None \<and> get_agent i w' = Some p \<and> agents w' p = Some a \<and> m_index a = Some i \<and>
            (\<forall>j. j \<noteq> i \<longrightarrow> get_agent j w' = get_agent j w)
     else \<forall>j. get_agent j w' = get_agent j w)"
proof -
  obtain ok w' where r: "create_agent mk w = Inr (next_ptr w, w')" "usable (next_ptr w) w'"
    "\<forall>q. q \<noteq> next_ptr w \<longrightarrow> agents w' q = agents w q"
    "ok \<longleftrightarrow> (\<exists>m < 10. map_of (agent_map w) ((next_index ^^ Suc m) (last_index w)) = None)"
    "ok \<longrightarrow> (\<exists>j a. map_of (agent_map w) j = None \<and> map_of (agent_map w') = (map_of (agent_map w))(j \<mapsto> next_ptr w) \<and>
       agents w' (next_ptr w) = Some a \<and> m_index a = Some j)" "\<not> ok \<longrightarrow> agent_map w' = agent_map w"
    using create_agent_result[OF assms, of mk] by (elim exE conjE) (rule that)
  show ?thesis
  proof (cases ok)
    case True
    then obtain j a where j: "map_of (agent_map w) j = None" "map_of (agent_map w') = (map_of (agent_map w))(j \<mapsto> next_ptr w)"
      "agents w' (next_ptr w) = Some a" "m_index a = Some j" using r(5) by blast
    then have "get_agent j w = None" "get_agent j w' = Some (next_ptr w)" "\<forall>i. i \<noteq> j \<longrightarrow> get_agent i w' = get_agent i w"
      by (simp_all add: get_agent_def)
    moreover have "\<exists>m < 10. get_agent ((next_index ^^ Suc m) (last_index w)) w = None"
      using True r(4) by (simp add: get_agent_def)
    ultimately show ?thesis using r(1-3) j(3,4) by auto
  next
    case False
    moreover have "\<not> (\<exists>m < 10. get_agent ((next_index ^^ Suc m) (last_index w)) w = None)"
      using False r(4) by (simp add: get_agent_def)
    ultimately show ?thesis using r(1-3,6) by (intro exI[of _ "next_ptr w"] exI[of _ w']) (auto simp: get_agent_def)
  qed
qed

text \<open>
  C26 Recycling an agent by pointer, with an index that is its own: nobody finds it any more,
  every other agent is found as before; after the next clean-up its object is gone and every other
  object that was not waiting for it is as before.
\<close>

theorem recycle_then_clean:
  assumes "manager_ok w" "usable p w" "owns_index p w" "recycler_agent e (Some p) w = Inr (r, w1)"
  shows "\<exists>w2. clean_agent e w1 = Inr (int (length (recycler_list w)) + 1, w2) \<and> agents w2 p = None \<and>
    (\<forall>q. q \<noteq> p \<longrightarrow> q \<notin> set (recycler_list w) \<longrightarrow> agents w2 q = agents w q) \<and>
    (\<forall>i. get_agent i w2 = (if get_agent i w = Some p then None else get_agent i w))"
proof -
  obtain a where a: "manager_ok w1" "recycler_list w1 = recycler_list w @ [p]" "agents w p = Some a"
    "agent_map w1 = AList.delete (the (m_index a)) (agent_map w)" "\<forall>q. q \<noteq> p \<longrightarrow> agents w1 q = agents w q"
    using recycler_agent_result[OF assms(1,2,4)] by blast
  obtain i where i: "m_index a = Some i" using assms(2) a(3) by (auto simp: usable_def)
  obtain w2 where 2: "clean_agent e w1 = Inr (int (length (recycler_list w1)), w2)"
    "agents w2 = (\<lambda>q. if q \<in> set (recycler_list w1) then None else agents w1 q)" "agent_map w2 = agent_map w1"
    using clean_agent_result[OF a(1), of e] by blast
  have "get_agent j w2 = (if get_agent j w = Some p then None else get_agent j w)" for j
  proof (cases "j = i")
    case True
    then have "get_agent j w \<in> {None, Some p}"
      using assms(3) a(3) i by (cases "get_agent j w") (auto simp: owns_index_def get_agent_def dest!: map_of_SomeD)
    then show ?thesis using True 2(3) a(4) i by (auto simp: get_agent_def AList.delete_conv')
  next
    case False
    then have "get_agent j w \<noteq> Some p"
      using assms(1) a(3) i by (fastforce simp: manager_ok_def get_agent_def dest!: map_of_SomeD)
    then show ?thesis using False 2(3) a(4) i by (simp add: get_agent_def AList.delete_conv')
  qed
  then show ?thesis using 2(1,2) a(2,5) by simp
qed

text \<open>A manager with one agent, for the examples.\<close>

lemma try_insert_free:
  "map_of (agent_map w) i = None \<Longrightarrow> 0 < n \<Longrightarrow>
     try_insert n i p w = Inr (True, w\<lparr>agent_map := insort_key fst (i, p) (agent_map w)\<rparr>)"
  by (cases n) simp_all

definition served_agent :: tcp_agent where
  "served_agent = (demo_agent)\<lparr>m_index := Some 2\<rparr>"

definition demo_world :: world where
  "demo_world = \<lparr>agents = [1 \<mapsto> served_agent], next_ptr = 2, agent_map = [(2, 1)], recycler_list = [], last_index = 2,
     list_agent_num = 0, kernel = quiet_kern, released = []\<rparr>"

lemma next_index_1: "next_index 1 = 2"
  by (simp add: next_index_def INIT_INDEX_def MAX_INDEX_def)

lemma demo_world_created: "create_agent (\<lambda>p. demo_agent) (new_manager quiet_kern) = Inr (1, demo_world)"
  by (simp add: create_agent_def new_manager_def INIT_INDEX_def generate_index_eq next_index_1 set_agent_index_def with_agent_def
      agent_at_def add_agent_def get_agent_index_def TRY_TIMES_def try_insert_free demo_world_def served_agent_def)

lemma demo_world_reachable: "mgr_reachable e demo_world"
  by (rule mgr_reachable.Create[OF mgr_reachable.Start demo_world_created])

lemmas demo_agent_defs = demo_agent_def new_tcp_agent_sock_def new_tcp_agent_def set_agent_operations_def demo_ops_def
  quiet_kern_def
  set_fd_def set_handler_def set_epoll_def new_epoll_event_def quiet_env_def quiet_sys_def Let_def

lemma demo_recycler:
  "\<exists>b k. tcp_recycler quiet_env served_agent quiet_kern = Inr (0, b, k) \<and> m_bIsRecycler b \<and> m_index b = Some 2"
proof -
  have "\<exists>b k. tcp_recycler quiet_env served_agent quiet_kern = Inr (0, b, k)"
    using recycler_once[of served_agent quiet_env quiet_kern "Of_User 0" 2]
    by (auto simp: served_agent_def demo_agent_defs)
  moreover have "m_index served_agent = Some 2" by (simp add: served_agent_def)
  ultimately show ?thesis using recycler_marks recycler_method.keeps_index by metis
qed


lemma create_agent_correct_witness:
  "\<exists>p w' i. create_agent (\<lambda>p. demo_agent) demo_world = Inr (p, w') \<and> get_agent i demo_world = None \<and> get_agent i w' = Some p"
proof -
  have "\<exists>m < 10. get_agent ((next_index ^^ Suc m) (last_index demo_world)) demo_world = None"
    by (rule exI[of _ 0]) (simp add: demo_world_def next_index_def INIT_INDEX_def MAX_INDEX_def get_agent_def)
  with create_agent_correct[OF reachable_ok[OF demo_world_reachable], of "\<lambda>p. demo_agent"] show ?thesis by auto
qed

lemma recycle_then_clean_witness:
  "\<exists>w1 w2. recycler_agent quiet_env (Some 1) demo_world = Inr (0, w1) \<and> clean_agent quiet_env w1 = Inr (1, w2) \<and>
     agents w2 1 = None \<and> get_agent 2 demo_world = Some 1 \<and> get_agent 2 w2 = None"
proof -
  obtain b k where b: "tcp_recycler quiet_env served_agent quiet_kern = Inr (0, b, k)" "m_index b = Some 2"
    using demo_recycler by blast
  then have 1: "\<exists>w1. recycler_agent quiet_env (Some 1) demo_world = Inr (0, w1)"
    by (simp add: recycler_agent_def with_agent_def agent_at_def demo_world_def get_agent_index_def)
  then obtain w1 where w1: "recycler_agent quiet_env (Some 1) demo_world = Inr (0, w1)" by blast
  have "usable 1 demo_world" "owns_index 1 demo_world"
    by (simp_all add: usable_def owns_index_def demo_world_def served_agent_def)
  from recycle_then_clean[OF reachable_ok[OF demo_world_reachable[of quiet_env]] this w1] w1 show ?thesis
    by (fastforce simp: demo_world_def get_agent_def)
qed

lemma recycle_by_index_dangles_witness:
  "\<exists>w1 w2. recycler_by_index quiet_env 2 demo_world = Inr (0, w1) \<and> clean_agent quiet_env w1 = Inr (1, w2) \<and>
     recycler_by_index quiet_env 2 w2 = Inl Dangling"
proof -
  obtain b k where b: "tcp_recycler quiet_env served_agent quiet_kern = Inr (0, b, k)" "m_bIsRecycler b"
    using demo_recycler by blast
  let ?w1 = "demo_world\<lparr>agents := [1 \<mapsto> b], kernel := k, recycler_list := [1], list_agent_num := 1\<rparr>"
  have 1: "recycler_by_index quiet_env 2 demo_world = Inr (0, ?w1)"
    using b by (simp add: recycler_by_index_def with_agent_def agent_at_def demo_world_def get_agent_def add_recycler_agent_def)
  have 2: "\<exists>w2. clean_agent quiet_env ?w1 = Inr (1, w2)"
    using b by (simp add: clean_agent_def demo_world_def destroy_agent_def agent_at_def)
  have "get_agent 2 demo_world = Some 1" by (simp add: get_agent_def demo_world_def)
  then show ?thesis using 1 2 recycle_by_index_dangles[OF reachable_ok[OF demo_world_reachable[of quiet_env]] _ 1] by blast
qed

lemma manager_never_dangles_witness:
  "\<exists>p' w' w1 w2. create_agent (\<lambda>p. demo_agent) demo_world = Inr (p', w') \<and> usable p' w' \<and>
     recycler_by_index quiet_env 2 demo_world = Inr (0, w1) \<and> clean_agent quiet_env w1 = Inr (1, w2) \<and>
     agents w2 1 = None \<and> get_agent 2 w2 = Some 1"
proof -
  obtain b k where b: "tcp_recycler quiet_env served_agent quiet_kern = Inr (0, b, k)" "m_bIsRecycler b"
    using demo_recycler by blast
  let ?w1 = "demo_world\<lparr>agents := [1 \<mapsto> b], kernel := k, recycler_list := [1], list_agent_num := 1\<rparr>"
  have 1: "recycler_by_index quiet_env 2 demo_world = Inr (0, ?w1)"
    using b by (simp add: recycler_by_index_def with_agent_def agent_at_def demo_world_def get_agent_def add_recycler_agent_def)
  obtain w2 where 2: "clean_agent quiet_env ?w1 = Inr (1, w2)"
    using b by (simp add: clean_agent_def demo_world_def destroy_agent_def agent_at_def)
  have "get_agent 2 demo_world = Some 1" by (simp add: get_agent_def demo_world_def)
  then show ?thesis
    using manager_never_dangles[OF demo_world_reachable[of quiet_env], of 1 "\<lambda>p. demo_agent" 2] 1 2 by blast
qed

end
