(* ===== verification/Epoll_Loop.thy ===== *)
theory Epoll_Loop
  imports Agent_Manager
begin

text \<open>
  The event loop and what hangs on it: \<open>Epoll::run\<close> and \<open>doTask\<close> (\<open>common/Epoll.cpp\<close>), the listening
  agent (\<open>common/TCPListenAgent.cpp\<close>), \<open>common/Server.cpp\<close> and \<open>common/Client.cpp\<close>. The virtual
  methods the loop calls are a record; the two classes of agents are two values of it. What
  arrives on a descriptor, and what its writes will answer, is part of the state.
\<close>

subsection \<open>The state\<close>

record listen_agent = agent +
  l_socket :: int
  l_addr :: sock_addr
  l_event :: epoll_event
  l_epoll :: bool
  l_ops :: op_place

record net = world +
  inputs :: "int \<Rightarrow> segment list"
  outputs :: "int \<Rightarrow> wanswer list"
  listeners :: "nat \<Rightarrow> listen_agent option"
  errno :: int
  junk :: bool

definition EISCONN :: int where "EISCONN = 106"
definition EINTR :: int where "EINTR = 4"
definition EWOULDBLOCK :: int where "EWOULDBLOCK = 11"

subsection \<open>The body of the loop, over the virtual methods of an agent\<close>

record 's vtable =
  v_state :: "'s \<Rightarrow> int run"
  v_errno :: "'s \<Rightarrow> int run"
  v_allow :: "'s \<Rightarrow> bool run"
  v_addr :: "'s \<Rightarrow> sock_addr option run"
  v_set_state :: "int \<Rightarrow> 's \<Rightarrow> 's run"
  v_reset :: "'s \<Rightarrow> 's run"
  v_after :: "bool \<Rightarrow> 's \<Rightarrow> (int \<times> 's) run"
  v_connect :: "sock_addr \<Rightarrow> 's \<Rightarrow> (int \<times> 's) run"
  v_recv :: "'s \<Rightarrow> (int \<times> 's) run"
  v_send :: "'s \<Rightarrow> (int \<times> 's) run"
  v_recycle :: "'s \<Rightarrow> 's run"

text \<open>Recycling the agent when the call before has failed, going on otherwise.\<close>

definition or_recycle :: "'s vtable \<Rightarrow> ('s \<Rightarrow> 's run) \<Rightarrow> int \<times> 's \<Rightarrow> 's run" where
  "or_recycle v next rs = (if fst rs < 0 then v_recycle v (snd rs) else next (snd rs))"

text \<open>An error while connecting.\<close>

definition connect_error :: "'s vtable \<Rightarrow> 's \<Rightarrow> 's run" where
  "connect_error v s = and_then (v_errno v s) (\<lambda>n.
     if n = EISCONN then
       and_then (v_set_state v CONNECTED s) (\<lambda>s1.
       and_then (v_after v True s1) (or_recycle v (v_reset v)))
     else and_then (v_allow v s) (\<lambda>ok.
       if ok then and_then (v_addr v s) (\<lambda>addr. case addr of
           Some ad \<Rightarrow> run_map snd (v_connect v ad s)
         | None \<Rightarrow> v_recycle v s)
       else and_then (v_reset v s) (\<lambda>s1. and_then (v_after v False s1) (or_recycle v Inr))))"

definition dispatch_in :: "'s vtable \<Rightarrow> u32 \<Rightarrow> 's \<Rightarrow> 's run" where
  "dispatch_in v evs s = (if evs AND EPOLLIN \<noteq> 0 then and_then (v_recv v s) (or_recycle v Inr) else Inr s)"

definition dispatch_out :: "'s vtable \<Rightarrow> u32 \<Rightarrow> 's \<Rightarrow> 's run" where
  "dispatch_out v evs s =
     (if evs AND EPOLLOUT \<noteq> 0 then
        and_then (v_state v s) (\<lambda>st.
          if st = CONNECTED then and_then (v_send v s) (or_recycle v (dispatch_in v evs))
          else and_then (v_set_state v CONNECTED s) (\<lambda>s1. and_then (v_after v True s1) (or_recycle v Inr)))
      else dispatch_in v evs s)"

definition dispatch :: "'s vtable \<Rightarrow> u32 \<Rightarrow> 's \<Rightarrow> 's run" where
  "dispatch v evs s =
     (if evs AND EPOLLERR \<noteq> 0 \<or> evs AND EPOLLHUP \<noteq> 0 then
        and_then (v_state v s) (\<lambda>st.
          if st = CONNECTING then connect_error v s
          else and_then (v_recv v s) (or_recycle v (dispatch_out v evs)))
      else dispatch_out v evs s)"

subsection \<open>The agents of connections\<close>

definition recv_method :: "segment list \<Rightarrow> tcp_agent \<Rightarrow> kern \<Rightarrow> ((int \<times> segment list) \<times> tcp_agent \<times> kern) run" where
  "recv_method ss a k = run_map (\<lambda>(r, a', ss', k'). ((r, ss'), a', k')) (tcp_read_data a ss k)"

definition send_method :: "netenv \<Rightarrow> wanswer list \<Rightarrow> tcp_agent \<Rightarrow> kern \<Rightarrow> ((int \<times> wanswer list) \<times> tcp_agent \<times> kern) run" where
  "send_method e ws a k = run_map (\<lambda>(r, a', ws', k'). ((r, ws'), a', k')) (tcp_write_data e a ws k)"

definition tcp_recv :: "nat \<Rightarrow> net \<Rightarrow> (int \<times> net) run" where
  "tcp_recv p w = and_then (agent_at p w) (\<lambda>a. let fd = m_Socket a in
     run_map (\<lambda>((r, ss'), w'). (r, w'\<lparr>inputs := (inputs w')(fd := ss')\<rparr>)) (with_agent (recv_method (inputs w fd)) p w))"

definition tcp_send :: "netenv \<Rightarrow> nat \<Rightarrow> net \<Rightarrow> (int \<times> net) run" where
  "tcp_send e p w = and_then (agent_at p w) (\<lambda>a. let fd = m_Socket a in
     run_map (\<lambda>((r, ws'), w'). (r, w'\<lparr>outputs := (outputs w')(fd := ws')\<rparr>)) (with_agent (send_method e (outputs w fd)) p w))"

definition tcp_table :: "netenv \<Rightarrow> nat \<Rightarrow> net vtable" where
  "tcp_table e p = \<lparr>
     v_state = \<lambda>w. run_map m_iConnect (agent_at p w),
     v_errno = \<lambda>w. run_map (tcp_get_errno e) (agent_at p w),
     v_allow = \<lambda>w. run_map allow_reconnect (agent_at p w),
     v_addr = \<lambda>w. run_map (tcp_get_opp_addr e) (agent_at p w),
     v_set_state = \<lambda>st w. run_map snd (with_agent (call_method e p (Do_Set_State st)) p w),
     v_reset = \<lambda>w. run_map snd (with_agent (\<lambda>a k. Inr ((), reset_connect a, k)) p w),
     v_after = \<lambda>ok. with_agent (call_method e p (Do_Connect_After ok)) p,
     v_connect = \<lambda>ad. with_agent (call_method e p (Do_Connect ad)) p,
     v_recv = tcp_recv p,
     v_send = tcp_send e p,
     v_recycle = \<lambda>w. run_map snd (recycler_agent e (Some p) w)\<rparr>"

subsection \<open>The listening agent\<close>

text \<open>
  The constructor copies the given functions into the member \<open>op\<close>, which lies in the object, and
  the setters write to it. The agents that have been accepted point to it.
\<close>

definition write_ops :: "op_place \<Rightarrow> (agent_ops \<Rightarrow> agent_ops) \<Rightarrow> kern \<Rightarrow> kern" where
  "write_ops place f k = k\<lparr>op_tables := (op_tables k)(place := f (op_tables k place))\<rparr>"

definition new_listen_agent :: "netenv \<Rightarrow> nat \<Rightarrow> bool \<Rightarrow> op_place option \<Rightarrow> bool \<Rightarrow> kern \<Rightarrow> (listen_agent \<times> kern) run" where
  "new_listen_agent e this epl ops unset k = (case ops of
       None \<Rightarrow> Inl Null_Deref
     | Some op \<Rightarrow> Inr (\<lparr>m_nRefCount = 0, m_bIsRecycler = False, m_iConnect = CONNECTING, m_iConnectTimes = - 1,
         l_socket = - 1, l_addr = empty_addr (ip_type e), l_event = set_epoll epl (new_epoll_event unset unset),
         l_epoll = epl, l_ops = Of_Listener this\<rparr>, write_ops (Of_Listener this) (\<lambda>_. op_tables k op) k))"

definition listen_init :: "netenv \<Rightarrow> nat \<Rightarrow> sock_addr \<Rightarrow> listen_agent \<Rightarrow> kern \<Rightarrow> (int \<times> listen_agent \<times> kern) run" where
  "listen_init e this addr l k =
     (let sy = sys_of e; (g, fd) = generate_socket sy (ip_type e);
          l1 = l\<lparr>l_addr := addr_assign addr, l_socket := fd\<rparr>
      in if g < 0 \<or> disable_linger sy fd < 0 \<or> disable_nagle sy fd < 0 \<or> enable_reuseaddr sy fd < 0
           \<or> set_nonblock sy fd < 0 \<or> bind_addr sy (ip_type e) (l_addr l1) fd < 0 \<or> listen_on sy 1024 fd < 0
         then Inr (- 1, l1, k)
         else and_then (register_revent e (set_handler (Some this) (set_fd fd (l_event l1))) k) (\<lambda>(r, v, k1).
           Inr (0, l1\<lparr>l_event := v\<rparr>, k1)))"

text \<open>
  \<open>recvData\<close>: after \<open>EINTR\<close> and \<open>EWOULDBLOCK\<close> it goes on with a negative descriptor. \<open>init\<close> hands
  the new agent a pointer to the functions of the listening agent.
\<close>

definition accepted_agent :: "netenv \<Rightarrow> int \<Rightarrow> sock_addr \<Rightarrow> listen_agent \<Rightarrow> net \<Rightarrow> (int \<times> net) run" where
  "accepted_agent e connfd addr l w =
     and_then (create_server_agent e connfd addr (l_epoll l) (junk w) (junk w) w) (\<lambda>(p, w1).
     and_then (with_agent (call_method e p (Do_Init (Some (l_ops l)))) p w1) (\<lambda>(r, w2).
       if r \<noteq> 0 then run_map (\<lambda>(r', w3). (0, w3)) (recycler_agent e (Some p) w2)
       else run_map (\<lambda>(r', w3). (0, w3)) (with_agent (call_method e p (Do_Connect_After True)) p w2)))"

definition listen_recv :: "netenv \<Rightarrow> listen_agent \<Rightarrow> net \<Rightarrow> (int \<times> net) run" where
  "listen_recv e l w =
     (let sy = sys_of e; (connfd, addr) = accept_connection sy (ip_type e) (empty_addr (ip_type e)) (l_socket l)
      in if connfd < 0 \<and> \<not> (errno w = EINTR \<or> errno w = EWOULDBLOCK) then Inr (- 1, w)
         else if set_nonblock sy connfd < 0 \<or> disable_linger sy connfd < 0 \<or> disable_nagle sy connfd < 0 then Inr (- 1, w)
         else accepted_agent e connfd addr l w)"

definition listen_recycler :: "netenv \<Rightarrow> listen_agent \<Rightarrow> kern \<Rightarrow> (int \<times> listen_agent \<times> kern) run" where
  "listen_recycler e l k = and_then (unregister_rwevents e (l_event l) k) (\<lambda>(r, v, k1).
     if r < 0 then Inr (0, l\<lparr>l_event := v\<rparr>, k1)
     else let (c, fd) = close_socket (sys_of e) (l_socket l)
       in Inr (0, l\<lparr>l_event := set_handler None (set_fd (- 1) v), l_socket := fd\<rparr>, k1))"

definition set_read_op :: "nat option \<Rightarrow> listen_agent \<Rightarrow> kern \<Rightarrow> kern" where
  "set_read_op f l = write_ops (l_ops l) (\<lambda>t. t\<lparr>read_back_op := f\<rparr>)"

definition set_write_op :: "nat option \<Rightarrow> listen_agent \<Rightarrow> kern \<Rightarrow> kern" where
  "set_write_op f l = write_ops (l_ops l) (\<lambda>t. t\<lparr>write_back_op := f\<rparr>)"

definition set_connect_op :: "nat option \<Rightarrow> listen_agent \<Rightarrow> kern \<Rightarrow> kern" where
  "set_connect_op f l = write_ops (l_ops l) (\<lambda>t. t\<lparr>connect_after_op := f\<rparr>)"

definition set_recycler_op :: "nat option \<Rightarrow> listen_agent \<Rightarrow> kern \<Rightarrow> kern" where
  "set_recycler_op f l = write_ops (l_ops l) (\<lambda>t. t\<lparr>recycler_after_op := f\<rparr>)"

definition set_agent_name :: "string \<Rightarrow> listen_agent \<Rightarrow> kern \<Rightarrow> kern" where
  "set_agent_name nm l = write_ops (l_ops l) (\<lambda>t. t\<lparr>op_name := nm\<rparr>)"

text \<open>
  The methods the listening agent inherits from \<open>Agent\<close> do nothing but keep the state; the
  manager, given one, does not recycle it, since it is not a \<open>TCPAgent\<close>.
\<close>

definition listen_at :: "nat \<Rightarrow> net \<Rightarrow> listen_agent run" where
  "listen_at q w = (case listeners w q of None \<Rightarrow> Inl Dangling | Some l \<Rightarrow> Inr l)"

definition listen_update :: "(listen_agent \<Rightarrow> listen_agent) \<Rightarrow> nat \<Rightarrow> net \<Rightarrow> net run" where
  "listen_update f q w = run_map (\<lambda>l. w\<lparr>listeners := (listeners w)(q := Some (f l))\<rparr>) (listen_at q w)"

definition listen_table :: "netenv \<Rightarrow> nat \<Rightarrow> net vtable" where
  "listen_table e q = \<lparr>
     v_state = \<lambda>w. run_map m_iConnect (listen_at q w),
     v_errno = \<lambda>w. Inr (errno w),
     v_allow = \<lambda>w. run_map allow_reconnect (listen_at q w),
     v_addr = \<lambda>w. Inr (Some (empty_addr (ip_type e))),
     v_set_state = \<lambda>st. listen_update (\<lambda>l. l\<lparr>m_iConnect := st\<rparr>) q,
     v_reset = listen_update reset_connect q,
     v_after = \<lambda>ok w. Inr (0, w),
     v_connect = \<lambda>ad w. Inr (0, w),
     v_recv = \<lambda>w. and_then (listen_at q w) (\<lambda>l. listen_recv e l w),
     v_send = \<lambda>w. Inr (- 1, w),
     v_recycle = Inr\<rparr>"

subsection \<open>One round of the loop\<close>

datatype event_ref = Null_Event | Tcp_Event nat | Listen_Event nat

definition handle_event :: "netenv \<Rightarrow> event_ref \<times> u32 \<Rightarrow> net \<Rightarrow> net run" where
  "handle_event e ev w = (case fst ev of
       Null_Event \<Rightarrow> Inr w
     | Tcp_Event p \<Rightarrow> and_then (agent_at p w) (\<lambda>a. case mHandler (mEvent a) of
           None \<Rightarrow> Inr w
         | Some h \<Rightarrow> dispatch (tcp_table e h) (snd ev) w)
     | Listen_Event q \<Rightarrow> and_then (listen_at q w) (\<lambda>l. case mHandler (l_event l) of
           None \<Rightarrow> Inr w
         | Some h \<Rightarrow> dispatch (listen_table e h) (snd ev) w))"

fun handle_events :: "netenv \<Rightarrow> (event_ref \<times> u32) list \<Rightarrow> net \<Rightarrow> net run" where
  "handle_events e [] w = Inr w"
| "handle_events e (ev # evs) w = and_then (handle_event e ev w) (handle_events e evs)"

definition do_task :: "netenv \<Rightarrow> net \<Rightarrow> (int \<times> net) run" where
  "do_task e w = run_map (\<lambda>(n, w'). (0, w')) (clean_agent e w)"

text \<open>What \<open>epoll_wait\<close> answers. After a failure other than \<open>EINTR\<close> no event is handled.\<close>

datatype wait_answer = Ready "(event_ref \<times> u32) list" | Wait_Intr | Wait_Error

fun epoll_round :: "netenv \<Rightarrow> wait_answer \<Rightarrow> net \<Rightarrow> net run" where
  "epoll_round e Wait_Intr w = Inr w"
| "epoll_round e Wait_Error w = run_map snd (do_task e w)"
| "epoll_round e (Ready evs) w = and_then (handle_events e evs w) (\<lambda>w1. run_map snd (do_task e w1))"


record epoll =
  mEpollFd :: int
  mEventSize :: u32
  mEpollEvents :: "nat option"

definition new_epoll :: "u32 \<Rightarrow> epoll" where
  "new_epoll unset = \<lparr>mEpollFd = - 1, mEventSize = unset, mEpollEvents = None\<rparr>"

definition epoll_initialize :: "int \<Rightarrow> u32 \<Rightarrow> epoll \<Rightarrow> int \<times> epoll" where
  "epoll_initialize created fdsize p = (let p1 = p\<lparr>mEventSize := fdsize, mEpollFd := created\<rparr> in
     if created < 0 then (- 1, p1) else (0, p1\<lparr>mEpollEvents := Some (unat fdsize)\<rparr>))"

subsection \<open>Servers and clients\<close>

record server =
  s_agent :: nat
  m_is_running :: bool

text \<open>The listening agent of a server is the object at \<open>s_agent\<close>.\<close>

definition new_server :: "netenv \<Rightarrow> bool \<Rightarrow> op_place option \<Rightarrow> nat \<Rightarrow> net \<Rightarrow> (server \<times> net) run" where
  "new_server e epl ops q w = run_map (\<lambda>(l, k). (\<lparr>s_agent = q, m_is_running = False\<rparr>,
       w\<lparr>listeners := (listeners w)(q := Some l), kernel := k\<rparr>))
     (new_listen_agent e q epl ops (junk w) (kernel w))"

definition new_server_plain :: "netenv \<Rightarrow> bool \<Rightarrow> nat \<Rightarrow> net \<Rightarrow> (server \<times> net) run" where
  "new_server_plain e epl = new_server e epl None"

definition with_listener :: "(listen_agent \<Rightarrow> kern \<Rightarrow> (int \<times> listen_agent \<times> kern) run) \<Rightarrow> nat \<Rightarrow> net \<Rightarrow> (int \<times> net) run" where
  "with_listener f q w = and_then (listen_at q w) (\<lambda>l. and_then (f l (kernel w)) (\<lambda>(r, l', k').
     Inr (r, w\<lparr>listeners := (listeners w)(q := Some l'), kernel := k'\<rparr>)))"

definition server_init :: "netenv \<Rightarrow> sock_addr \<Rightarrow> server \<Rightarrow> net \<Rightarrow> (int \<times> server \<times> net) run" where
  "server_init e addr sv w = run_map (\<lambda>(r, w'). if r < 0 then (- 1, sv, w') else (0, sv\<lparr>m_is_running := True\<rparr>, w'))
     (with_listener (listen_init e (s_agent sv) addr) (s_agent sv) w)"

definition server_stop :: "netenv \<Rightarrow> server \<Rightarrow> net \<Rightarrow> (int \<times> server \<times> net) run" where
  "server_stop e sv w = (if \<not> m_is_running sv then Inr (0, sv, w)
     else run_map (\<lambda>(r, w'). (0, sv, w')) (with_listener (listen_recycler e) (s_agent sv) w))"

text \<open>The member \<open>m_ops\<close> of the client object at \<open>this\<close> is the table \<open>Of_Client this\<close>.\<close>

record client =
  m_addr :: sock_addr
  m_agent :: "nat option"
  m_ops :: op_place

definition new_client :: "netenv \<Rightarrow> nat \<Rightarrow> bool \<Rightarrow> sock_addr \<Rightarrow> net \<Rightarrow> (client \<times> net) run" where
  "new_client e this epl addr w = run_map (\<lambda>(p, w'). (\<lparr>m_addr = new_addr (ip_type e) (ip addr) (port addr), m_agent = Some p,
     m_ops = Of_Client this\<rparr>, w'\<lparr>kernel := write_ops (Of_Client this) (\<lambda>_. default_operation) (kernel w')\<rparr>))
     (create_empty_agent e epl (junk w) (junk w) w)"

definition new_client_plain :: "netenv \<Rightarrow> nat \<Rightarrow> bool \<Rightarrow> net \<Rightarrow> (client \<times> net) run" where
  "new_client_plain e this epl w = run_map (\<lambda>(p, w'). (\<lparr>m_addr = empty_addr (ip_type e), m_agent = Some p,
     m_ops = Of_Client this\<rparr>, w'\<lparr>kernel := write_ops (Of_Client this) (\<lambda>_. default_operation) (kernel w')\<rparr>))
     (create_empty_agent e epl (junk w) (junk w) w)"

definition client_set_operations :: "netenv \<Rightarrow> agent_ops \<Rightarrow> client \<Rightarrow> net \<Rightarrow> net run" where
  "client_set_operations e op c w = (let w1 = w\<lparr>kernel := write_ops (m_ops c) (\<lambda>_. op) (kernel w)\<rparr> in case m_agent c of
       None \<Rightarrow> Inr w1
     | Some p \<Rightarrow> run_map snd (with_agent (call_method e p (Do_Set_Ops (m_ops c))) p w1))"

definition client_connect :: "netenv \<Rightarrow> client \<Rightarrow> net \<Rightarrow> (int \<times> net) run" where
  "client_connect e c w = (case m_agent c of
       None \<Rightarrow> Inr (0, w)
     | Some p \<Rightarrow> and_then (with_agent (call_method e p (Do_Set_Ops (m_ops c))) p w) (\<lambda>(r, w1).
         run_map (\<lambda>(r, w2). (if r < 0 then - 1 else 0, w2)) (with_agent (call_method e p (Do_Connect (m_addr c))) p w1)))"

definition client_connect_to :: "netenv \<Rightarrow> sock_addr \<Rightarrow> client \<Rightarrow> net \<Rightarrow> (client \<times> int \<times> net) run" where
  "client_connect_to e addr c w = (let c' = c\<lparr>m_addr := addr_assign addr\<rparr> in
     run_map (\<lambda>(r, w'). (c', r, w')) (client_connect e c' w))"

definition destroy_client :: "netenv \<Rightarrow> client \<Rightarrow> net \<Rightarrow> net run" where
  "destroy_client e c w = run_map snd (recycler_agent e (m_agent c) w)"

subsection \<open>Runs that never use a deleted object\<close>

definition safe_run :: "('a \<Rightarrow> bool) \<Rightarrow> 'a run \<Rightarrow> bool" where
  "safe_run Q r \<longleftrightarrow> r \<noteq> Inl Dangling \<and> (\<forall>x. r = Inr x \<longrightarrow> Q x)"

lemma safe_Inr [simp]: "safe_run Q (Inr x) \<longleftrightarrow> Q x"
  by (simp add: safe_run_def)

lemma safe_map [simp]: "safe_run Q (run_map f r) \<longleftrightarrow> safe_run (\<lambda>x. Q (f x)) r"
  by (cases r) (auto simp: safe_run_def)

lemma safe_then: "safe_run P r \<Longrightarrow> (\<And>x. P x \<Longrightarrow> safe_run Q (f x)) \<Longrightarrow> safe_run Q (and_then r f)"
  by (cases r) (auto simp: safe_run_def)

lemma safe_mono: "safe_run P r \<Longrightarrow> (\<And>x. P x \<Longrightarrow> Q x) \<Longrightarrow> safe_run Q r"
  by (auto simp: safe_run_def)

text \<open>
  What the loop relies on: there is a state predicate \<open>I\<close> that every virtual method keeps and a
  weaker one, \<open>J\<close>, that holds once the agent has been recycled.
\<close>

locale event_handler =
  fixes v :: "'s vtable" and I :: "'s \<Rightarrow> bool" and J :: "'s \<Rightarrow> bool"
  assumes observe: "I s \<Longrightarrow> safe_run (\<lambda>st. True) (v_state v s)" "I s \<Longrightarrow> safe_run (\<lambda>n. True) (v_errno v s)"
      "I s \<Longrightarrow> safe_run (\<lambda>b. True) (v_allow v s)" "I s \<Longrightarrow> safe_run (\<lambda>ad. True) (v_addr v s)"
    and set_state: "I s \<Longrightarrow> safe_run I (v_set_state v st s)"
    and reset: "I s \<Longrightarrow> safe_run I (v_reset v s)"
    and after: "I s \<Longrightarrow> safe_run (\<lambda>(r, s'). I s') (v_after v ok s)"
    and reconnect: "I s \<Longrightarrow> safe_run (\<lambda>(r, s'). I s') (v_connect v ad s)"
    and recv: "I s \<Longrightarrow> safe_run (\<lambda>(r, s'). I s') (v_recv v s)"
    and send: "I s \<Longrightarrow> safe_run (\<lambda>(r, s'). I s') (v_send v s)"
    and recycle: "I s \<Longrightarrow> safe_run J (v_recycle v s)"
    and weaken: "I s \<Longrightarrow> J s"
begin

lemma or_recycle_safe:
  "I (snd rs) \<Longrightarrow> (\<And>s'. I s' \<Longrightarrow> safe_run J (next s')) \<Longrightarrow> safe_run J (or_recycle v next rs)"
  by (simp add: or_recycle_def recycle)

lemma dispatch_in_safe: "I s \<Longrightarrow> safe_run J (dispatch_in v evs s)"
  by (auto simp: dispatch_in_def weaken intro!: safe_then[OF recv] or_recycle_safe)

lemma dispatch_out_safe: "I s \<Longrightarrow> safe_run J (dispatch_out v evs s)"
  by (auto simp: dispatch_out_def weaken intro!: dispatch_in_safe safe_then[OF observe(1)] safe_then[OF send]
      safe_then[OF set_state] safe_then[OF after] or_recycle_safe)

lemma connect_error_safe: "I s \<Longrightarrow> safe_run J (connect_error v s)"
  unfolding connect_error_def
  by (auto simp: weaken recycle split: option.splits intro!: safe_then[OF observe(2)] safe_then[OF observe(3)] safe_then[OF observe(4)]
      safe_then[OF set_state] safe_then[OF after] safe_then[OF reset] or_recycle_safe safe_mono[OF reset] safe_mono[OF reconnect])

lemma dispatch_safe: "I s \<Longrightarrow> safe_run J (dispatch v evs s)"
  unfolding dispatch_def
  by (auto intro!: dispatch_out_safe connect_error_safe safe_then[OF observe(1)] safe_then[OF recv] or_recycle_safe)

end

subsection \<open>Agents of connections and the listening agent as handlers\<close>

text \<open>
  \<open>near p w0 w\<close>: from \<open>w0\<close> to \<open>w\<close> only the agent at \<open>p\<close> and agents made in between have changed or been
  recycled, and the manager is in order.
\<close>

definition handler_of :: "net \<Rightarrow> nat \<Rightarrow> nat option option" where
  "handler_of w q = map_option (\<lambda>l. mHandler (l_event l)) (listeners w q)"

text \<open>Every live agent has an index, and its event has the agent itself for its handler, or none.\<close>

definition all_own :: "net \<Rightarrow> bool" where
  "all_own w \<longleftrightarrow> (\<forall>p a. agents w p = Some a \<longrightarrow> m_index a \<noteq> None \<and> mHandler (mEvent a) \<in> {None, Some p})"

definition near :: "nat option \<Rightarrow> net \<Rightarrow> net \<Rightarrow> bool" where
  "near p w0 w \<longleftrightarrow> manager_ok w \<and> next_ptr w0 \<le> next_ptr w \<and>
     (\<forall>q < next_ptr w0. Some q \<noteq> p \<longrightarrow> agents w q = agents w0 q) \<and>
     set (recycler_list w) \<subseteq> set (recycler_list w0) \<union> {q. Some q = p \<or> next_ptr w0 \<le> q} \<and>
     set (recycler_list w0) \<subseteq> set (recycler_list w) \<and> (\<forall>q. handler_of w q = handler_of w0 q) \<and> (all_own w0 \<longrightarrow> all_own w)"

definition near_usable :: "nat \<Rightarrow> net \<Rightarrow> net \<Rightarrow> bool" where
  "near_usable p w0 w \<longleftrightarrow> near (Some p) w0 w \<and> usable p w"

lemma near_refl: "manager_ok w \<Longrightarrow> near p w w"
  by (simp add: near_def)

lemma near_update [simp]:
  "near p w0 (w\<lparr>inputs := f\<rparr>) = near p w0 w" "near p w0 (w\<lparr>outputs := g\<rparr>) = near p w0 w"
  by (simp_all add: near_def manager_ok_def handler_of_def all_own_def)

lemma usable_update [simp]:
  "usable p (w\<lparr>inputs := f\<rparr>) = usable p (w::net)" "usable p (w\<lparr>outputs := g\<rparr>) = usable p (w::net)"
  by (simp_all add: usable_def)

context own_method
begin

lemma method_all_own:
  assumes "all_own w" "with_agent meth this w = Inr (r, w')"
  shows "all_own w'"
proof -
  obtain a a' k' where a: "agents w this = Some a" "meth a (kernel w) = Inr (r, a', k')"
    "w' = w\<lparr>agents := (agents w)(this := Some a'), kernel := k'\<rparr>"
    using assms(2) by (auto simp: with_agent_def agent_at_def split: option.splits)
  have "m_index a' = m_index a" by (rule keeps_index[OF a(2)])
  then show ?thesis using assms(1) a(1,3) keeps_own[OF a(2)] by (auto simp: all_own_def)
qed

lemma method_near:
  assumes "near_usable this w0 w"
  shows "safe_run (\<lambda>(r, w'). near_usable this w0 w') (with_agent meth this w)"
proof -
  have "with_agent meth this w \<noteq> Inl Dangling"
    using assms by (intro method_safe) (auto simp: near_usable_def usable_def)
  moreover have "near_usable this w0 w'" if m: "with_agent meth this w = Inr (r, w')" for r w'
  proof -
    obtain a a' k' where a: "w' = w\<lparr>agents := (agents w)(this := Some a'), kernel := k'\<rparr>"
      using method_frame[OF m] by blast
    have "manager_ok w'" "usable this w'"
      using method_keeps_ok[OF _ m] method_keeps_usable(1)[OF m] assms by (auto simp: near_usable_def near_def)
    moreover have "all_own w0 \<longrightarrow> all_own w'" using method_all_own[OF _ m] assms by (auto simp: near_usable_def near_def)
    ultimately show ?thesis using assms by (simp add: a near_usable_def near_def handler_of_def)
  qed
  ultimately show ?thesis by (auto simp: safe_run_def)
qed

end

interpretation recv_method: own_method "recv_method ss" this for ss this
proof
  fix a k r a' k'
  show "recv_method ss a k = Inr (r, a', k') \<Longrightarrow> m_index a' = m_index a"
    using call_method_frame[where c = "Do_Recv ss"] by (fastforce simp: recv_method_def run_map_eq_Inr)
  show "recv_method ss a k = Inr (r, a', k') \<Longrightarrow> m_bIsRecycler a \<Longrightarrow> m_bIsRecycler a'"
    using call_method_frame[where c = "Do_Recv ss"] by (fastforce simp: recv_method_def run_map_eq_Inr)
  show "recv_method ss a k \<noteq> Inl Dangling"
    using call_method_safe[where c = "Do_Recv ss"] by (simp add: recv_method_def)
  show "recv_method ss a k = Inr (r, a', k') \<Longrightarrow> mHandler (mEvent a) \<in> {None, Some this} \<Longrightarrow>
      mHandler (mEvent a') \<in> {None, Some this}"
    using call_own.keeps_own[where c = "Do_Recv ss"] by (fastforce simp: recv_method_def run_map_eq_Inr)
qed

interpretation send_method: own_method "send_method e ws" this for e ws this
proof
  fix a k r a' k'
  show "send_method e ws a k = Inr (r, a', k') \<Longrightarrow> m_index a' = m_index a"
    using call_method_frame[where c = "Do_Send ws"] by (fastforce simp: send_method_def run_map_eq_Inr)
  show "send_method e ws a k = Inr (r, a', k') \<Longrightarrow> m_bIsRecycler a \<Longrightarrow> m_bIsRecycler a'"
    using call_method_frame[where c = "Do_Send ws"] by (fastforce simp: send_method_def run_map_eq_Inr)
  show "send_method e ws a k \<noteq> Inl Dangling"
    using call_method_safe[where c = "Do_Send ws"] by (simp add: send_method_def)
  show "send_method e ws a k = Inr (r, a', k') \<Longrightarrow> mHandler (mEvent a) \<in> {None, Some this} \<Longrightarrow>
      mHandler (mEvent a') \<in> {None, Some this}"
    using call_own.keeps_own[where c = "Do_Send ws" and e = e] by (fastforce simp: send_method_def run_map_eq_Inr)
qed

interpretation reset_method: own_method "\<lambda>a k. Inr ((), reset_connect a, k)" this for this
  by unfold_locales (auto simp: reset_connect_def)

lemma agent_at_usable: "usable p w \<Longrightarrow> safe_run (\<lambda>a. True) (agent_at p w)"
  by (auto simp: usable_def agent_at_def)

lemma agent_at_near: "near_usable p w0 w \<Longrightarrow> safe_run (\<lambda>a. True) (agent_at p w)"
  by (auto simp: near_usable_def usable_def agent_at_def)

lemma recycler_all_own:
  assumes "all_own w" "recycler_agent e (Some p) w = Inr (r, w')"
  shows "all_own w'"
proof -
  obtain w1 where "with_agent (tcp_recycler e) p w = Inr (r, w1)" "agents w' = agents w1"
    using assms(2) by (auto simp: recycler_agent_def add_recycler_agent_def delete_agent_def)
  with recycler_own.method_all_own[OF assms(1), of e p r w1] show ?thesis by (simp add: all_own_def)
qed

lemma recycler_near:
  assumes "near_usable p w0 w" "p < next_ptr w0"
  shows "safe_run (\<lambda>(r, w'). near (Some p) w0 w') (recycler_agent e (Some p) w)"
proof -
  have u: "usable p w" "manager_ok w" using assms(1) by (simp_all add: near_usable_def near_def)
  have l: "listeners w' = listeners w" if "recycler_agent e (Some p) w = Inr (r, w')" for r w'
    using that by (auto simp: recycler_agent_def with_agent_def add_recycler_agent_def delete_agent_def)
  have "near (Some p) w0 w'" if r: "recycler_agent e (Some p) w = Inr (r, w')" for r w'
    using recycler_agent_result[OF u(2,1) r] assms(1) l[OF r] recycler_all_own[OF _ r]
    by (auto simp: near_usable_def near_def handler_of_def)
  then show ?thesis using recycler_agent_safe[OF u(1)] by (auto simp: safe_run_def)
qed

lemma tcp_recv_near: "near_usable p w0 w \<Longrightarrow> safe_run (\<lambda>(r, w'). near_usable p w0 w') (tcp_recv p w)"
  unfolding tcp_recv_def Let_def
  by (rule safe_then[OF agent_at_near], assumption)
    (auto simp: near_usable_def intro!: safe_mono[OF recv_method.method_near[unfolded near_usable_def]])

lemma tcp_send_near: "near_usable p w0 w \<Longrightarrow> safe_run (\<lambda>(r, w'). near_usable p w0 w') (tcp_send e p w)"
  unfolding tcp_send_def Let_def
  by (rule safe_then[OF agent_at_near], assumption)
    (auto simp: near_usable_def intro!: safe_mono[OF send_method.method_near[unfolded near_usable_def]])

text \<open>The tables, as handlers: the laws of the loop hold of both.\<close>

interpretation tcp_handler: event_handler "tcp_table e p" "\<lambda>w. near_usable p w0 w \<and> p < next_ptr w0" "near (Some p) w0" for e p w0
proof (unfold_locales, goal_cases)
  case (5 s st)
  then show ?case using call_own.method_near[of p w0 s e "Do_Set_State st"]
    by (auto simp: tcp_table_def intro!: safe_mono[where P = "\<lambda>(r, w'). near_usable p w0 w'"])
next
  case (6 s)
  then show ?case using reset_method.method_near[of p w0 s]
    by (auto simp: tcp_table_def intro!: safe_mono[where P = "\<lambda>(r, w'). near_usable p w0 w'"])
next
  case (7 s ok)
  then show ?case using call_own.method_near[of p w0 s e "Do_Connect_After ok"]
    by (auto simp: tcp_table_def intro!: safe_mono[where P = "\<lambda>(r, w'). near_usable p w0 w'"])
next
  case (8 s ad)
  then show ?case using call_own.method_near[of p w0 s e "Do_Connect ad"]
    by (auto simp: tcp_table_def intro!: safe_mono[where P = "\<lambda>(r, w'). near_usable p w0 w'"])
next
  case (9 s)
  then show ?case using tcp_recv_near[of p w0 s]
    by (auto simp: tcp_table_def intro!: safe_mono[where P = "\<lambda>(r, w'). near_usable p w0 w'"])
next
  case (10 s)
  then show ?case using tcp_send_near[of p w0 s e]
    by (auto simp: tcp_table_def intro!: safe_mono[where P = "\<lambda>(r, w'). near_usable p w0 w'"])
next
  case (11 s)
  then show ?case using recycler_near[of p w0 s e]
    by (auto simp: tcp_table_def intro!: safe_mono[where P = "\<lambda>(r, w'). near (Some p) w0 w'"])
qed (auto simp: tcp_table_def near_usable_def agent_at_usable)

definition listening :: "nat \<Rightarrow> net \<Rightarrow> bool" where
  "listening q w \<longleftrightarrow> handler_of w q \<noteq> None"

lemma near_create:
  assumes "near None w0 w" "create_agent mk w = Inr (p, w')" "\<And>p. mHandler (mEvent (mk p)) \<in> {None, Some p}"
  shows "near None w0 w' \<and> usable p w' \<and> next_ptr w0 \<le> p \<and> p < next_ptr w' \<and> listeners w' = listeners w"
proof -
  have "listeners w' = listeners w"
  proof -
    have ti: "listeners w2 = listeners w1" if "try_insert n i q w1 = Inr (ok, w2)" for n i q ok and w1 w2 :: net
      using that
      by (induction n i q w1 arbitrary: w2 rule: try_insert.induct)
        (auto simp: generate_index_eq set_agent_index_def with_agent_def run_map_eq_Inr split: if_splits)
    show ?thesis using assms(2)
      by (auto simp: create_agent_def add_agent_def generate_index_eq set_agent_index_def with_agent_def run_map_eq_Inr Let_def
          split: if_splits dest!: ti)
  qed
  moreover have ok: "manager_ok w" using assms(1) by (simp add: near_def)
  moreover have "all_own w \<longrightarrow> all_own w'"
  proof
    assume own: "all_own w"
    have new: "agents w' q = agents w q" if "q \<noteq> p" for q
      using create_agent_result[OF ok, of mk] assms(2) that by auto
    have "m_index a \<noteq> None \<and> mHandler (mEvent a) \<in> {None, Some p}" if a: "agents w' p = Some a" for a
    proof -
      have "usable p w'" using create_agent_result[OF ok, of mk] assms(2) by auto
      moreover have "mEvent a = mEvent (mk p)" using create_agent_events[OF assms(2)] a by simp
      ultimately show ?thesis using assms(3)[of p] a by (auto simp: usable_def)
    qed
    then show "all_own w'" using own new unfolding all_own_def by metis
  qed
  ultimately show ?thesis using create_agent_result[of w mk] assms by (auto simp: near_def handler_of_def)
qed

lemma near_None_usable:
  assumes "near None w0 w" "next_ptr w0 \<le> p"
  shows "near (Some p) w0 w"
  using assms by (fastforce simp: near_def)

lemma near_Some_new:
  assumes "near (Some p) w0 w" "next_ptr w0 \<le> p"
  shows "near None w0 w"
  using assms by (fastforce simp: near_def)

lemma recycler_new_near:
  assumes "near_usable p w0 w" "next_ptr w0 \<le> p"
  shows "safe_run (\<lambda>(r, w'). near None w0 w') (recycler_agent e (Some p) w)"
proof -
  have u: "usable p w" "manager_ok w" using assms(1) by (simp_all add: near_usable_def near_def)
  have l: "listeners w' = listeners w" if "recycler_agent e (Some p) w = Inr (r, w')" for r w'
    using that by (auto simp: recycler_agent_def with_agent_def add_recycler_agent_def delete_agent_def)
  have "near (Some p) w0 w'" if r: "recycler_agent e (Some p) w = Inr (r, w')" for r w'
    using recycler_agent_result[OF u(2,1) r] assms l[OF r] recycler_all_own[OF _ r]
    by (auto simp: near_usable_def near_def handler_of_def)
  then have "near None w0 w'" if r: "recycler_agent e (Some p) w = Inr (r, w')" for r w'
    using near_Some_new[OF _ assms(2)] r by blast
  then show ?thesis using recycler_agent_safe[OF u(1)] by (auto simp: safe_run_def)
qed

lemma sock_own: "mHandler (mEvent (new_tcp_agent_sock e p fd addr epl ur uw)) \<in> {None, Some p}"
  by (simp add: new_tcp_agent_sock_def set_handler_def Let_def)

lemma accepted_agent_near:
  assumes "near None w0 w"
  shows "safe_run (\<lambda>(r, w'). near None w0 w') (accepted_agent e connfd addr l w)"
  unfolding accepted_agent_def create_server_agent_def
proof (rule safe_then[where P = "\<lambda>(p, w1). near_usable p w0 w1 \<and> next_ptr w0 \<le> p"])
  have ok: "manager_ok w" using assms by (simp add: near_def)
  show "safe_run (\<lambda>(p, w1). near_usable p w0 w1 \<and> next_ptr w0 \<le> p)
      (create_agent (\<lambda>p. new_tcp_agent_sock e p connfd addr (l_epoll l) (junk w) (junk w)) w)"
    using create_agent_result[OF ok, of "\<lambda>p. new_tcp_agent_sock e p connfd addr (l_epoll l) (junk w) (junk w)"]
      near_create[OF assms, of "\<lambda>p. new_tcp_agent_sock e p connfd addr (l_epoll l) (junk w) (junk w)"] sock_own
    by (auto simp: near_usable_def intro: near_None_usable)
next
  fix x :: "nat \<times> net"
  assume "(\<lambda>(p, w1). near_usable p w0 w1 \<and> next_ptr w0 \<le> p) x"
  then obtain p w1 where x: "x = (p, w1)" "near_usable p w0 w1" "next_ptr w0 \<le> p" by auto
  have "safe_run (\<lambda>(r, w'). near None w0 w') (if r \<noteq> 0
      then run_map (\<lambda>(r', w3). (0, w3)) (recycler_agent e (Some p) w2)
      else run_map (\<lambda>(r', w3). (0, w3)) (with_agent (call_method e p (Do_Connect_After True)) p w2))"
    if n: "near_usable p w0 w2" for r :: int and w2
    using recycler_new_near[OF n x(3), of e] call_own.method_near[OF n, of e "Do_Connect_After True"] x(3)
    by (auto simp: near_usable_def case_prod_unfold intro: near_Some_new intro!: safe_mono[where P = "\<lambda>(r, w'). near None w0 w'"]
        elim!: safe_mono)
  then show "safe_run (\<lambda>(r, w'). near None w0 w') (case x of (p, w1) \<Rightarrow>
      and_then (with_agent (call_method e p (Do_Init (Some (l_ops l)))) p w1) (\<lambda>(r, w2).
        if r \<noteq> 0 then run_map (\<lambda>(r', w3). (0, w3)) (recycler_agent e (Some p) w2)
        else run_map (\<lambda>(r', w3). (0, w3)) (with_agent (call_method e p (Do_Connect_After True)) p w2)))"
    unfolding x(1) prod.case
    by (intro safe_then[OF call_own.method_near[OF x(2)]]) auto
qed

lemma listen_recv_near: "near None w0 w \<Longrightarrow> safe_run (\<lambda>(r, w'). near None w0 w') (listen_recv e l w)"
  by (auto simp: listen_recv_def Let_def accepted_agent_near split: prod.splits)

lemma listen_update_near:
  assumes "near None w0 w" "listening q w" "\<And>l. mHandler (l_event (f l)) = mHandler (l_event l)"
  shows "safe_run (\<lambda>w'. near None w0 w' \<and> listening q w') (listen_update f q w)"
proof -
  obtain l where l: "listeners w q = Some l" using assms(2) by (auto simp: listening_def handler_of_def)
  let ?w = "w\<lparr>listeners := (listeners w)(q := Some (f l))\<rparr>"
  have h: "handler_of ?w q' = handler_of w q'" for q' using l assms(3) by (simp add: handler_of_def)
  moreover have "all_own ?w = all_own w" by (simp add: all_own_def)
  ultimately have "near None w0 ?w" using assms(1) by (simp add: near_def manager_ok_def)
  then show ?thesis using l h assms(2) by (simp add: listen_update_def listen_at_def listening_def)
qed

interpretation listen_handler: event_handler "listen_table e q" "\<lambda>w. near None w0 w \<and> listening q w" "near None w0" for e q w0
proof (unfold_locales, goal_cases)
  case (5 s st)
  then show ?case using listen_update_near[of w0 s q "\<lambda>l. l\<lparr>m_iConnect := st\<rparr>"] by (simp add: listen_table_def)
next
  case (6 s)
  then show ?case using listen_update_near[of w0 s q reset_connect] by (simp add: listen_table_def reset_connect_def)
next
  case (9 s)
  then obtain l where l: "listeners s q = Some l" by (auto simp: listening_def handler_of_def)
  have "near None w0 w' \<Longrightarrow> listening q w'" for w' using 9 by (auto simp: near_def listening_def)
  then show ?case using listen_recv_near[of w0 s e l] 9 l
    by (auto simp: listen_table_def listen_at_def intro!: safe_mono[where P = "\<lambda>(r, w'). near None w0 w'"])
qed (auto simp: listen_table_def listen_at_def listening_def handler_of_def)

text \<open>An event that may be handled: its object is alive, in use, and its own handler.\<close>

definition event_ok :: "net \<Rightarrow> event_ref \<Rightarrow> bool" where
  "event_ok w ev = (case ev of
       Null_Event \<Rightarrow> True
     | Tcp_Event p \<Rightarrow> usable p w \<and> p < next_ptr w \<and> (\<forall>a. agents w p = Some a \<longrightarrow> mHandler (mEvent a) \<in> {None, Some p})
     | Listen_Event q \<Rightarrow> handler_of w q \<in> {Some None, Some (Some q)})"

definition event_object :: "event_ref \<Rightarrow> nat option" where
  "event_object ev = (case ev of Tcp_Event p \<Rightarrow> Some p | _ \<Rightarrow> None)"

lemma handle_event_near:
  assumes "manager_ok w" "event_ok w ev"
  shows "safe_run (near (event_object ev) w) (handle_event e (ev, evs) w)"
proof (cases ev)
  case Null_Event
  then show ?thesis using assms(1) by (simp add: handle_event_def near_refl)
next
  case (Tcp_Event p)
  then obtain a where a: "agents w p = Some a" "mHandler (mEvent a) \<in> {None, Some p}" "usable p w" "p < next_ptr w"
    using assms(2) by (auto simp: event_ok_def usable_def)
  have "safe_run (near (Some p) w) (dispatch (tcp_table e p) evs w)"
    by (rule tcp_handler.dispatch_safe) (use a assms(1) in \<open>simp add: near_usable_def near_refl\<close>)
  then show ?thesis using a Tcp_Event assms(1) by (auto simp: handle_event_def agent_at_def event_object_def near_refl)
next
  case (Listen_Event q)
  then obtain l where l: "listeners w q = Some l" "mHandler (l_event l) \<in> {None, Some q}"
    using assms(2) by (auto simp: event_ok_def handler_of_def)
  have "safe_run (near None w) (dispatch (listen_table e q) evs w)"
    by (rule listen_handler.dispatch_safe) (use l assms(1) in \<open>simp add: listening_def handler_of_def near_refl\<close>)
  then show ?thesis using l Listen_Event assms(1) by (auto simp: handle_event_def listen_at_def event_object_def near_refl)
qed

text \<open>From \<open>w0\<close> to \<open>w\<close> only the agents of \<open>P\<close> and agents made in between have changed.\<close>

definition near_all :: "nat option set \<Rightarrow> net \<Rightarrow> net \<Rightarrow> bool" where
  "near_all P w0 w \<longleftrightarrow> manager_ok w \<and> next_ptr w0 \<le> next_ptr w \<and>
     (\<forall>q < next_ptr w0. Some q \<notin> P \<longrightarrow> agents w q = agents w0 q) \<and>
     set (recycler_list w) \<subseteq> set (recycler_list w0) \<union> {q. Some q \<in> P \<or> next_ptr w0 \<le> q} \<and>
     set (recycler_list w0) \<subseteq> set (recycler_list w) \<and> (\<forall>q. handler_of w q = handler_of w0 q) \<and> (all_own w0 \<longrightarrow> all_own w)"

lemma near_all_refl: "manager_ok w \<Longrightarrow> near_all P w w"
  by (simp add: near_all_def)

lemma near_all_trans:
  assumes "near_all P w0 w1" "near_all Q w1 w"
  shows "near_all (P \<union> Q) w0 w"
  using assms unfolding near_all_def by (auto intro: order_trans)

lemma near_is_near_all: "near p w0 w = near_all {p} w0 w"
  by (auto simp: near_def near_all_def)

lemma event_ok_near_all:
  assumes "event_ok w ev" "near_all P w w'" "event_object ev = None \<or> event_object ev \<notin> P"
  shows "event_ok w' ev"
proof (cases ev)
  case (Tcp_Event q)
  then have q: "usable q w" "q < next_ptr w" "Some q \<notin> P" "\<forall>a. agents w q = Some a \<longrightarrow> mHandler (mEvent a) \<in> {None, Some q}"
    using assms(1,3) by (auto simp: event_ok_def event_object_def)
  then have "agents w' q = agents w q" "q \<notin> set (recycler_list w')"
    using assms(2) by (auto simp: near_all_def usable_def)
  moreover have "next_ptr w \<le> next_ptr w'" using assms(2) by (simp add: near_all_def)
  ultimately show ?thesis using Tcp_Event q by (simp add: event_ok_def usable_def)
next
  case (Listen_Event q)
  moreover have "handler_of w' q = handler_of w q" using assms(2) by (simp add: near_all_def)
  ultimately show ?thesis using assms(1) by (simp add: event_ok_def)
qed (simp add: event_ok_def)

text \<open>The agents whose events an answer reports.\<close>

definition event_objects :: "(event_ref \<times> u32) list \<Rightarrow> nat option list" where
  "event_objects evs = filter (\<lambda>ob. ob \<noteq> None) (map (\<lambda>x. event_object (fst x)) evs)"

lemma event_objects_Cons:
  "event_objects ((ev, m) # evs) = (if event_object ev = None then [] else [event_object ev]) @ event_objects evs"
  by (simp add: event_objects_def)

lemma event_objects_append: "event_objects (xs @ ys) = event_objects xs @ event_objects ys"
  by (simp add: event_objects_def)

lemma event_objects_iff: "ob \<in> set (event_objects evs) \<longleftrightarrow> ob \<noteq> None \<and> (\<exists>ev m. (ev, m) \<in> set evs \<and> event_object ev = ob)"
  by (force simp: event_objects_def)

lemma handle_events_near:
  assumes "manager_ok w" "\<forall>ev \<in> set (map fst evs). event_ok w ev" "distinct (event_objects evs)"
  shows "safe_run (near_all (insert None (set (event_objects evs))) w) (handle_events e evs w)"
  using assms
proof (induction evs arbitrary: w)
  case (Cons x evs)
  obtain ev m where x: "x = (ev, m)" by force
  have ok: "event_ok w ev" using Cons.prems(2) x by simp
  let ?Q = "\<lambda>evs. insert None (set (event_objects evs))"
  show ?case unfolding x handle_events.simps
  proof (rule safe_then[OF handle_event_near[OF Cons.prems(1) ok]])
    fix w1 assume n: "near (event_object ev) w w1"
    have "event_ok w1 ev'" if "ev' \<in> set (map fst evs)" for ev'
    proof (rule event_ok_near_all[OF _ n[unfolded near_is_near_all]])
      show "event_ok w ev'" using Cons.prems(2) that by auto
      show "event_object ev' = None \<or> event_object ev' \<notin> {event_object ev}"
        using Cons.prems(3) that x by (fastforce simp: event_objects_Cons event_objects_iff split: if_splits)
    qed
    moreover have "distinct (event_objects evs)" using Cons.prems(3) x by (simp add: event_objects_Cons)
    ultimately have "safe_run (near_all (?Q evs) w1) (handle_events e evs w1)"
      using Cons.IH n by (simp add: near_def)
    moreover have "{event_object ev} \<union> ?Q evs = ?Q ((ev, m) # evs)"
      by (auto simp: event_objects_Cons)
    ultimately show "safe_run (near_all (?Q ((ev, m) # evs)) w) (handle_events e evs w1)"
      using near_all_trans[OF n[unfolded near_is_near_all], of "?Q evs"] by (auto elim!: safe_mono)
  qed
qed (simp add: near_all_refl)

subsection \<open>Rounds of the loop\<close>

text \<open>
  Between rounds the manager is in order, nothing waits for deletion, and the event of every agent
  and of every listening agent has the agent itself for its handler, or none.
\<close>

definition loop_ok :: "net \<Rightarrow> bool" where
  "loop_ok w \<longleftrightarrow> manager_ok w \<and> recycler_list w = [] \<and> all_own w \<and>
     (\<forall>q l. listeners w q = Some l \<longrightarrow> mHandler (l_event l) \<in> {None, Some q})"

text \<open>
  What is relied on of \<open>epoll_wait\<close>: it reports a descriptor at most once in a round, and only the
  descriptors of objects that exist when it answers. (Recycling an agent takes its descriptor out
  of the epoll set and closes it.)
\<close>

definition live_event :: "net \<Rightarrow> event_ref \<Rightarrow> bool" where
  "live_event w ev = (case ev of Null_Event \<Rightarrow> True | Tcp_Event p \<Rightarrow> agents w p \<noteq> None | Listen_Event q \<Rightarrow> listeners w q \<noteq> None)"

fun answer_live :: "wait_answer \<Rightarrow> net \<Rightarrow> bool" where
  "answer_live (Ready evs) w = (list_all (live_event w) (map fst evs) \<and> distinct (event_objects evs))"
| "answer_live Wait_Intr w = True"
| "answer_live Wait_Error w = True"


fun reported :: "wait_answer list \<Rightarrow> nat option set" where
  "reported [] = {}"
| "reported (Ready evs # as) = set (event_objects evs) \<union> reported as"
| "reported (ans # as) = reported as"

lemma live_event_ok:
  assumes "loop_ok w" "live_event w ev"
  shows "event_ok w ev"
proof (cases ev)
  case (Tcp_Event p)
  then obtain a where a: "agents w p = Some a" using assms(2) by (auto simp: live_event_def)
  have "m_index a \<noteq> None" "mHandler (mEvent a) \<in> {None, Some p}" "p < next_ptr w"
    using assms(1) a unfolding loop_ok_def all_own_def manager_ok_def by blast+
  then show ?thesis using Tcp_Event a assms(1) by (simp add: event_ok_def usable_def loop_ok_def)
next
  case (Listen_Event q)
  then show ?thesis using assms by (auto simp: live_event_def event_ok_def loop_ok_def handler_of_def)
qed (simp add: event_ok_def)

text \<open>What a round, or several, keep: the loop is in order, and who was not reported is as before.\<close>

definition after_rounds :: "nat option set \<Rightarrow> net \<Rightarrow> net \<Rightarrow> bool" where
  "after_rounds P w w' \<longleftrightarrow> loop_ok w' \<and> next_ptr w \<le> next_ptr w' \<and>
     (\<forall>p a. agents w p = Some a \<longrightarrow> Some p \<notin> P \<longrightarrow> agents w' p = Some a) \<and>
     (\<forall>q. listeners w q \<noteq> None \<longrightarrow> listeners w' q \<noteq> None)"


lemma destroy_all_listeners: "destroy_all e ps w = Inr w' \<Longrightarrow> listeners w' = listeners w"
  by (induction ps arbitrary: w) (auto simp: destroy_agent_def with_agent_def split: if_splits)

lemma clean_agent_listeners: "clean_agent e w = Inr (n, w') \<Longrightarrow> listeners w' = listeners w"
  by (auto simp: clean_agent_def run_map_eq_Inr split: if_splits dest: destroy_all_listeners)

lemma do_task_after:
  assumes "near_all (insert None P) w w1" "loop_ok w"
  shows "safe_run (after_rounds P w) (run_map snd (do_task e w1))"
proof -
  have n: "manager_ok w1" "next_ptr w \<le> next_ptr w1" "all_own w1" "\<And>q. handler_of w1 q = handler_of w q"
    "\<And>q. q < next_ptr w \<Longrightarrow> Some q \<notin> P \<Longrightarrow> agents w1 q = agents w q"
    "set (recycler_list w1) \<subseteq> {q. Some q \<in> P \<or> next_ptr w \<le> q}"
    using assms by (auto simp: near_all_def loop_ok_def)
  obtain w' where w': "clean_agent e w1 = Inr (int (length (recycler_list w1)), w')" "manager_ok w'" "recycler_list w' = []"
    "agents w' = (\<lambda>q. if q \<in> set (recycler_list w1) then None else agents w1 q)" "next_ptr w' = next_ptr w1"
    using clean_agent_result[OF n(1), of e] by blast
  have l: "listeners w' = listeners w1" using w'(1) clean_agent_listeners by blast
  have hs: "map_option (\<lambda>l. mHandler (l_event l)) (listeners w1 q) = map_option (\<lambda>l. mHandler (l_event l)) (listeners w q)" for q
    using n(4)[of q] by (simp add: handler_of_def)
  have "mHandler (l_event x) \<in> {None, Some q}" if x: "listeners w' q = Some x" for q x
  proof -
    obtain x0 where "listeners w q = Some x0" "mHandler (l_event x) = mHandler (l_event x0)"
      using hs[of q] x l by (cases "listeners w q") auto
    then show ?thesis using assms(2) unfolding loop_ok_def by metis
  qed
  moreover have "all_own w'" using n(3) by (auto simp: all_own_def w'(4) split: if_splits)
  ultimately have "loop_ok w'" using w'(2,3) unfolding loop_ok_def by blast
  moreover have "agents w' p = Some a" if "agents w p = Some a" "Some p \<notin> P" for p a
  proof -
    have "p < next_ptr w" using that(1) assms(2) by (auto simp: loop_ok_def manager_ok_def)
    then show ?thesis using n(5,6) that w'(4) by auto
  qed
  moreover have "listeners w' q \<noteq> None" if "listeners w q \<noteq> None" for q using hs[of q] that l by auto
  ultimately have "after_rounds P w w'" using n(2) w'(5) unfolding after_rounds_def by auto
  then show ?thesis by (simp add: do_task_def w'(1))
qed

lemma epoll_round_after:
  assumes "loop_ok w" "answer_live ans w"
  shows "safe_run (after_rounds (reported [ans]) w) (epoll_round e ans w)"
proof (cases ans)
  case (Ready evs)
  have ok: "manager_ok w" using assms(1) by (simp add: loop_ok_def)
  have "\<forall>ev \<in> set (map fst evs). event_ok w ev" "distinct (event_objects evs)"
    using assms(2) Ready live_event_ok[OF assms(1)] by (auto simp: list_all_iff)
  from handle_events_near[OF ok this] show ?thesis
    using do_task_after[OF _ assms(1)] Ready by (auto intro!: safe_then)
next
  case Wait_Intr
  then show ?thesis using assms(1) by (simp add: after_rounds_def)
next
  case Wait_Error
  have "near_all (insert None {}) w w" using assms(1) by (simp add: near_all_refl loop_ok_def)
  from do_task_after[OF this assms(1)] show ?thesis using Wait_Error by simp
qed




definition demo_net :: net where
  "demo_net = world.extend demo_world \<lparr>inputs = \<lambda>fd. [Closed], outputs = \<lambda>fd. [], listeners = \<lambda>q. None, errno = 0, junk = False\<rparr>"

lemma demo_net_fields [simp]:
  "agents demo_net = [1 \<mapsto> served_agent]" "next_ptr demo_net = 2" "agent_map demo_net = [(2, 1)]"
  "recycler_list demo_net = []" "list_agent_num demo_net = 0" "last_index demo_net = 2" "kernel demo_net = quiet_kern"
  "inputs demo_net = (\<lambda>fd. [Closed])" "listeners demo_net = (\<lambda>q. None)"
  by (simp_all add: demo_net_def demo_world_def world.extend_def)

lemma demo_net_ok: "manager_ok demo_net"
  by (simp add: manager_ok_def served_agent_def MAX_INDEX_def)

lemma demo_loop_ok: "loop_ok demo_net"
  using demo_net_ok by (simp add: loop_ok_def all_own_def served_agent_def demo_agent_defs)


text \<open>The reports of a connected agent for which the loop reads before anything else.\<close>

definition reads_first :: "u32 \<Rightarrow> bool" where
  "reads_first m \<longleftrightarrow> m AND EPOLLERR \<noteq> 0 \<or> m AND EPOLLHUP \<noteq> 0 \<or> m AND EPOLLOUT = 0 \<and> m AND EPOLLIN \<noteq> 0"

lemma failed_read_recycles:
  assumes "agents w p = Some a" "mHandler (mEvent a) = Some p" "m_iConnect a = CONNECTED" "reads_first m"
    "tcp_recv p w = Inr (r, w1)" "r < 0"
  shows "handle_event e (Tcp_Event p, m) w = run_map snd (recycler_agent e (Some p) w1)"
  using assms
  by (auto simp: handle_event_def agent_at_def dispatch_def dispatch_out_def dispatch_in_def or_recycle_def tcp_table_def
      reads_first_def CONNECTED_def CONNECTING_def)

lemma tcp_recv_index:
  assumes "tcp_recv p w = Inr (r, w1)" "agents w p = Some a"
  shows "agent_map w1 = agent_map w \<and> (\<exists>b. agents w1 p = Some b \<and> m_index b = m_index a)"
proof -
  obtain b k ss where "w1 = w\<lparr>agents := (agents w)(p := Some b), kernel := k, inputs := (inputs w)(m_Socket a := ss)\<rparr>"
    "recv_method (inputs w (m_Socket a)) a (kernel w) = Inr ((r, ss), b, k)"
    using assms by (auto simp: tcp_recv_def with_agent_def agent_at_def Let_def run_map_eq_Inr)
  then show ?thesis using recv_method.keeps_index[of "inputs w (m_Socket a)" a] by auto
qed

lemma handle_events_append:
  "handle_events e (xs @ ys) w = and_then (handle_events e xs w) (handle_events e ys)"
proof (induction xs arbitrary: w)
  case (Cons x xs)
  then show ?case by (cases "handle_event e x w") auto
qed simp

text \<open>
  C27 A connection that fails: in a round that reports a connected agent, among any other objects,
  in a way that makes the loop read (input without output, an error or a hang-up), reading from it
  fails, as it does when the peer has closed; when the recycling that follows and the handling of
  the other events do not fault, the round ends with the agent deleted and without an entry in the
  map, the loop is in order for the next round, and no other is touched: every agent that was not
  reported is what it was. When the agent is the only one reported and its index is its own, the
  map is exactly the old one without its entry.
\<close>

theorem failed_agent_removed:
  assumes "loop_ok w" "answer_live (Ready (xs @ (Tcp_Event p, m) # ys)) w" "reads_first m"
    "agents w p = Some a" "mHandler (mEvent a) = Some p" "m_iConnect a = CONNECTED"
    "handle_events e xs w = Inr w1" "tcp_recv p w1 = Inr (r, w2)" "r < 0"
    "recycler_agent e (Some p) w2 = Inr (r', w3)" "handle_events e ys w3 = Inr w4"
  shows "\<exists>w'. epoll_round e (Ready (xs @ (Tcp_Event p, m) # ys)) w = Inr w' \<and> loop_ok w' \<and> agents w' p = None \<and>
    (\<forall>i. get_agent i w' \<noteq> Some p) \<and>
    (\<forall>q b. agents w q = Some b \<longrightarrow> Some q \<notin> reported [Ready (xs @ (Tcp_Event p, m) # ys)] \<longrightarrow> agents w' q = Some b) \<and>
    (xs = [] \<and> ys = [] \<and> owns_index p w \<longrightarrow>
      (\<forall>i. get_agent i w' = (if get_agent i w = Some p then None else get_agent i w)))"
proof -
  let ?evs = "xs @ (Tcp_Event p, m) # ys"
  have ok: "manager_ok w" "p < next_ptr w" "recycler_list w = []"
    using assms(1,4) by (auto simp: loop_ok_def manager_ok_def)
  have live: "\<forall>ev \<in> set (map fst ?evs). event_ok w ev" "distinct (event_objects ?evs)"
    using assms(2) live_event_ok[OF assms(1)] by (auto simp: list_all_iff)
  have d: "distinct (event_objects xs)" "distinct (event_objects ys)" "Some p \<notin> set (event_objects xs)"
    using live(2) by (auto simp: event_objects_append event_objects_Cons event_object_def)
  have 1: "near_all (insert None (set (event_objects xs))) w w1"
    using handle_events_near[OF ok(1) _ d(1), of e] live(1) assms(7) by (auto simp: safe_run_def)
  have w1: "agents w1 p = Some a" "manager_ok w1" "next_ptr w \<le> next_ptr w1" "p \<notin> set (recycler_list w1)" "all_own w1"
    using 1 ok d(3) assms(1,4) by (auto simp: near_all_def loop_ok_def)
  then have u1: "usable p w1" by (auto simp: usable_def all_own_def)
  have n1: "near_usable p w1 w1" using u1 w1(2) by (simp add: near_usable_def near_refl)
  have n2: "near_usable p w1 w2" using tcp_recv_near[OF n1] assms(8) by (auto simp: safe_run_def)
  then have u2: "usable p w2" "manager_ok w2" by (simp_all add: near_usable_def near_def)
  have h: "handle_event e (Tcp_Event p, m) w1 = Inr w3"
    using failed_read_recycles[OF w1(1) assms(5,6,3,8,9)] assms(10) by simp
  then have round: "handle_events e ?evs w = Inr w4"
    using assms(7,11) by (simp add: handle_events_append)
  let ?P = "insert None (set (event_objects xs)) \<union> {Some p}"
  have "near (Some p) w1 w3" using recycler_near[OF n2, of e] assms(10) w1(3) ok(2) by (auto simp: safe_run_def)
  then have 3: "near_all ?P w w3" using near_all_trans[OF 1, of "{Some p}"] by (simp add: near_is_near_all)
  have "event_ok w3 ev" if ev: "ev \<in> set (map fst ys)" for ev
  proof (rule event_ok_near_all[OF _ 3])
    show "event_ok w ev" using live(1) ev by auto
    show "event_object ev = None \<or> event_object ev \<notin> ?P"
      using live(2) ev by (fastforce simp: event_objects_append event_objects_Cons event_objects_iff event_object_def)
  qed
  then have 4: "near_all (insert None (set (event_objects ys))) w3 w4"
    using handle_events_near[OF _ _ d(2), of w3 e] 3 assms(11) by (auto simp: near_all_def safe_run_def)
  have "p \<in> set (recycler_list w3)" using recycler_agent_result[OF u2(2,1) assms(10)] by simp
  then have gone: "p \<in> set (recycler_list w4)" "manager_ok w4" using 4 by (auto simp: near_all_def)
  obtain n w' where w': "clean_agent e w4 = Inr (n, w')" "agents w' p = None"
    using clean_agent_result[OF gone(2), of e] gone(1) by auto
  have ran: "epoll_round e (Ready ?evs) w = Inr w'" using round w'(1) by (simp add: do_task_def)
  then have after: "after_rounds (reported [Ready ?evs]) w w'"
    using epoll_round_after[OF assms(1,2), of e] by (simp add: safe_run_def)
  have "get_agent i w' \<noteq> Some p" for i
  proof
    assume "get_agent i w' = Some p"
    then have "(i, p) \<in> set (agent_map w')" by (simp add: get_agent_def map_of_SomeD)
    then show False using after w'(2) by (auto simp: after_rounds_def loop_ok_def manager_ok_def)
  qed
  moreover have "get_agent i w' = (if get_agent i w = Some p then None else get_agent i w)"
    if alone: "xs = []" "ys = []" "owns_index p w" for i
  proof -
    have eq: "w1 = w" "w4 = w3" using assms(7,11) alone by simp_all
    have m: "agent_map w2 = agent_map w1" "\<exists>b. agents w2 p = Some b \<and> m_index b = m_index a"
      using tcp_recv_index[OF assms(8) w1(1)] by blast+
    have "owns_index p w2" using m alone(3) eq(1) assms(4) by (auto simp: owns_index_def)
    from recycle_then_clean[OF u2(2,1) this assms(10)] show ?thesis
      using w'(1) eq m(1) by (auto simp: get_agent_def)
  qed
  ultimately show ?thesis using ran after w'(2) unfolding after_rounds_def by blast
qed

lemma failed_agent_removed_witness:
  "\<exists>w'. epoll_round quiet_env (Ready [(Null_Event, 0), (Tcp_Event 1, EPOLLIN OR EPOLLHUP)]) demo_net = Inr w' \<and> agents w' 1 = None \<and>
    get_agent 2 w' \<noteq> Some 1"
proof -
  have u: "reads_first (EPOLLIN OR EPOLLHUP)" "agents demo_net 1 = Some served_agent"
    "mHandler (mEvent served_agent) = Some 1" "m_iConnect served_agent = CONNECTED"
    by (simp_all add: reads_first_def served_agent_def demo_agent_defs CONNECTED_def EPOLLIN_def EPOLLHUP_def)
  obtain b where b: "tcp_read_data served_agent [Closed] quiet_kern = Inr (- 1, served_agent\<lparr>m_Bufv := b\<rparr>, [Closed], quiet_kern)"
    by (simp add: tcp_read_data_def buf_read_def read_init_def read_head_def served_agent_def demo_agent_defs set_agent_def new_bufmgr_def
        raised_def)
  let ?w1 = "demo_net\<lparr>agents := [1 \<mapsto> served_agent\<lparr>m_Bufv := b\<rparr>], inputs := (inputs demo_net)(7 := [Closed])\<rparr>"
  have r: "tcp_recv 1 demo_net = Inr (- 1, ?w1)"
    using b by (simp add: tcp_recv_def agent_at_def with_agent_def recv_method_def served_agent_def demo_agent_defs demo_net_def
        world.extend_def demo_world_def)
  have "\<exists>c k. tcp_recycler quiet_env (served_agent\<lparr>m_Bufv := b\<rparr>) quiet_kern = Inr (0, c, k)"
    using recycler_once[of "served_agent\<lparr>m_Bufv := b\<rparr>" quiet_env quiet_kern "Of_User 0" 2]
    by (auto simp: served_agent_def demo_agent_defs)
  then obtain c k where c: "tcp_recycler quiet_env (served_agent\<lparr>m_Bufv := b\<rparr>) quiet_kern = Inr (0, c, k)" by blast
  then have "m_index c = Some 2" using recycler_method.keeps_index[OF c] by (simp add: served_agent_def)
  then have "\<exists>r' w2. recycler_agent quiet_env (Some 1) ?w1 = Inr (r', w2)"
    using c by (simp add: recycler_agent_def with_agent_def agent_at_def get_agent_index_def)
  then obtain r' w2 where "recycler_agent quiet_env (Some 1) ?w1 = Inr (r', w2)" by blast
  have live: "answer_live (Ready ([(Null_Event, 0)] @ (Tcp_Event 1, EPOLLIN OR EPOLLHUP) # [])) demo_net"
    by (simp add: live_event_def event_objects_def event_object_def)
  have no: "handle_events quiet_env [(Null_Event, 0)] demo_net = Inr demo_net" "handle_events quiet_env [] w2 = Inr w2"
    by (simp_all add: handle_event_def)
  from failed_agent_removed[OF demo_loop_ok live u no(1) r _ \<open>recycler_agent quiet_env (Some 1) ?w1 = Inr (r', w2)\<close> no(2)]
  show ?thesis by auto
qed

end
