(* ===== verification/Tool_Text.thy ===== *)
theory Tool_Text
  imports Net_Socket "HOL-Library.Signed_Division"
begin

text \<open>
  The text utilities of \<open>common/Tool.cpp\<close>. A position outside a \<open>std::string\<close> (an exception of
  \<open>substr\<close>) is the fault \<open>Out_Of_Bounds\<close>; using the result of \<open>strchr\<close> when nothing was found is
  \<open>Null_Deref\<close>. C strings hold no zero characters.
\<close>

definition int_to_str :: "u32 \<Rightarrow> string" where
  "int_to_str v = decimal (unat v)"

definition long_to_str :: "u64 \<Rightarrow> string" where
  "long_to_str v = decimal (unat v)"

text \<open>\<open>strchr\<close> from a position, and \<open>std::string::substr\<close>.\<close>

fun find_char :: "char \<Rightarrow> string \<Rightarrow> nat option" where
  "find_char c [] = None"
| "find_char c (x # xs) = (if x = c then Some 0 else map_option Suc (find_char c xs))"

definition find_from :: "nat \<Rightarrow> char \<Rightarrow> string \<Rightarrow> nat option" where
  "find_from i c s = map_option (\<lambda>j. i + j) (find_char c (drop i s))"

definition substr :: "nat \<Rightarrow> nat \<Rightarrow> string \<Rightarrow> string run" where
  "substr i n s = (if length s < i then Inl Out_Of_Bounds else Inr (take n (drop i s)))"

subsection \<open>parseData\<close>

text \<open>
  The loop: \<open>idx\<close> is at a separator, \<open>pos\<close> at the start of the next field. It goes on only at the
  character \<open>'|'\<close>, whatever the separator is.
\<close>

lemma find_char_bound: "find_char c s = Some j \<Longrightarrow> j < length s"
  by (induction s arbitrary: j) (auto split: if_splits)

lemma find_from_bound: "find_from i c s = Some j \<Longrightarrow> i \<le> j \<and> j < length s"
  by (auto simp: find_from_def dest!: find_char_bound)

function parse_fields :: "string \<Rightarrow> char \<Rightarrow> nat \<Rightarrow> nat \<Rightarrow> string list \<Rightarrow> string list run" where
  "parse_fields data spc idx pos acc =
     (if idx < length data \<and> data ! idx = CHR ''|'' then
        (case find_from (idx + 1) spc data of
           None \<Rightarrow> and_then (substr pos (length data) data) (\<lambda>s. Inr (if s = [] then acc else acc @ [s]))
         | Some idx2 \<Rightarrow> and_then (substr pos (idx2 - (idx + 1)) data) (\<lambda>s.
             parse_fields data spc idx2 (pos + (idx2 - (idx + 1)) + 1) (acc @ [s])))
      else Inr acc)"
  by pat_completeness auto

termination
  by (relation "measure (\<lambda>(data, spc, idx, pos, acc). length data - idx)") (auto dest!: find_from_bound)

declare parse_fields.simps [simp del]

definition parse_data :: "string \<Rightarrow> char \<Rightarrow> string list run" where
  "parse_data data spc =
     (let first = find_from 0 spc data;
          (pos, idx) = (if first = Some 0 then (1, find_from 1 spc data) else (0, first))
      in case idx of
           None \<Rightarrow> Inl Null_Deref
         | Some i \<Rightarrow> and_then (substr pos i data) (\<lambda>s. parse_fields data spc i (pos + i + 1) [s]))"

subsection \<open>Other operations\<close>

text \<open>\<open>rfind\<close>; the part before the last \<open>'/'\<close> is replaced.\<close>

definition rfind_char :: "char \<Rightarrow> string \<Rightarrow> nat option" where
  "rfind_char c s = map_option (\<lambda>j. length s - 1 - j) (find_char c (rev s))"

definition replace_path :: "string \<Rightarrow> string \<Rightarrow> string" where
  "replace_path old new = (if old = [] then [] else case rfind_char (CHR ''/'') old of
       Some i \<Rightarrow> new @ drop i old
     | None \<Rightarrow> new @ ''/'' @ old)"

text \<open>A \<open>char\<close> is signed; \<open>%\<close> keeps the sign of the dividend.\<close>

definition char_val :: "char \<Rightarrow> int" where
  "char_val c = (let n = of_char c in if n < 128 then n else n - 256)"

fun chk_loop :: "nat \<Rightarrow> nat \<Rightarrow> string \<Rightarrow> int \<Rightarrow> int" where
  "chk_loop 0 i s acc = acc"
| "chk_loop (Suc n) i s acc =
     chk_loop n (i + 1) s ((acc + char_val (s ! i) * char_val (s ! (length s - i - 1))) smod 100000)"

definition calculate_chk_sum :: "string \<Rightarrow> int" where
  "calculate_chk_sum s = chk_loop (length s div 2) 0 s 0"

text \<open>A number as \<open>convertType<int, string>\<close> prints it.\<close>

definition int_text :: "int \<Rightarrow> string" where
  "int_text n = (if n < 0 then ''-'' @ decimal (nat (- n)) else decimal (nat n))"

definition replace_du :: "string \<Rightarrow> int \<times> string" where
  "replace_du s = (case find_from 0 (CHR ''_'') s of
       None \<Rightarrow> (- 1, s)
     | Some p1 \<Rightarrow> (case find_from (p1 + 1) (CHR ''_'') s of
         None \<Rightarrow> (- 1, s)
       | Some p2 \<Rightarrow> (case find_from (p2 + 1) (CHR ''_'') s of
           None \<Rightarrow> (- 1, s)
         | Some p3 \<Rightarrow> (0, take (p1 + 1) s @ int_text (calculate_chk_sum (take (p3 - p1 - 1) (drop (p1 + 1) s)))
             @ drop p3 s))))"

text \<open>\<open>getTimeStamp\<close> depends on the time zone and is a parameter; \<open>- 1\<close> when it fails.\<close>

definition time_text :: "string \<Rightarrow> string" where
  "time_text date = (let time = (if length date = 6 then ''20'' @ date else date)
     in take 4 time @ ''-'' @ take 2 (drop 4 time) @ ''-'' @ take 2 (drop 6 time) @ '' 00:00:00'')"

definition get_time_value :: "(string \<Rightarrow> int) \<Rightarrow> string \<Rightarrow> int" where
  "get_time_value stamp date = (if length date < 6 then - 1 else stamp (time_text date) sdiv (3600 * 24))"

subsection \<open>Correctness of parseData\<close>

definition field :: "string \<Rightarrow> bool" where
  "field s \<longleftrightarrow> CHR ''|'' \<notin> set s"

fun join :: "string list \<Rightarrow> string" where
  "join [] = []"
| "join [f] = f"
| "join (f # fs) = f @ CHR ''|'' # join fs"

definition drop_empty_last :: "string list \<Rightarrow> string list" where
  "drop_empty_last fs = (if fs \<noteq> [] \<and> last fs = [] then butlast fs else fs)"

lemma find_char_none: "c \<notin> set s \<Longrightarrow> find_char c s = None"
  by (induction s) auto

lemma find_char_append: "c \<notin> set s \<Longrightarrow> find_char c (s @ c # t) = Some (length s)"
  by (induction s) auto

lemma join_Cons: "fs \<noteq> [] \<Longrightarrow> join (f # fs) = f @ CHR ''|'' # join fs"
  by (cases fs) simp_all

lemma parse_fields_correct:
  assumes "fs \<noteq> []" "\<forall>f \<in> set fs. field f"
  shows "parse_fields (pre @ CHR ''|'' # join fs) (CHR ''|'') (length pre) (length pre + 1) acc = Inr (acc @ drop_empty_last fs)"
  using assms
proof (induction fs arbitrary: pre acc)
  case (Cons f fs)
  let ?d = "pre @ CHR ''|'' # join (f # fs)"
  have at_sep: "length pre < length ?d \<and> ?d ! length pre = CHR ''|''" by simp
  have rest: "drop (length pre + 1) ?d = join (f # fs)" by simp
  have nf: "CHR ''|'' \<notin> set f" using Cons.prems(2) by (simp add: field_def)
  show ?case
  proof (cases "fs = []")
    case True
    then have "find_from (length pre + 1) (CHR ''|'') ?d = None"
      unfolding find_from_def rest using nf by (simp add: find_char_none)
    then have "parse_fields ?d (CHR ''|'') (length pre) (length pre + 1) acc
        = and_then (substr (length pre + 1) (length ?d) ?d) (\<lambda>s. Inr (if s = [] then acc else acc @ [s]))"
      using at_sep by (subst parse_fields.simps) simp
    then show ?thesis using True by (auto simp: substr_def drop_empty_last_def)
  next
    case False
    have j: "join (f # fs) = f @ CHR ''|'' # join fs" by (rule join_Cons[OF False])
    have "find_from (length pre + 1) (CHR ''|'') ?d = Some (length pre + 1 + length f)"
      unfolding find_from_def rest unfolding j using find_char_append[OF nf] by simp
    then have step: "parse_fields ?d (CHR ''|'') (length pre) (length pre + 1) acc
        = parse_fields ?d (CHR ''|'') (length pre + 1 + length f) (length pre + 1 + length f + 1) (acc @ [f])"
      using at_sep by (subst parse_fields.simps) (simp add: substr_def j)
    have d: "?d = (pre @ CHR ''|'' # f) @ CHR ''|'' # join fs" by (simp add: j)
    have "parse_fields ?d (CHR ''|'') (length pre + 1 + length f) (length pre + 1 + length f + 1) (acc @ [f])
        = Inr ((acc @ [f]) @ drop_empty_last fs)"
      using Cons.IH[OF False, of "pre @ CHR ''|'' # f" "acc @ [f]"] Cons.prems(2) unfolding d by simp
    then show ?thesis using step False by (simp add: drop_empty_last_def)
  qed
qed simp

text \<open>
  C28 Parsing what was joined: fields without separator, the first of them not empty and at least two
  of them, come back in order; only an empty last field is dropped.
\<close>

theorem parse_data_roundtrip:
  assumes "f \<noteq> []" "fs \<noteq> []" "\<forall>g \<in> set (f # fs). field g"
  shows "parse_data (join (f # fs)) (CHR ''|'') = Inr (f # drop_empty_last fs)"
proof -
  have nf: "CHR ''|'' \<notin> set f" using assms(3) by (simp add: field_def)
  have "find_from 0 (CHR ''|'') (join (f # fs)) = Some (length f)"
    unfolding find_from_def join_Cons[OF assms(2)] using find_char_append[OF nf] by simp
  then have "parse_data (join (f # fs)) (CHR ''|'') = parse_fields (f @ CHR ''|'' # join fs) (CHR ''|'') (length f) (length f + 1) [f]"
    using assms(1) by (simp add: parse_data_def substr_def join_Cons[OF assms(2)])
  also have "\<dots> = Inr ([f] @ drop_empty_last fs)" by (rule parse_fields_correct) (use assms in auto)
  finally show ?thesis by simp
qed

lemma parse_data_roundtrip_witness:
  "parse_data ''ab||c|'' (CHR ''|'') = Inr [''ab'', '''', ''c'']"
  using parse_data_roundtrip[of "''ab''" "['''', ''c'', '''']"] by (simp add: field_def drop_empty_last_def)

text \<open>A text without separator makes the code follow the null pointer \<open>strchr\<close> has returned.\<close>

theorem parse_data_without_separator: "spc \<notin> set data \<Longrightarrow> parse_data data spc = Inl Null_Deref"
  by (simp add: parse_data_def find_from_def find_char_none)

text \<open>
  A separator in front: the first field keeps the separator that ends it, and the next field loses
  its first character, or the code leaves the string when there is none.
\<close>

theorem parse_data_leading_separator:
  "parse_data ''|ab|cd'' (CHR ''|'') = Inr [''ab|'', ''d'']" "parse_data ''|a|'' (CHR ''|'') = Inl Out_Of_Bounds"
  by code_simp+

text \<open>With another separator only the first field is found.\<close>

theorem parse_data_other_separator: "parse_data ''a,b,c'' (CHR '','') = Inr [''a'']"
  by code_simp

subsection \<open>The check sum\<close>

lemma smod_bound: "\<bar>n smod 100000\<bar> < (100000::int)"
  using smod_int_range[of 100000 n] by auto

lemma char_val_bound: "- 128 \<le> char_val c \<and> char_val c \<le> 127"
proof -
  have "(of_char c :: nat) < 256" by (metis nat_of_char_less_256)
  then have "(of_char c :: int) < 256 \<and> 0 \<le> (of_char c :: int)" by (metis of_nat_of_char of_nat_0_le_iff of_nat_less_iff of_nat_numeral)
  then show ?thesis by (auto simp: char_val_def Let_def)
qed

lemma chk_loop_bound: "\<bar>acc\<bar> < 100000 \<Longrightarrow> \<bar>chk_loop n i s acc\<bar> < 100000"
  by (induction n arbitrary: i acc) (simp_all add: smod_bound)

lemma chk_loop_rev:
  "i + n \<le> length s div 2 \<Longrightarrow> chk_loop n i (rev s) acc = chk_loop n i s acc"
proof (induction n arbitrary: i acc)
  case (Suc n)
  have "rev s ! i = s ! (length s - i - 1)" "rev s ! (length s - i - 1) = s ! i"
    using Suc.prems by (simp_all add: rev_nth)
  then show ?case using Suc.IH[of "i + 1"] Suc.prems by (simp add: mult.commute)
qed simp

lemma char_product_bound: "\<bar>char_val c * char_val d\<bar> \<le> 16384"
proof -
  have "\<bar>char_val c\<bar> \<le> 128" "\<bar>char_val d\<bar> \<le> 128" using char_val_bound[of c] char_val_bound[of d] by auto
  then have "\<bar>char_val c\<bar> * \<bar>char_val d\<bar> \<le> 128 * 128" by (intro mult_mono) auto
  then show ?thesis by (simp add: abs_mult)
qed

text \<open>The partial sums of the loop, before the remainder is taken.\<close>

fun chk_sums :: "nat \<Rightarrow> nat \<Rightarrow> string \<Rightarrow> int \<Rightarrow> int list" where
  "chk_sums 0 i s acc = []"
| "chk_sums (Suc n) i s acc = (let t = acc + char_val (s ! i) * char_val (s ! (length s - i - 1))
     in t # chk_sums n (i + 1) s (t smod 100000))"

lemma chk_sums_bound: "\<bar>acc\<bar> < 100000 \<Longrightarrow> t \<in> set (chk_sums n i s acc) \<Longrightarrow> \<bar>t\<bar> < 2 ^ 31"
proof (induction n arbitrary: i acc)
  case (Suc n)
  have "\<bar>acc + char_val (s ! i) * char_val (s ! (length s - i - 1))\<bar> < 2 ^ 31"
    using char_product_bound[of "s ! i" "s ! (length s - i - 1)"] Suc.prems(1) by (simp add: abs_if split: if_splits)
  then show ?case using Suc smod_bound by (auto simp: Let_def)
qed simp

text \<open>
  The check sum of a name never overflows an \<open>int\<close> on the way, has at most five digits, and does
  not tell a name from its mirror image.
\<close>

theorem chk_sum_bounds:
  "\<bar>calculate_chk_sum s\<bar> < 100000 \<and> calculate_chk_sum (rev s) = calculate_chk_sum s \<and>
   list_all (\<lambda>t. \<bar>t\<bar> < 2 ^ 31) (chk_sums (length s div 2) 0 s 0)"
  using chk_loop_bound[of 0] chk_loop_rev[of 0 "length s div 2" s 0] chk_sums_bound[of 0]
  by (auto simp: calculate_chk_sum_def list_all_iff)

text \<open>A time stamp that cannot be computed comes out as day 0.\<close>

lemma get_time_value_failure: "6 \<le> length date \<Longrightarrow> stamp (time_text date) = - 1 \<Longrightarrow> get_time_value stamp date = 0"
  by (simp add: get_time_value_def signed_divide_int_def)

end
