(* ===== verification/Atom_Table.thy ===== *)
theory Atom_Table
  imports Tool_Text
begin

unbundle bit_operations_syntax

text \<open>
  The table of interned strings: \<open>atomString/atom.h\<close> and \<open>atom.cpp\<close>. The atoms are blocks at addresses,
  chained by their \<open>next\<close> pointers; the characters of an atom that was copied follow it in its block.
  A string is a pointer, into the block of an atom or to a buffer of the caller, and pointers are compared
  as the code compares them. A loop along a chain may run for ever: it then has the value \<open>None\<close>.
\<close>

subsection \<open>Blocks and pointers\<close>

datatype strptr = Inside nat | User nat

record atom =
  a_next :: "nat option"
  hashValue :: u64
  len :: int
  str :: strptr
  a_text :: string

record atom_table =
  blocks :: "nat \<Rightarrow> atom option"
  next_addr :: nat
  user :: "nat \<Rightarrow> string option"
  buskets :: "nat option list option"

definition NUL :: char where "NUL = CHR 0x00"

text \<open>\<open>buskets\<close> and \<open>func\<close> are set together; before that both are null.\<close>

definition no_atoms :: "(nat \<Rightarrow> string option) \<Rightarrow> atom_table" where
  "no_atoms u = \<lparr>blocks = \<lambda>a. None, next_addr = 0, user = u, buskets = None\<rparr>"

definition block_at :: "nat \<Rightarrow> atom_table \<Rightarrow> atom run" where
  "block_at a tb = (case blocks tb a of None \<Rightarrow> Inl Dangling | Some t \<Rightarrow> Inr t)"

definition buffer_at :: "strptr \<Rightarrow> atom_table \<Rightarrow> string run" where
  "buffer_at p tb = (case p of
       Inside a \<Rightarrow> run_map a_text (block_at a tb)
     | User n \<Rightarrow> (case user tb n of None \<Rightarrow> Inl Dangling | Some s \<Rightarrow> Inr s))"

text \<open>The first \<open>n\<close> characters behind a pointer, and the characters up to the terminating zero.\<close>

definition chars_at :: "strptr \<Rightarrow> nat \<Rightarrow> atom_table \<Rightarrow> string run" where
  "chars_at p n tb = and_then (buffer_at p tb) (\<lambda>s. if length s < n then Inl Out_Of_Bounds else Inr (take n s))"

definition c_string :: "strptr \<Rightarrow> atom_table \<Rightarrow> string run" where
  "c_string p tb = and_then (buffer_at p tb) (\<lambda>s. if NUL \<in> set s then Inr (takeWhile (\<lambda>c. c \<noteq> NUL) s) else Inl Out_Of_Bounds)"

subsection \<open>Hashing\<close>

text \<open>Characters are signed: they are extended with their sign.\<close>

definition getHash :: "string \<Rightarrow> u64" where
  "getHash s = foldl (\<lambda>h c. word_of_int (char_val c) + push_bit 6 h + push_bit 16 h - h) 0 s AND 0x7FFFFFFF"

definition getHash2 :: "string \<Rightarrow> u64" where
  "getHash2 s = foldl (\<lambda>h c. h + word_of_int (char_val c * 1713 + 2013)) 0 s AND 0x7F1FFFA7 AND 0x7FFFFFFF"

definition busket :: "string \<Rightarrow> nat option list \<Rightarrow> nat" where
  "busket s bs = unat (getHash s) mod length bs"

definition atomInit :: "int \<Rightarrow> atom_table \<Rightarrow> atom_table run" where
  "atomInit hint tb = (if \<not> (0 < hint \<and> hint \<le> 10000) then Inl Assert_Failed
     else let n = (if hint < 128 then 1024 else hint) in Inr (tb\<lparr>buskets := Some (replicate (nat n) None)\<rparr>))"

subsection \<open>Looking for a text\<close>

text \<open>The loop that compares the given characters with those behind the pointer of an atom.\<close>

fun same_chars :: "string \<Rightarrow> string \<Rightarrow> bool run" where
  "same_chars [] t = Inr True"
| "same_chars (c # s) [] = Inl Out_Of_Bounds"
| "same_chars (c # s) (d # t) = (if c \<noteq> d then Inr False else same_chars s t)"

text \<open>The comparison in the loops of \<open>atomNew\<close> and \<open>atomAdd\<close>; the first compares the stored hash as well.\<close>

definition same_text :: "u64 option \<Rightarrow> string \<Rightarrow> atom \<Rightarrow> atom_table \<Rightarrow> bool run" where
  "same_text h s t tb = (if len t \<noteq> int (length s) then Inr False
     else if h \<noteq> None \<and> h \<noteq> Some (hashValue t) then Inr False
     else and_then (buffer_at (str t) tb) (same_chars s))"

partial_function (option) find_text :: "(atom \<Rightarrow> atom_table \<Rightarrow> bool run) \<Rightarrow> atom_table \<Rightarrow> nat option \<Rightarrow> nat option run option" where
  "find_text same tb p = (case p of
       None \<Rightarrow> Some (Inr None)
     | Some a \<Rightarrow> (case block_at a tb of
         Inl f \<Rightarrow> Some (Inl f)
       | Inr t \<Rightarrow> (case same t tb of
           Inl f \<Rightarrow> Some (Inl f)
         | Inr eq \<Rightarrow> if eq then Some (Inr (Some a)) else find_text same tb (a_next t))))"

definition add_block :: "nat \<Rightarrow> atom \<Rightarrow> atom_table \<Rightarrow> atom_table" where
  "add_block i t tb = (let a = next_addr tb in case buskets tb of
       None \<Rightarrow> tb
     | Some bs \<Rightarrow> tb\<lparr>blocks := (blocks tb)(a := Some (t\<lparr>a_next := bs ! i\<rparr>)), next_addr := a + 1, buskets := Some (bs[i := Some a])\<rparr>)"

text \<open>\<open>atomNew\<close> of the characters themselves.\<close>

definition intern :: "string \<Rightarrow> atom_table \<Rightarrow> (strptr \<times> atom_table) run option" where
  "intern s tb = (case buskets tb of
       None \<Rightarrow> Some (Inl Assert_Failed)
     | Some bs \<Rightarrow> let h = getHash s; i = busket s bs in
         map_option (\<lambda>r. and_then r (\<lambda>found. case found of
             Some a \<Rightarrow> run_map (\<lambda>t. (str t, tb)) (block_at a tb)
           | None \<Rightarrow> let a = next_addr tb in
               Inr (Inside a, add_block i \<lparr>a_next = None, hashValue = h, len = int (length s), str = Inside a, a_text = s @ [NUL]\<rparr> tb)))
           (find_text (same_text (Some h) s) tb (bs ! i)))"

definition on_run :: "'a run \<Rightarrow> ('a \<Rightarrow> 'b run option) \<Rightarrow> 'b run option" where
  "on_run r f = (case r of Inl e \<Rightarrow> Some (Inl e) | Inr x \<Rightarrow> f x)"

definition atomNew :: "strptr option \<Rightarrow> int \<Rightarrow> atom_table \<Rightarrow> (strptr \<times> atom_table) run option" where
  "atomNew p n tb = (case p of
       None \<Rightarrow> Some (Inl Assert_Failed)
     | Some q \<Rightarrow> if buskets tb = None \<or> n < 0 then Some (Inl Assert_Failed)
         else on_run (chars_at q (nat n) tb) (\<lambda>s. intern s tb))"

definition atomString :: "strptr \<Rightarrow> atom_table \<Rightarrow> (strptr \<times> atom_table) run option" where
  "atomString p tb = on_run (c_string p tb) (\<lambda>s. atomNew (Some p) (int (length s)) tb)"

text \<open>The digits of a number, written from the right. The negation of the smallest \<open>long\<close> overflows.\<close>

fun digits_loop :: "nat \<Rightarrow> string \<Rightarrow> string" where
  "digits_loop n acc = (if n = 0 then acc else digits_loop (n div 10) (char_of (n mod 10 + 48) # acc))"

declare digits_loop.simps [simp del]

definition number_text :: "int \<Rightarrow> string" where
  "number_text n = (let v = (if 2147483647 < n then 0 else n) in
     if v = 0 then ''0'' else let ds = digits_loop (nat \<bar>v\<bar>) [] in if v < 0 then CHR ''-'' # ds else ds)"

definition atomInt :: "int \<Rightarrow> atom_table \<Rightarrow> (strptr \<times> atom_table) run option" where
  "atomInt n tb = (if n = - (2 ^ 63) then Some (Inl Signed_Overflow) else intern (number_text n) tb)"

subsection \<open>Looking for a pointer\<close>

text \<open>The loop ends at the last atom of the chain when the pointer is not there; the second result is \<open>prev\<close>.\<close>

partial_function (option) find_ptr :: "atom_table \<Rightarrow> strptr \<Rightarrow> nat \<Rightarrow> (nat \<times> nat option) run option" where
  "find_ptr tb p a = (case block_at a tb of
       Inl f \<Rightarrow> Some (Inl f)
     | Inr t \<Rightarrow> (case a_next t of
         None \<Rightarrow> Some (Inr (a, None))
       | Some b \<Rightarrow> (case block_at b tb of
           Inl f \<Rightarrow> Some (Inl f)
         | Inr u \<Rightarrow> if str u = p then Some (Inr (b, Some a)) else find_ptr tb p b)))"

definition atomFind :: "strptr \<Rightarrow> atom_table \<Rightarrow> (nat \<times> nat option) run option" where
  "atomFind p tb = (case buskets tb of
       None \<Rightarrow> Some (Inl Assert_Failed)
     | Some bs \<Rightarrow> on_run (c_string p tb) (\<lambda>s. case bs ! busket s bs of
           None \<Rightarrow> Some (Inl Null_Deref)
         | Some a \<Rightarrow> on_run (block_at a tb) (\<lambda>t. if str t = p then Some (Inr (a, None)) else find_ptr tb p a)))"

definition atomLength :: "strptr \<Rightarrow> atom_table \<Rightarrow> int run option" where
  "atomLength p tb = map_option (\<lambda>r. and_then r (\<lambda>(a, prev). run_map len (block_at a tb))) (atomFind p tb)"

subsection \<open>Freeing\<close>

definition free_block :: "nat \<Rightarrow> atom_table \<Rightarrow> atom_table" where
  "free_block a tb = tb\<lparr>blocks := (blocks tb)(a := None)\<rparr>"

definition set_next :: "nat \<Rightarrow> nat option \<Rightarrow> atom_table \<Rightarrow> atom_table run" where
  "set_next a q tb = run_map (\<lambda>t. tb\<lparr>blocks := (blocks tb)(a := Some (t\<lparr>a_next := q\<rparr>))\<rparr>) (block_at a tb)"

text \<open>The second search of \<open>atomFree\<close>, along the chain for the atom itself.\<close>

partial_function (option) unlink_loop :: "atom_table \<Rightarrow> nat \<Rightarrow> nat \<Rightarrow> atom_table run option" where
  "unlink_loop tb a p = (case block_at p tb of
       Inl f \<Rightarrow> Some (Inl f)
     | Inr t \<Rightarrow> (case a_next t of
         None \<Rightarrow> Some (Inr tb)
       | Some b \<Rightarrow> if b = a then Some (and_then (block_at a tb) (\<lambda>u. and_then (set_next p (a_next u) tb) (set_next a None)))
           else unlink_loop tb a b))"

definition atomFree :: "strptr \<Rightarrow> atom_table \<Rightarrow> (int \<times> atom_table) run option" where
  "atomFree p tb = (case atomFind p tb of
       None \<Rightarrow> None
     | Some r \<Rightarrow> on_run r (\<lambda>(a, prev). on_run (block_at a tb) (\<lambda>t. case prev of
         Some q \<Rightarrow> Some (run_map (\<lambda>tb'. (0, free_block a tb')) (set_next q (a_next t) tb))
       | None \<Rightarrow> (case buskets tb of
           None \<Rightarrow> Some (Inl Assert_Failed)
         | Some bs \<Rightarrow> on_run (chars_at (str t) (nat (len t)) tb) (\<lambda>s. let i = busket s bs in
             if bs ! i = Some a then Some (Inr (0, free_block a (tb\<lparr>buskets := Some (bs[i := a_next t])\<rparr>)))
             else (case bs ! i of
               None \<Rightarrow> Some (Inl Null_Deref)
             | Some b \<Rightarrow> map_option (run_map (\<lambda>tb'. (0, free_block a tb'))) (unlink_loop tb a b)))))))"

partial_function (option) free_chain :: "nat option \<Rightarrow> atom_table \<Rightarrow> atom_table run option" where
  "free_chain p tb = (case p of
       None \<Rightarrow> Some (Inr tb)
     | Some a \<Rightarrow> (case block_at a tb of
         Inl f \<Rightarrow> Some (Inl f)
       | Inr t \<Rightarrow> free_chain (a_next t) (free_block a tb)))"

fun free_buskets :: "nat \<Rightarrow> nat option list \<Rightarrow> atom_table \<Rightarrow> atom_table run option" where
  "free_buskets i [] tb = Some (Inr tb)"
| "free_buskets i (p # ps) tb = (case free_chain p tb of
       None \<Rightarrow> None
     | Some r \<Rightarrow> on_run r (\<lambda>tb1. free_buskets (i + 1) ps
         (tb1\<lparr>buskets := map_option (\<lambda>bs. bs[i := None]) (buskets tb1)\<rparr>)))"

definition atomReset :: "atom_table \<Rightarrow> atom_table run option" where
  "atomReset tb = (case buskets tb of None \<Rightarrow> Some (Inl Assert_Failed) | Some bs \<Rightarrow> free_buskets 0 bs tb)"

subsection \<open>Loading and adding\<close>

text \<open>The array of \<open>atomAload\<close> and the arguments of \<open>atomVload\<close> up to the first null pointer.\<close>

fun atomAload :: "strptr list \<Rightarrow> atom_table \<Rightarrow> atom_table run option" where
  "atomAload [] tb = Some (Inr tb)"
| "atomAload (p # ps) tb = (case atomString p tb of
       None \<Rightarrow> None
     | Some r \<Rightarrow> on_run r (\<lambda>(q, tb1). atomAload ps tb1))"

definition atomVload :: "strptr list \<Rightarrow> atom_table \<Rightarrow> atom_table run option" where
  "atomVload ps tb = atomAload ps tb"

text \<open>\<open>atomAdd\<close> keeps the pointer of the caller and does not store the hash.\<close>

definition atomAdd :: "strptr option \<Rightarrow> int \<Rightarrow> atom_table \<Rightarrow> (strptr \<times> atom_table) run option" where
  "atomAdd p n tb = (case p of
       None \<Rightarrow> Some (Inl Assert_Failed)
     | Some q \<Rightarrow> (case buskets tb of
         None \<Rightarrow> Some (Inl Assert_Failed)
       | Some bs \<Rightarrow> if n < 0 then Some (Inl Assert_Failed)
           else on_run (chars_at q (nat n) tb) (\<lambda>s. let i = busket s bs in
             map_option (\<lambda>r. and_then r (\<lambda>found. case found of
                 Some a \<Rightarrow> run_map (\<lambda>t. (str t, tb)) (block_at a tb)
               | None \<Rightarrow> Inr (q, add_block i \<lparr>a_next = None, hashValue = 0, len = n, str = q, a_text = []\<rparr> tb)))
               (find_text (same_text None s) tb (bs ! i)))))"

end
