(* ===== verification/Atom_Correct.thy ===== *)
theory Atom_Correct
  imports Atom_Table
begin

text \<open>
  The table of interned strings against its specification. A chain of the heap is a list of pairs of an
  address and a text; a table in order is the list of its chains, with every text in the chain of its
  hash and no text twice. The reachable tables are those of any history of operations but \<open>atomAdd\<close>;
  they are in order, so interning, the length of an atom, freeing and resetting return and do what
  they promise for texts without a zero inside.
\<close>

subsection \<open>Chains\<close>

definition atom_of :: "nat \<Rightarrow> string \<Rightarrow> nat option \<Rightarrow> atom" where
  "atom_of a s q = \<lparr>a_next = q, hashValue = getHash s, len = int (length s), str = Inside a, a_text = s @ [NUL]\<rparr>"

lemma atom_of_simps [simp]:
  "a_next (atom_of a s q) = q" "hashValue (atom_of a s q) = getHash s" "len (atom_of a s q) = int (length s)"
  "str (atom_of a s q) = Inside a" "a_text (atom_of a s q) = s @ [NUL]"
  "(atom_of a s q)\<lparr>a_next := q'\<rparr> = atom_of a s q'"
  by (simp_all add: atom_of_def)

lemma atom_of_eq [simp]: "atom_of a s q = atom_of b s' q' \<longleftrightarrow> a = b \<and> s = s' \<and> q = q'"
  by (auto simp: atom_of_def)

text \<open>The part of a chain from a pointer to the pointer behind its last atom.\<close>

fun seg :: "(nat \<Rightarrow> atom option) \<Rightarrow> nat option \<Rightarrow> (nat \<times> string) list \<Rightarrow> nat option \<Rightarrow> bool" where
  "seg h p [] q = (p = q)"
| "seg h p ((a, s) # as) q = (p = Some a \<and> (\<exists>r. h a = Some (atom_of a s r) \<and> seg h r as q))"

lemma seg_append: "seg h p (xs @ ys) q \<longleftrightarrow> (\<exists>r. seg h p xs r \<and> seg h r ys q)"
  by (induction xs arbitrary: p) fastforce+

lemma seg_frame: "a \<notin> fst ` set xs \<Longrightarrow> seg (h(a := x)) p xs q = seg h p xs q"
  by (induction xs arbitrary: p) auto

lemma seg_member: "seg h p xs q \<Longrightarrow> (a, s) \<in> set xs \<Longrightarrow> \<exists>r. h a = Some (atom_of a s r)"
  by (induction xs arbitrary: p) auto

lemma seg_addresses:
  assumes "seg h p xs q" and "distinct (map snd xs)"
  shows "distinct (map fst xs)"
  using assms
proof (induction xs arbitrary: p)
  case (Cons x xs)
  obtain a s where x: "x = (a, s)" by (cases x)
  from Cons.prems x obtain r where r: "h a = Some (atom_of a s r)" "seg h r xs q" by auto
  have "a \<notin> fst ` set xs"
  proof
    assume "a \<in> fst ` set xs"
    then obtain s' where "(a, s') \<in> set xs" by auto
    with seg_member[OF r(2)] r(1) have "(a, s) \<in> set xs" by fastforce
    with Cons.prems(2) x show False by force
  qed
  with Cons.IH[OF r(2)] Cons.prems x show ?case by simp
qed simp

subsection \<open>Looking for a text in a chain\<close>

lemma block_at_Some [simp]: "blocks tb a = Some t \<Longrightarrow> block_at a tb = Inr t"
  by (simp add: block_at_def)

lemma same_chars_text: "length s = length s' \<Longrightarrow> same_chars s (s' @ [c]) = Inr (s = s')"
  by (induction s s' rule: list_induct2) auto

lemma same_text_atom:
  assumes "blocks tb a = Some (atom_of a s' q)" and "h = None \<or> h = Some (getHash s)"
  shows "same_text h s (atom_of a s' q) tb = Inr (s = s')"
  using assms by (auto simp: same_text_def buffer_at_def same_chars_text)

lemma find_text_chain:
  assumes "seg (blocks tb) p xs None" and "h = None \<or> h = Some (getHash s)"
  shows "find_text (same_text h s) tb p = Some (Inr (map_option fst (find (\<lambda>(a, s'). s' = s) xs)))"
  using assms(1)
proof (induction xs arbitrary: p)
  case Nil then show ?case by (simp add: find_text.simps[of _ _ None])
next
  case (Cons x xs)
  obtain a s' where x: "x = (a, s')" by (cases x)
  with Cons.prems obtain r where r: "p = Some a" "blocks tb a = Some (atom_of a s' r)" "seg (blocks tb) r xs None"
    by auto
  with Cons.IH[OF r(3)] x assms(2) show ?case
    by (simp add: find_text.simps[of _ _ "Some a"] same_text_atom)
qed

lemma find_text_pairs:
  "distinct (map snd xs) \<Longrightarrow> (a, s) \<in> set xs \<Longrightarrow> find (\<lambda>(b, s'). s' = s) xs = Some (a, s)"
  by (induction xs) force+

lemma find_text_none: "s \<notin> snd ` set xs \<Longrightarrow> find (\<lambda>(b, s'). s' = s) xs = None"
  by (induction xs) auto

subsection \<open>Tables in order\<close>

definition table_ok :: "nat option list \<Rightarrow> atom_table \<Rightarrow> (nat \<times> string) list list \<Rightarrow> bool" where
  "table_ok bs tb cs \<longleftrightarrow> buskets tb = Some bs \<and> bs \<noteq> [] \<and> length cs = length bs
     \<and> (\<forall>i < length bs. seg (blocks tb) (bs ! i) (cs ! i) None \<and> distinct (map snd (cs ! i))
          \<and> (\<forall>(a, s) \<in> set (cs ! i). busket s bs = i \<and> a < next_addr tb))
     \<and> dom (blocks tb) = (\<Union>i < length bs. fst ` set (cs ! i))"

text \<open>The atoms of a table, whatever its order: the addresses and their texts.\<close>

definition atoms_of :: "atom_table \<Rightarrow> (nat \<times> string) set" where
  "atoms_of tb = {(a, s). \<exists>t. blocks tb a = Some t \<and> a_text t = s @ [NUL]}"

lemma busket_less [simp]: "bs \<noteq> [] \<Longrightarrow> busket s bs < length bs"
  by (simp add: busket_def)

lemma busket_update [simp]: "busket s (bs[i := x]) = busket s bs"
  by (simp add: busket_def)

lemma ok_fields:
  assumes "table_ok bs tb cs"
  shows "buskets tb = Some bs" "bs \<noteq> []" "length cs = length bs"
  using assms by (simp_all add: table_ok_def)

lemma ok_seg: "table_ok bs tb cs \<Longrightarrow> i < length bs \<Longrightarrow> seg (blocks tb) (bs ! i) (cs ! i) None"
  by (simp add: table_ok_def)

lemma ok_texts: "table_ok bs tb cs \<Longrightarrow> i < length bs \<Longrightarrow> distinct (map snd (cs ! i))"
  by (simp add: table_ok_def)

lemma ok_addresses: "table_ok bs tb cs \<Longrightarrow> i < length bs \<Longrightarrow> distinct (map fst (cs ! i))"
  using seg_addresses ok_seg ok_texts by metis

lemma ok_member:
  "table_ok bs tb cs \<Longrightarrow> i < length bs \<Longrightarrow> (a, s) \<in> set (cs ! i) \<Longrightarrow> busket s bs = i \<and> a < next_addr tb"
  by (auto simp: table_ok_def)

lemma ok_dom: "table_ok bs tb cs \<Longrightarrow> dom (blocks tb) = (\<Union>i < length bs. fst ` set (cs ! i))"
  by (simp add: table_ok_def)

lemma ok_bucket: "table_ok bs tb cs \<Longrightarrow> busket s bs < length bs"
  by (simp add: ok_fields)

lemma ok_mem_block: "table_ok bs tb cs \<Longrightarrow> i < length bs \<Longrightarrow> (a, s) \<in> set (cs ! i) \<Longrightarrow> \<exists>r. blocks tb a = Some (atom_of a s r)"
  using ok_seg seg_member by metis

lemma ok_atoms:
  assumes ok: "table_ok bs tb cs"
  shows "atoms_of tb = (\<Union>i < length bs. set (cs ! i))"
proof -
  have "(a, s) \<in> atoms_of tb \<longleftrightarrow> (\<exists>i < length bs. (a, s) \<in> set (cs ! i))" for a s
  proof
    assume l: "(a, s) \<in> atoms_of tb"
    then have "a \<in> dom (blocks tb)" by (auto simp: atoms_of_def)
    with ok_dom[OF ok] obtain i s' where i: "i < length bs" "(a, s') \<in> set (cs ! i)" by auto
    with ok_mem_block[OF ok i] l show "\<exists>i < length bs. (a, s) \<in> set (cs ! i)" by (auto simp: atoms_of_def)
  next
    assume "\<exists>i < length bs. (a, s) \<in> set (cs ! i)"
    with ok_mem_block[OF ok] show "(a, s) \<in> atoms_of tb" by (fastforce simp: atoms_of_def)
  qed
  then show ?thesis by auto
qed

lemma ok_place: "table_ok bs tb cs \<Longrightarrow> (a, s) \<in> atoms_of tb \<longleftrightarrow> (a, s) \<in> set (cs ! busket s bs)"
  using ok_atoms ok_member ok_bucket by fastforce

lemma ok_block:
  assumes "table_ok bs tb cs" and "(a, s) \<in> atoms_of tb"
  shows "\<exists>r. blocks tb a = Some (atom_of a s r)"
  using assms ok_place ok_bucket ok_seg seg_member by metis

lemma ok_unique:
  assumes ok: "table_ok bs tb cs" and a: "(a, s) \<in> atoms_of tb" and b: "(b, s') \<in> atoms_of tb"
  shows "a = b \<longleftrightarrow> s = s'"
proof
  assume "s = s'"
  with a b have "(a, s) \<in> set (cs ! busket s bs)" "(b, s) \<in> set (cs ! busket s bs)"
    using ok_place[OF ok] by auto
  then show "a = b"
    using ok_texts[OF ok ok_bucket[OF ok]] by (metis distinct_map inj_onD prod.inject snd_conv)
next
  assume "a = b"
  with ok_block[OF ok a] ok_block[OF ok b] show "s = s'" by auto
qed

text \<open>An address belongs to one chain only, so an update there leaves the others alone.\<close>

lemma ok_other_chain:
  assumes ok: "table_ok bs tb cs" and a: "(a, s) \<in> set (cs ! i)" "i < length bs"
    and j: "j < length bs" "j \<noteq> i"
  shows "a \<notin> fst ` set (cs ! j)"
proof
  assume "a \<in> fst ` set (cs ! j)"
  then obtain s' where s': "(a, s') \<in> set (cs ! j)" by auto
  have b: "busket s bs = i" "busket s' bs = j"
    using ok_member[OF ok] assms s' by auto
  with a s' have "(a, s) \<in> atoms_of tb" "(a, s') \<in> atoms_of tb"
    using ok_place[OF ok] by auto
  with ok_unique[OF ok] b j show False by auto
qed

lemma UN_update:
  assumes i: "i < length xs" and sep: "\<And>j. j < length xs \<Longrightarrow> j \<noteq> i \<Longrightarrow> g (xs ! j) \<inter> g (xs ! i) = {}"
  shows "(\<Union>j < length xs. g (xs[i := y] ! j)) = (\<Union>j < length xs. g (xs ! j)) - g (xs ! i) \<union> g y"
proof -
  let ?J = "{..<length xs} - {i}"
  have split: "(\<Union>j < length xs. f j) = f i \<union> (\<Union>j \<in> ?J. f j)" for f :: "nat \<Rightarrow> 'b set"
    using i by (metis UN_insert insert_Diff lessThan_iff)
  have "(\<Union>j \<in> ?J. g (xs[i := y] ! j)) = (\<Union>j \<in> ?J. g (xs ! j))"
    by (intro SUP_cong) auto
  moreover have "(\<Union>j \<in> ?J. g (xs ! j)) \<inter> g (xs ! i) = {}" using sep by blast
  ultimately show ?thesis using i unfolding split by auto
qed

text \<open>An operation on one chain keeps the table in order.\<close>

lemma seg_cong: "\<forall>a \<in> fst ` set xs. h' a = h a \<Longrightarrow> seg h' p xs q = seg h p xs q"
  by (induction xs arbitrary: p) auto

lemma ok_change:
  assumes ok: "table_ok bs tb cs" and i: "i < length bs"
    and b: "buskets tb' = Some (bs[i := p])"
    and frame: "\<forall>j < length bs. j \<noteq> i \<longrightarrow> (\<forall>a \<in> fst ` set (cs ! j). blocks tb' a = blocks tb a)"
    and new: "seg (blocks tb') p as None" "distinct (map snd as)"
      "\<forall>(a, s) \<in> set as. busket s bs = i \<and> a < next_addr tb'"
    and next_addr: "next_addr tb \<le> next_addr tb'"
    and dom: "dom (blocks tb') = dom (blocks tb) - fst ` set (cs ! i) \<union> fst ` set as"
  shows "table_ok (bs[i := p]) tb' (cs[i := as])"
    and "atoms_of tb' = atoms_of tb - set (cs ! i) \<union> set as"
proof -
  have len: "length cs = length bs" by (rule ok_fields(3)[OF ok])
  then have i': "i < length cs" using i by simp
  have sep: "fst ` set (cs ! j) \<inter> fst ` set (cs ! i) = {}" if "j < length cs" "j \<noteq> i" for j
  proof -
    have "a \<notin> fst ` set (cs ! j)" if "a \<in> fst ` set (cs ! i)" for a
      using ok_other_chain[OF ok _ i, of a _ j] that \<open>j < length cs\<close> \<open>j \<noteq> i\<close> len
      by (metis imageE prod.collapse)
    then show ?thesis by blast
  qed
  have sep2: "set (cs ! j) \<inter> set (cs ! i) = {}" if "j < length cs" "j \<noteq> i" for j
    using sep[OF that] by blast
  have "seg (blocks tb') (bs[i := p] ! j) (cs[i := as] ! j) None \<and> distinct (map snd (cs[i := as] ! j))
      \<and> (\<forall>(a, s) \<in> set (cs[i := as] ! j). busket s bs = j \<and> a < next_addr tb')" if j: "j < length bs" for j
  proof (cases "j = i")
    case True then show ?thesis using new i len by auto
  next
    case False
    with j frame have "seg (blocks tb') (bs ! j) (cs ! j) None"
      using ok_seg[OF ok j] seg_cong by metis
    with False j show ?thesis using ok_texts[OF ok j] ok_member[OF ok j] next_addr by fastforce
  qed
  moreover have "(\<Union>j < length bs. fst ` set (cs[i := as] ! j)) = dom (blocks tb')"
    unfolding dom ok_dom[OF ok] using UN_update[OF i', of "\<lambda>as. fst ` set as", OF sep] len by simp
  ultimately show ok': "table_ok (bs[i := p]) tb' (cs[i := as])"
    using b len ok_fields(2)[OF ok] by (simp add: table_ok_def)
  have "(\<Union>j < length bs. set (cs[i := as] ! j)) = (\<Union>j < length bs. set (cs ! j)) - set (cs ! i) \<union> set as"
    using UN_update[OF i', of set, OF sep2] len by simp
  then show "atoms_of tb' = atoms_of tb - set (cs ! i) \<union> set as"
    using ok_atoms[OF ok] ok_atoms[OF ok'] by simp
qed

subsection \<open>Interning\<close>

text \<open>The result of \<open>intern\<close> on a table in order, given by its chains.\<close>

lemma intern_old:
  assumes ok: "table_ok bs tb cs" and a: "(a, s) \<in> atoms_of tb"
  shows "intern s tb = Some (Inr (Inside a, tb))"
proof -
  let ?i = "busket s bs"
  have i: "?i < length bs" by (rule ok_bucket[OF ok])
  from a have "(a, s) \<in> set (cs ! ?i)" by (simp add: ok_place[OF ok])
  with ok_texts[OF ok i] find_text_chain[OF ok_seg[OF ok i], of "Some (getHash s)" s]
  have "find_text (same_text (Some (getHash s)) s) tb (bs ! ?i) = Some (Inr (Some a))"
    by (simp add: find_text_pairs)
  moreover obtain r where "blocks tb a = Some (atom_of a s r)" using ok_block[OF ok a] by blast
  ultimately show ?thesis by (simp add: intern_def ok_fields[OF ok] Let_def)
qed

lemma ok_fresh: "table_ok bs tb cs \<Longrightarrow> i < length bs \<Longrightarrow> next_addr tb \<notin> fst ` set (cs ! i)"
  using ok_member by fastforce

lemma intern_new:
  assumes ok: "table_ok bs tb cs" and new: "s \<notin> snd ` atoms_of tb"
  shows "\<exists>tb'. intern s tb = Some (Inr (Inside (next_addr tb), tb'))
    \<and> (\<exists>bs' cs'. table_ok bs' tb' cs' \<and> length bs' = length bs)
    \<and> atoms_of tb' = insert (next_addr tb, s) (atoms_of tb) \<and> user tb' = user tb"
proof -
  let ?i = "busket s bs" and ?a = "next_addr tb"
  let ?tb = "add_block ?i (atom_of ?a s None) tb" and ?as = "(?a, s) # cs ! ?i"
  have i: "?i < length bs" by (rule ok_bucket[OF ok])
  have none: "s \<notin> snd ` set (cs ! ?i)" using new ok_atoms[OF ok] i by force
  with find_text_chain[OF ok_seg[OF ok i], of "Some (getHash s)" s]
  have "find_text (same_text (Some (getHash s)) s) tb (bs ! ?i) = Some (Inr None)"
    by (simp add: find_text_none)
  then have res: "intern s tb = Some (Inr (Inside ?a, ?tb))"
    by (simp add: intern_def ok_fields[OF ok] Let_def atom_of_def)
  have blk: "blocks ?tb = (blocks tb)(?a := Some (atom_of ?a s (bs ! ?i)))"
    "buskets ?tb = Some (bs[?i := Some ?a])" "next_addr ?tb = ?a + 1" "user ?tb = user tb"
    by (simp_all add: add_block_def ok_fields[OF ok] Let_def)
  have seg: "seg (blocks ?tb) (Some ?a) ?as None"
    using ok_fresh[OF ok i] ok_seg[OF ok i] by (simp add: blk seg_frame)
  have texts: "distinct (map snd ?as)" using none ok_texts[OF ok i] by simp
  have mem: "busket s' bs = ?i \<and> a < next_addr ?tb" if "(a, s') \<in> set ?as" for a s'
    using that ok_member[OF ok i] by (fastforce simp: blk)
  have frame: "blocks ?tb a = blocks tb a" if "j < length bs" "j \<noteq> ?i" "a \<in> fst ` set (cs ! j)" for j a
  proof -
    have "a \<noteq> ?a" using that ok_fresh[OF ok that(1)] by metis
    then show ?thesis by (simp add: blk)
  qed
  have old: "fst ` set (cs ! ?i) \<subseteq> dom (blocks tb)" using ok_dom[OF ok] i by blast
  have dom: "dom (blocks ?tb) = dom (blocks tb) - fst ` set (cs ! ?i) \<union> fst ` set ?as"
    using old by (auto simp: blk)
  have le: "next_addr tb \<le> next_addr ?tb" by (simp add: blk)
  have frames: "\<forall>j < length bs. j \<noteq> ?i \<longrightarrow> (\<forall>a \<in> fst ` set (cs ! j). blocks ?tb a = blocks tb a)"
    using frame by blast
  have mems: "\<forall>(a, s') \<in> set ?as. busket s' bs = ?i \<and> a < next_addr ?tb" using mem by blast
  note ch = ok_change[OF ok i blk(2) frames seg texts mems le dom]
  have "set (cs ! ?i) \<subseteq> atoms_of tb" using ok_atoms[OF ok] i by blast
  with ch(2) have "atoms_of ?tb = insert (?a, s) (atoms_of tb)" by auto
  with res ch(1) blk(4) show ?thesis by (metis length_list_update)
qed

text \<open>The strings an operation reads are the same in the old and the new table.\<close>

definition in_order :: "atom_table \<Rightarrow> bool" where
  "in_order tb \<longleftrightarrow> (\<exists>bs cs. table_ok bs tb cs)"

lemma intern_spec:
  assumes "in_order tb"
  shows "\<exists>a tb'. intern s tb = Some (Inr (Inside a, tb')) \<and> in_order tb'
    \<and> atoms_of tb' = insert (a, s) (atoms_of tb) \<and> user tb' = user tb
    \<and> (if s \<in> snd ` atoms_of tb then tb' = tb else a = next_addr tb)"
proof -
  obtain bs cs where ok: "table_ok bs tb cs" using assms by (auto simp: in_order_def)
  show ?thesis
  proof (cases "s \<in> snd ` atoms_of tb")
    case True
    then obtain a where "(a, s) \<in> atoms_of tb" by auto
    with intern_old[OF ok this] True assms show ?thesis by (auto intro!: exI[of _ a])
  next
    case False
    with intern_new[OF ok this] show ?thesis by (auto simp: in_order_def)
  qed
qed

subsection \<open>Finding a pointer\<close>

text \<open>The result of the search along a chain whose first atom is not the one that is looked for.\<close>

fun later :: "strptr \<Rightarrow> (nat \<times> string) list \<Rightarrow> nat \<times> nat option" where
  "later p [] = (0, None)"
| "later p [(a, s)] = (a, None)"
| "later p ((a, s) # (b, s') # as) = (if p = Inside b then (b, Some a) else later p ((b, s') # as))"

lemma find_ptr_later:
  "seg (blocks tb) (Some a) ((a, s) # as) None \<Longrightarrow> find_ptr tb p a = Some (Inr (later p ((a, s) # as)))"
proof (induction as arbitrary: a s)
  case Nil then show ?case by (subst find_ptr.simps) auto
next
  case (Cons x as)
  obtain b s' where x: "x = (b, s')" by (cases x)
  with Cons.IH[of b s'] Cons.prems show ?case by (subst find_ptr.simps) auto
qed

lemma later_found:
  "distinct (map fst (pre @ (q, sq) # (c, sc) # vs)) \<Longrightarrow> later (Inside c) (pre @ (q, sq) # (c, sc) # vs) = (c, Some q)"
proof (induction pre)
  case (Cons x pre)
  then show ?case by (cases x; cases pre) auto
qed simp

lemma later_last:
  "xs \<noteq> [] \<Longrightarrow> \<forall>b \<in> fst ` set (tl xs). p \<noteq> Inside b \<Longrightarrow> later p xs = (fst (last xs), None)"
  by (induction p xs rule: later.induct) auto

lemma atomFind_chain:
  assumes ok: "table_ok bs tb cs" and s: "c_string p tb = Inr s"
  shows "atomFind p tb = Some (case cs ! busket s bs of [] \<Rightarrow> Inl Null_Deref
    | (a, s') # as \<Rightarrow> Inr (if p = Inside a then (a, None) else later p ((a, s') # as)))"
proof -
  have seg: "seg (blocks tb) (bs ! busket s bs) (cs ! busket s bs) None"
    using ok_seg[OF ok ok_bucket[OF ok]] .
  show ?thesis
  proof (cases "cs ! busket s bs")
    case Nil
    with seg show ?thesis by (simp add: atomFind_def ok_fields[OF ok] s on_run_def)
  next
    case (Cons x as)
    obtain a s' where x: "x = (a, s')" by (cases x)
    from seg Cons x have "bs ! busket s bs = Some a" by simp
    with seg Cons x show ?thesis
      by (auto simp: atomFind_def ok_fields[OF ok] s on_run_def find_ptr_later)
  qed
qed

lemma atom_c_string:
  assumes "table_ok bs tb cs" and "(a, s) \<in> atoms_of tb" and "NUL \<notin> set s"
  shows "c_string (Inside a) tb = Inr s"
proof -
  have "takeWhile (\<lambda>c. c \<noteq> NUL) (s @ [NUL]) = s"
    using assms(3) by (subst takeWhile_append2) auto
  with ok_block[OF assms(1,2)] show ?thesis by (auto simp: c_string_def buffer_at_def)
qed

subsection \<open>Taking an atom out of its chain\<close>

lemma remove_first:
  assumes ok: "table_ok bs tb cs" and i: "i < length bs" and xs: "cs ! i = (c, sc) # vs"
    and c: "blocks tb c = Some (atom_of c sc r)"
    and tb': "blocks tb' = (blocks tb)(c := None)" "buskets tb' = Some (bs[i := r])" "next_addr tb' = next_addr tb"
  shows "in_order tb' \<and> atoms_of tb' = atoms_of tb - {(c, sc)}"
proof -
  have c_out: "c \<notin> fst ` set vs" using ok_addresses[OF ok i] xs by auto
  have frame: "blocks tb' a = blocks tb a" if j: "j < length bs" "j \<noteq> i" "a \<in> fst ` set (cs ! j)" for j a
  proof -
    have "a \<noteq> c" using ok_other_chain[OF ok _ i j(1,2), of c sc] xs j(3) by auto
    then show ?thesis by (simp add: tb')
  qed
  have seg: "seg (blocks tb') r vs None"
    using ok_seg[OF ok i] xs c c_out by (auto simp: tb' seg_frame)
  have texts: "distinct (map snd vs)" using ok_texts[OF ok i] xs by simp
  have mem: "busket s bs = i \<and> a < next_addr tb'" if "(a, s) \<in> set vs" for a s
    using that ok_member[OF ok i, of a s] xs by (simp add: tb')
  have "fst ` set (cs ! i) \<subseteq> dom (blocks tb)" using ok_dom[OF ok] i by blast
  then have dom: "dom (blocks tb') = dom (blocks tb) - fst ` set (cs ! i) \<union> fst ` set vs"
    using xs c_out by (auto simp: tb')
  have le: "next_addr tb \<le> next_addr tb'" by (simp add: tb')
  have frames: "\<forall>j < length bs. j \<noteq> i \<longrightarrow> (\<forall>a \<in> fst ` set (cs ! j). blocks tb' a = blocks tb a)"
    using frame by blast
  have mems: "\<forall>(a, s) \<in> set vs. busket s bs = i \<and> a < next_addr tb'" using mem by blast
  note ch = ok_change[OF ok i tb'(2) frames seg texts mems le dom]
  have sub: "set (cs ! i) \<subseteq> atoms_of tb" using ok_atoms[OF ok] i by blast
  have "(c, sc) \<notin> set vs" using c_out by force
  with ch(2) sub xs have "atoms_of tb' = atoms_of tb - {(c, sc)}" by auto
  with ch(1) show ?thesis by (auto simp: in_order_def)
qed

lemma set_take_out: "c \<notin> A \<Longrightarrow> q \<in> A \<Longrightarrow> insert c A \<subseteq> D \<Longrightarrow> insert q D - {c} = D - insert c A \<union> A"
  by auto

lemma remove_later:
  assumes ok: "table_ok bs tb cs" and i: "i < length bs" and xs: "cs ! i = pre @ (q, sq) # (c, sc) # vs"
    and c: "blocks tb c = Some (atom_of c sc r)"
    and tb': "blocks tb' = (blocks tb)(q := Some (atom_of q sq r), c := None)" "buskets tb' = Some bs"
      "next_addr tb' = next_addr tb"
  shows "in_order tb' \<and> atoms_of tb' = atoms_of tb - {(c, sc)}"
proof -
  let ?as = "pre @ (q, sq) # vs"
  have dist: "distinct (map fst (pre @ (q, sq) # (c, sc) # vs))" using ok_addresses[OF ok i] xs by simp
  have frame: "blocks tb' a = blocks tb a" if j: "j < length bs" "j \<noteq> i" "a \<in> fst ` set (cs ! j)" for j a
  proof -
    have "a \<noteq> c" "a \<noteq> q"
      using ok_other_chain[OF ok _ i j(1,2), of c sc] ok_other_chain[OF ok _ i j(1,2), of q sq] xs j(3) by auto
    then show ?thesis by (simp add: tb')
  qed
  from ok_seg[OF ok i] xs c have "seg (blocks tb) (bs ! i) pre (Some q)" "seg (blocks tb) r vs None"
    by (auto simp: seg_append)
  with dist have "seg (blocks tb') (bs ! i) pre (Some q)" "seg (blocks tb') r vs None"
    by (simp_all add: tb' seg_frame)
  moreover have "blocks tb' q = Some (atom_of q sq r)" using dist by (simp add: tb')
  ultimately have seg: "seg (blocks tb') (bs ! i) ?as None" by (auto simp: seg_append)
  have texts: "distinct (map snd ?as)" using ok_texts[OF ok i] xs by auto
  have mem: "busket s bs = i \<and> a < next_addr tb'" if "(a, s) \<in> set ?as" for a s
    using that ok_member[OF ok i, of a s] xs by (auto simp: tb')
  have S: "fst ` set (cs ! i) = insert c (fst ` set ?as)" "c \<notin> fst ` set ?as" "q \<in> fst ` set ?as"
    using xs dist by auto
  have "fst ` set (cs ! i) \<subseteq> dom (blocks tb)" using ok_dom[OF ok] i by blast
  moreover have "dom (blocks tb') = insert q (dom (blocks tb)) - {c}" using S by (auto simp: tb')
  ultimately have dom: "dom (blocks tb') = dom (blocks tb) - fst ` set (cs ! i) \<union> fst ` set ?as"
    using set_take_out[OF S(2,3)] S(1) by metis
  have le: "next_addr tb \<le> next_addr tb'" and bs: "buskets tb' = Some (bs[i := bs ! i])" by (simp_all add: tb')
  have frames: "\<forall>j < length bs. j \<noteq> i \<longrightarrow> (\<forall>a \<in> fst ` set (cs ! j). blocks tb' a = blocks tb a)"
    using frame by blast
  have mems: "\<forall>(a, s) \<in> set ?as. busket s bs = i \<and> a < next_addr tb'" using mem by blast
  note ch = ok_change[OF ok i bs frames seg texts mems le dom]
  have sub: "set (cs ! i) \<subseteq> atoms_of tb" using ok_atoms[OF ok] i by blast
  have "(c, sc) \<notin> set ?as" using S(2) by (metis fst_conv image_eqI)
  moreover have "set (cs ! i) = insert (c, sc) (set ?as)" using xs by auto
  ultimately have "atoms_of tb' = atoms_of tb - {(c, sc)}" using ch(2) sub by blast
  with ch(1) show ?thesis by (auto simp: in_order_def)
qed

lemma set_next_atom:
  "blocks tb a = Some (atom_of a s r) \<Longrightarrow> set_next a q tb = Inr (tb\<lparr>blocks := (blocks tb)(a := Some (atom_of a s q))\<rparr>)"
  by (simp add: set_next_def)

lemma unlink_loop_chain:
  assumes "seg (blocks tb) (Some b) (pre @ (q, sq) # (c, sc) # vs) None"
    and "distinct (map fst (pre @ (q, sq) # (c, sc) # vs))" and c: "blocks tb c = Some (atom_of c sc r)"
  shows "unlink_loop tb c b = Some (Inr (tb\<lparr>blocks := (blocks tb)(q := Some (atom_of q sq r), c := Some (atom_of c sc None))\<rparr>))"
  using assms(1,2)
proof (induction pre arbitrary: b)
  case Nil
  then show ?case using c by (subst unlink_loop.simps) (auto simp: set_next_atom)
next
  case (Cons x pre)
  obtain a s where x: "x = (a, s)" by (cases x)
  obtain d where d: "blocks tb a = Some (atom_of a s (Some d))" "b = a" "d \<noteq> c"
    "seg (blocks tb) (Some d) (pre @ (q, sq) # (c, sc) # vs) None"
    using Cons.prems x by (cases pre) auto
  have IH: "unlink_loop tb c d = Some (Inr (tb\<lparr>blocks := (blocks tb)(q := Some (atom_of q sq r), c := Some (atom_of c sc None))\<rparr>))"
    using Cons.prems(2) by (intro Cons.IH[OF d(4)]) simp
  show ?case by (subst unlink_loop.simps) (simp add: d IH)
qed

lemma chain_place:
  assumes "x \<in> set xs" and "x \<noteq> hd xs"
  shows "\<exists>pre q sq vs. xs = pre @ (q, sq) # x # vs"
proof -
  from assms(1) obtain us vs where xs: "xs = us @ x # vs" by (auto dest: split_list)
  with assms(2) obtain pre y where "us = pre @ [y]" by (cases us rule: rev_cases) auto
  with xs show ?thesis by (cases y) auto
qed

text \<open>The three ways \<open>atomFree\<close> goes on from the result of the search.\<close>

lemma free_with_prev:
  assumes ok: "table_ok bs tb cs" and i: "i < length bs" and xs: "cs ! i = pre @ (q, sq) # (c, sc) # vs"
    and find: "atomFind p tb = Some (Inr (c, Some q))"
  shows "\<exists>tb'. atomFree p tb = Some (Inr (0, tb')) \<and> in_order tb' \<and> atoms_of tb' = atoms_of tb - {(c, sc)} \<and> user tb' = user tb"
proof -
  have "(c, sc) \<in> set (cs ! i)" "(q, sq) \<in> set (cs ! i)" using xs by auto
  with ok_mem_block[OF ok i] obtain r x where
    c: "blocks tb c = Some (atom_of c sc r)" and q: "blocks tb q = Some (atom_of q sq x)" by blast
  let ?tb = "tb\<lparr>blocks := (blocks tb)(q := Some (atom_of q sq r), c := None)\<rparr>"
  have "atomFree p tb = Some (Inr (0, ?tb))"
    using find c q by (simp add: atomFree_def on_run_def set_next_atom free_block_def)
  moreover have "in_order ?tb \<and> atoms_of ?tb = atoms_of tb - {(c, sc)}"
    by (rule remove_later[OF ok i xs c]) (simp_all add: ok_fields[OF ok])
  ultimately show ?thesis by simp
qed

lemma free_without_prev:
  assumes ok: "table_ok bs tb cs" and i: "i < length bs" and c: "(c, sc) \<in> set (cs ! i)"
    and find: "atomFind p tb = Some (Inr (c, None))"
  shows "\<exists>tb'. atomFree p tb = Some (Inr (0, tb')) \<and> in_order tb' \<and> atoms_of tb' = atoms_of tb - {(c, sc)} \<and> user tb' = user tb"
proof -
  obtain r where blk: "blocks tb c = Some (atom_of c sc r)" using ok_mem_block[OF ok i c] by blast
  have bi: "busket sc bs = i" using ok_member[OF ok i c] by simp
  have chars: "chars_at (Inside c) (nat (int (length sc))) tb = Inr sc"
    using blk by (simp add: chars_at_def buffer_at_def)
  have seg: "seg (blocks tb) (bs ! i) (cs ! i) None" by (rule ok_seg[OF ok i])
  show ?thesis
  proof (cases "hd (cs ! i) = (c, sc)")
    case True
    with c obtain vs where xs: "cs ! i = (c, sc) # vs" by (cases "cs ! i") auto
    with seg have "bs ! i = Some c" by simp
    let ?tb = "tb\<lparr>blocks := (blocks tb)(c := None), buskets := Some (bs[i := r])\<rparr>"
    have "atomFree p tb = Some (Inr (0, ?tb))"
      using find blk chars bi \<open>bs ! i = Some c\<close>
      by (simp add: atomFree_def on_run_def ok_fields[OF ok] free_block_def Let_def)
    moreover have "in_order ?tb \<and> atoms_of ?tb = atoms_of tb - {(c, sc)}"
      by (rule remove_first[OF ok i xs blk]) simp_all
    ultimately show ?thesis by simp
  next
    case False
    with chain_place[OF c] obtain pre q sq vs where xs: "cs ! i = pre @ (q, sq) # (c, sc) # vs" by metis
    obtain b where b: "bs ! i = Some b" "b \<noteq> c"
      using seg xs ok_addresses[OF ok i] by (cases pre) auto
    let ?tb = "tb\<lparr>blocks := (blocks tb)(q := Some (atom_of q sq r), c := None)\<rparr>"
    have "unlink_loop tb c b = Some (Inr (tb\<lparr>blocks := (blocks tb)(q := Some (atom_of q sq r), c := Some (atom_of c sc None))\<rparr>))"
      using seg b xs ok_addresses[OF ok i] by (intro unlink_loop_chain[OF _ _ blk, of b pre q sq vs]) simp_all
    then have "atomFree p tb = Some (Inr (0, ?tb))"
      using find blk chars bi b
      by (simp add: atomFree_def on_run_def ok_fields[OF ok] free_block_def Let_def)
    moreover have "in_order ?tb \<and> atoms_of ?tb = atoms_of tb - {(c, sc)}"
      by (rule remove_later[OF ok i xs blk]) (simp_all add: ok_fields[OF ok])
    ultimately show ?thesis by simp
  qed
qed

lemma free_found:
  assumes ok: "table_ok bs tb cs" and i: "i < length bs" and c: "(c, sc) \<in> set (cs ! i)"
    and s: "c_string (Inside c) tb = Inr s" "busket s bs = i"
  shows "\<exists>tb'. atomFree (Inside c) tb = Some (Inr (0, tb')) \<and> in_order tb' \<and> atoms_of tb' = atoms_of tb - {(c, sc)} \<and> user tb' = user tb"
proof (cases "hd (cs ! i) = (c, sc)")
  case True
  with c have "atomFind (Inside c) tb = Some (Inr (c, None))"
    unfolding atomFind_chain[OF ok s(1)] s(2) by (cases "cs ! i") auto
  with free_without_prev[OF ok i c] show ?thesis by blast
next
  case False
  with chain_place[OF c] obtain pre q sq vs where xs: "cs ! i = pre @ (q, sq) # (c, sc) # vs" by metis
  have dist: "distinct (map fst (pre @ (q, sq) # (c, sc) # vs))" using ok_addresses[OF ok i] xs by simp
  obtain a s' as where hd: "cs ! i = (a, s') # as" "a \<noteq> c"
    using xs dist by (cases pre) auto
  from later_found[OF dist] xs have "later (Inside c) (cs ! i) = (c, Some q)" by simp
  with hd have "atomFind (Inside c) tb = Some (Inr (c, Some q))"
    unfolding atomFind_chain[OF ok s(1)] s(2) by simp
  with free_with_prev[OF ok i xs] show ?thesis by blast
qed

lemma free_not_found:
  assumes ok: "table_ok bs tb cs" and i: "i < length bs" and ne: "cs ! i \<noteq> []"
    and s: "c_string p tb = Inr s" "busket s bs = i" and p: "\<forall>b \<in> fst ` set (cs ! i). p \<noteq> Inside b"
  shows "\<exists>tb'. atomFree p tb = Some (Inr (0, tb')) \<and> in_order tb' \<and> atoms_of tb' = atoms_of tb - {last (cs ! i)} \<and> user tb' = user tb"
proof -
  obtain c sc where c: "last (cs ! i) = (c, sc)" by (cases "last (cs ! i)")
  with ne have mem: "(c, sc) \<in> set (cs ! i)" by (metis last_in_set)
  have "later p (cs ! i) = (c, None)"
    using later_last[OF ne, of p] p c by (auto dest: list.set_sel(2)[OF ne])
  with ne p have "atomFind p tb = Some (Inr (c, None))"
    unfolding atomFind_chain[OF ok s(1)] s(2) by (cases "cs ! i") auto
  with free_without_prev[OF ok i mem] c show ?thesis by simp
qed

text \<open>Every way to end \<open>atomFree\<close> in a table in order: a fault, or one atom is freed.\<close>

lemma atomFree_cases:
  assumes "in_order tb"
  shows "(\<exists>e. atomFree p tb = Some (Inl e)) \<or> (\<exists>c sc tb'. atomFree p tb = Some (Inr (0, tb')) \<and> in_order tb'
    \<and> (c, sc) \<in> atoms_of tb \<and> atoms_of tb' = atoms_of tb - {(c, sc)} \<and> user tb' = user tb)"
proof -
  obtain bs cs where ok: "table_ok bs tb cs" using assms by (auto simp: in_order_def)
  show ?thesis
  proof (cases "c_string p tb")
    case (Inl e)
    then show ?thesis by (simp add: atomFree_def atomFind_def ok_fields[OF ok] on_run_def)
  next
    case (Inr s)
    define i where i: "i = busket s bs"
    have il: "i < length bs" using ok_bucket[OF ok] i by simp
    have sub: "set (cs ! i) \<subseteq> atoms_of tb" using ok_atoms[OF ok] il by blast
    consider "cs ! i = []" | b sb where "(b, sb) \<in> set (cs ! i)" "p = Inside b"
      | "cs ! i \<noteq> []" "\<forall>b \<in> fst ` set (cs ! i). p \<noteq> Inside b" by fastforce
    then show ?thesis
    proof cases
      case 1
      then show ?thesis using atomFind_chain[OF ok Inr] i by (simp add: atomFree_def on_run_def)
    next
      case 2
      with free_found[OF ok il, of b sb s] Inr i sub show ?thesis by blast
    next
      case 3
      with free_not_found[OF ok il 3(1) Inr i[symmetric]] sub show ?thesis
        by (metis last_in_set prod.collapse subset_iff)
    qed
  qed
qed

subsection \<open>Resetting\<close>

lemma free_chain_seg:
  "seg (blocks tb) p xs None \<Longrightarrow> distinct (map fst xs) \<Longrightarrow>
   free_chain p tb = Some (Inr (tb\<lparr>blocks := \<lambda>a. if a \<in> fst ` set xs then None else blocks tb a\<rparr>))"
proof (induction xs arbitrary: p tb)
  case Nil then show ?case by (subst free_chain.simps) simp
next
  case (Cons x xs)
  obtain a s where x: "x = (a, s)" by (cases x)
  with Cons.prems obtain r where r: "p = Some a" "blocks tb a = Some (atom_of a s r)" "seg (blocks tb) r xs None"
    by auto
  have out: "a \<notin> fst ` set xs" "distinct (map fst xs)" using Cons.prems(2) x by auto
  with r have "seg (blocks (free_block a tb)) r xs None" by (simp add: free_block_def seg_frame)
  note IH = Cons.IH[OF this out(2)]
  have "(\<lambda>b. if b \<in> fst ` set xs then None else blocks (free_block a tb) b)
      = (\<lambda>b. if b \<in> fst ` set (x # xs) then None else blocks tb b)"
    using x by (auto simp: free_block_def fun_eq_iff)
  with IH r show ?case by (subst free_chain.simps) (simp add: free_block_def)
qed

lemma free_buskets_segs:
  assumes "length xss = length ps"
    and "\<forall>k < length ps. seg (blocks tb) (ps ! k) (xss ! k) None \<and> distinct (map fst (xss ! k))"
    and "\<forall>j < length ps. \<forall>k < length ps. j \<noteq> k \<longrightarrow> fst ` set (xss ! j) \<inter> fst ` set (xss ! k) = {}"
    and "buskets tb = Some bs" and "length bs = i + length ps"
  shows "free_buskets i ps tb = Some (Inr (tb\<lparr>blocks := \<lambda>a. if a \<in> (\<Union>xs \<in> set xss. fst ` set xs) then None else blocks tb a,
    buskets := Some (take i bs @ replicate (length ps) None)\<rparr>))"
  using assms
proof (induction ps arbitrary: i tb xss bs)
  case Nil
  then show ?case by simp
next
  case (Cons p ps)
  obtain xs yss where xss: "xss = xs # yss" using Cons.prems(1) by (cases xss) auto
  let ?tb1 = "tb\<lparr>blocks := \<lambda>a. if a \<in> fst ` set xs then None else blocks tb a\<rparr>"
  let ?tb2 = "?tb1\<lparr>buskets := Some (bs[i := None])\<rparr>"
  have "seg (blocks tb) p xs None" "distinct (map fst xs)" using Cons.prems(2) xss by auto
  then have first: "free_chain p tb = Some (Inr ?tb1)" by (rule free_chain_seg)
  have seg: "seg (blocks ?tb2) (ps ! k) (yss ! k) None \<and> distinct (map fst (yss ! k))" if k: "k < length ps" for k
  proof -
    have "fst ` set xs \<inter> fst ` set (yss ! k) = {}"
      using Cons.prems(3)[rule_format, of 0 "Suc k"] k xss by simp
    then have "\<forall>a \<in> fst ` set (yss ! k). blocks ?tb2 a = blocks tb a" by auto
    moreover have "seg (blocks tb) (ps ! k) (yss ! k) None \<and> distinct (map fst (yss ! k))"
      using Cons.prems(2)[rule_format, of "Suc k"] k xss by simp
    ultimately show ?thesis using seg_cong[of "yss ! k" "blocks ?tb2" "blocks tb" "ps ! k" None] by simp
  qed
  have sep: "fst ` set (yss ! j) \<inter> fst ` set (yss ! k) = {}" if "j < length ps" "k < length ps" "j \<noteq> k" for j k
    using Cons.prems(3)[rule_format, of "Suc j" "Suc k"] that xss by simp
  have "free_buskets (i + 1) ps ?tb2 = Some (Inr (?tb2\<lparr>blocks := \<lambda>a. if a \<in> (\<Union>xs \<in> set yss. fst ` set xs) then None else blocks ?tb2 a,
      buskets := Some (take (i + 1) (bs[i := None]) @ replicate (length ps) None)\<rparr>))"
    using Cons.prems(1,5) xss seg sep by (intro Cons.IH) simp_all
  moreover have "take (i + 1) (bs[i := None]) = take i bs @ [None]"
    using Cons.prems(5) by (simp add: take_Suc_conv_app_nth)
  moreover have "(\<lambda>a. if a \<in> (\<Union>xs \<in> set yss. fst ` set xs) then None else blocks ?tb2 a)
      = (\<lambda>a. if a \<in> (\<Union>xs \<in> set xss. fst ` set xs) then None else blocks tb a)"
    using xss by (auto simp: fun_eq_iff)
  ultimately show ?case using Cons.prems(4) by (simp add: first on_run_def)
qed

lemma atomReset_spec:
  assumes "in_order tb"
  shows "\<exists>tb'. atomReset tb = Some (Inr tb') \<and> in_order tb' \<and> (\<forall>a. blocks tb' a = None) \<and> user tb' = user tb"
proof -
  obtain bs cs where ok: "table_ok bs tb cs" using assms by (auto simp: in_order_def)
  let ?n = "length bs"
  have sep: "fst ` set (cs ! j) \<inter> fst ` set (cs ! k) = {}" if "j < ?n" "k < ?n" "j \<noteq> k" for j k
  proof -
    have out: "fst x \<notin> fst ` set (cs ! j)" if "x \<in> set (cs ! k)" for x
      using ok_other_chain[OF ok _ \<open>k < ?n\<close> \<open>j < ?n\<close> \<open>j \<noteq> k\<close>, of "fst x" "snd x"] that by simp
    show ?thesis
    proof (rule equals0I)
      fix a assume a: "a \<in> fst ` set (cs ! j) \<inter> fst ` set (cs ! k)"
      then obtain x where "x \<in> set (cs ! k)" "a = fst x" by (metis IntD2 imageE)
      with a out[of x] show False by (metis IntD1)
    qed
  qed
  let ?tb = "tb\<lparr>blocks := \<lambda>a. if a \<in> (\<Union>xs \<in> set cs. fst ` set xs) then None else blocks tb a,
    buskets := Some (replicate ?n None)\<rparr>"
  have "free_buskets 0 bs tb = Some (Inr ?tb)"
    using free_buskets_segs[of cs bs tb bs 0] ok_fields[OF ok] ok_seg[OF ok] ok_addresses[OF ok] sep by simp
  then have res: "atomReset tb = Some (Inr ?tb)" by (simp add: atomReset_def ok_fields[OF ok])
  have "set cs = (!) cs ` {..<?n}" using ok_fields(3)[OF ok] by (auto simp: set_conv_nth)
  with ok_dom[OF ok] have "dom (blocks tb) = (\<Union>xs \<in> set cs. fst ` set xs)" by simp
  then have none: "blocks ?tb a = None" for a by auto
  then have "table_ok (replicate ?n None) ?tb (replicate ?n [])"
    using ok_fields(2)[OF ok] by (auto simp: table_ok_def)
  with res none show ?thesis by (auto simp: in_order_def)
qed

subsection \<open>The reachable tables\<close>

text \<open>
  The histories of a program that interns copies only: any operation but \<open>atomAdd\<close>, with the
  buffers of the callers changing at will. \<open>atomAdd\<close> ends that order (\<open>atomAdd_duplicates\<close>);
  what holds of the table under all operations is the subject of \<open>Atom_Added\<close>.
\<close>

inductive atom_reachable :: "atom_table \<Rightarrow> bool" where
  started: "atomInit hint (no_atoms u) = Inr tb \<Longrightarrow> atom_reachable tb"
| buffers: "atom_reachable tb \<Longrightarrow> atom_reachable (tb\<lparr>user := u\<rparr>)"
| new: "atom_reachable tb \<Longrightarrow> atomNew p n tb = Some (Inr (q, tb')) \<Longrightarrow> atom_reachable tb'"
| number: "atom_reachable tb \<Longrightarrow> atomInt k tb = Some (Inr (q, tb')) \<Longrightarrow> atom_reachable tb'"
| load: "atom_reachable tb \<Longrightarrow> atomAload ps tb = Some (Inr tb') \<Longrightarrow> atom_reachable tb'"
| freed: "atom_reachable tb \<Longrightarrow> atomFree p tb = Some (Inr (k, tb')) \<Longrightarrow> atom_reachable tb'"
| reset: "atom_reachable tb \<Longrightarrow> atomReset tb = Some (Inr tb') \<Longrightarrow> atom_reachable tb'"

lemma init_in_order: "atomInit hint (no_atoms u) = Inr tb \<Longrightarrow> in_order tb \<and> atoms_of tb = {}"
proof -
  assume "atomInit hint (no_atoms u) = Inr tb"
  moreover define n where "n = nat (if hint < 128 then 1024 else hint)"
  ultimately have "0 < n" and tb: "tb = (no_atoms u)\<lparr>buskets := Some (replicate n None)\<rparr>"
    by (auto simp: atomInit_def Let_def split: if_splits)
  then have "table_ok (replicate n None) tb (replicate n [])"
    by (simp add: table_ok_def no_atoms_def)
  then show ?thesis by (auto simp: in_order_def tb atoms_of_def no_atoms_def)
qed

lemma in_order_user: "in_order (tb\<lparr>user := u\<rparr>) = in_order tb"
  by (simp add: in_order_def table_ok_def)

lemma in_order_buskets: "in_order tb \<Longrightarrow> \<exists>bs. buskets tb = Some bs"
  by (auto simp: in_order_def table_ok_def)

text \<open>\<open>atomNew\<close> is \<open>intern\<close> of the characters it is given.\<close>

lemma atomNew_intern:
  "in_order tb \<Longrightarrow> 0 \<le> n \<Longrightarrow> chars_at q (nat n) tb = Inr s \<Longrightarrow> atomNew (Some q) n tb = intern s tb"
  by (auto simp: atomNew_def on_run_def dest: in_order_buskets)

lemma atomNew_cases:
  assumes "in_order tb"
  shows "(\<exists>e. atomNew p n tb = Some (Inl e)) \<or> (\<exists>q s. p = Some q \<and> 0 \<le> n \<and> chars_at q (nat n) tb = Inr s)"
proof (cases p)
  case (Some q)
  show ?thesis
  proof (cases "n < 0")
    case False
    with Some show ?thesis by (cases "chars_at q (nat n) tb") (auto simp: atomNew_def on_run_def)
  qed (simp add: atomNew_def Some)
qed (simp add: atomNew_def)

lemma atomString_intern:
  assumes "in_order tb" and "c_string p tb = Inr s"
  shows "atomString p tb = intern s tb"
proof -
  from assms(2) obtain t where t: "buffer_at p tb = Inr t" "s = takeWhile (\<lambda>c. c \<noteq> NUL) t"
    by (auto simp: c_string_def split: if_splits)
  have "take (length s) t = s" using t(2) takeWhile_eq_take by metis
  moreover have "length s \<le> length t" using t(2) length_takeWhile_le by metis
  ultimately have "chars_at p (length s) tb = Inr s" using t(1) by (simp add: chars_at_def)
  with assms show ?thesis by (simp add: atomString_def on_run_def atomNew_intern)
qed

lemma atomNew_in_order: "in_order tb \<Longrightarrow> atomNew p n tb = Some (Inr (q, tb')) \<Longrightarrow> in_order tb'"
  using atomNew_cases[of tb p n] atomNew_intern intern_spec
  by (metis Inl_Inr_False option.inject prod.inject sum.inject(2))

lemma atomString_in_order: "in_order tb \<Longrightarrow> atomString p tb = Some (Inr (q, tb')) \<Longrightarrow> in_order tb'"
  by (cases "c_string p tb") (auto simp: atomString_def on_run_def dest: atomNew_in_order)

lemma atomAload_in_order: "in_order tb \<Longrightarrow> atomAload ps tb = Some (Inr tb') \<Longrightarrow> in_order tb'"
  by (induction ps arbitrary: tb)
     (auto simp: on_run_def split: option.splits sum.splits dest: atomString_in_order)

lemma atomInt_in_order: "in_order tb \<Longrightarrow> atomInt k tb = Some (Inr (q, tb')) \<Longrightarrow> in_order tb'"
  using intern_spec[of tb "number_text k"] by (auto simp: atomInt_def split: if_splits)

lemma reachable_in_order: "atom_reachable tb \<Longrightarrow> in_order tb"
proof (induction rule: atom_reachable.induct)
  case (started hint u tb) then show ?case using init_in_order by blast
next
  case (buffers tb u) then show ?case by (simp add: in_order_user)
next
  case (new tb p n q tb') then show ?case using atomNew_in_order by blast
next
  case (number tb k q tb') then show ?case using atomInt_in_order by blast
next
  case (load tb ps tb') then show ?case using atomAload_in_order by blast
next
  case (freed tb p k tb') then show ?case using atomFree_cases[of tb p] by fastforce
next
  case (reset tb tb') then show ?case using atomReset_spec[of tb] by auto
qed

lemma find_found:
  assumes ok: "table_ok bs tb cs" and c: "(c, sc) \<in> atoms_of tb" and n: "NUL \<notin> set sc"
  shows "\<exists>prev. atomFind (Inside c) tb = Some (Inr (c, prev))"
proof -
  let ?xs = "cs ! busket sc bs"
  have find: "atomFind (Inside c) tb = Some (case ?xs of [] \<Rightarrow> Inl Null_Deref
      | (a, s') # as \<Rightarrow> Inr (if Inside c = Inside a then (a, None) else later (Inside c) ((a, s') # as)))"
    by (rule atomFind_chain[OF ok atom_c_string[OF ok c n]])
  have mem: "(c, sc) \<in> set ?xs" using c ok_place[OF ok] by simp
  show ?thesis
  proof (cases "hd ?xs = (c, sc)")
    case True
    with mem find show ?thesis by (cases ?xs) auto
  next
    case False
    with chain_place[OF mem] obtain pre q sq vs where xs: "?xs = pre @ (q, sq) # (c, sc) # vs" by metis
    have "distinct (map fst ?xs)" by (rule ok_addresses[OF ok ok_bucket[OF ok]])
    with later_found[of pre q sq c sc vs] xs have "later (Inside c) ?xs = (c, Some q)" by simp
    with find mem show ?thesis by (cases ?xs) (auto split: if_splits)
  qed
qed

lemma atomFind_returns:
  assumes "in_order tb"
  shows "(\<exists>e. atomFind p tb = Some (Inl e)) \<or> (\<exists>r. atomFind p tb = Some (Inr r))"
proof -
  obtain bs cs where ok: "table_ok bs tb cs" using assms by (auto simp: in_order_def)
  show ?thesis
  proof (cases "c_string p tb")
    case (Inl e)
    then show ?thesis by (simp add: atomFind_def ok_fields[OF ok] on_run_def)
  next
    case (Inr s)
    show ?thesis unfolding atomFind_chain[OF ok Inr] by (simp split: list.split)
  qed
qed

lemma atomNew_returns: "in_order tb \<Longrightarrow> atomNew p n tb \<noteq> None"
  using atomNew_cases[of tb p n] atomNew_intern intern_spec by (metis option.distinct(1))

lemma atomString_returns: "in_order tb \<Longrightarrow> atomString p tb \<noteq> None"
  by (cases "c_string p tb") (auto simp: atomString_def on_run_def dest: atomNew_returns)

lemma atomAload_returns: "in_order tb \<Longrightarrow> atomAload ps tb \<noteq> None"
  by (induction ps arbitrary: tb)
     (auto simp: on_run_def split: option.splits sum.splits dest: atomString_returns atomString_in_order)

subsection \<open>What the table promises\<close>

text \<open>A table for the witnesses: 1024 empty chains and the buffers of the caller.\<close>

definition sample_table :: "(nat \<Rightarrow> string option) \<Rightarrow> atom_table" where
  "sample_table u = (no_atoms u)\<lparr>buskets := Some (replicate 1024 None)\<rparr>"

lemma sample_init: "atomInit 1 (no_atoms u) = Inr (sample_table u)"
  by (simp add: atomInit_def sample_table_def)

lemma sample_reachable [simp]: "atom_reachable (sample_table u)"
  by (rule atom_reachable.started[OF sample_init])

lemma sample_fields [simp]: "atoms_of (sample_table u) = {}" "user (sample_table u) = u" "in_order (sample_table u)"
  using init_in_order[OF sample_init] by (simp_all add: sample_table_def no_atoms_def)

lemma sample_string: "u n = Some (s @ [NUL]) \<Longrightarrow> NUL \<notin> set s \<Longrightarrow> user tb = u \<Longrightarrow> c_string (User n) tb = Inr s"
  by (simp add: c_string_def buffer_at_def takeWhile_append)

text \<open>C36 \<open>atomNew\<close> of readable characters returns an atom with that text: the one that is there, and the
  table is unchanged, or a new one, and nothing else changes.\<close>

theorem atomNew_correct:
  assumes "atom_reachable tb" and "0 \<le> n" and "chars_at p (nat n) tb = Inr s"
  shows "\<exists>a tb'. atomNew (Some p) n tb = Some (Inr (Inside a, tb')) \<and> atoms_of tb' = insert (a, s) (atoms_of tb)
    \<and> (if s \<in> snd ` atoms_of tb then tb' = tb else a \<notin> fst ` atoms_of tb)"
proof -
  have ord: "in_order tb" by (rule reachable_in_order[OF assms(1)])
  then obtain bs cs where ok: "table_ok bs tb cs" by (auto simp: in_order_def)
  have "next_addr tb \<notin> fst ` atoms_of tb" using ok_fresh[OF ok] by (auto simp: ok_atoms[OF ok])
  with intern_spec[OF ord, of s] show ?thesis unfolding atomNew_intern[OF ord assms(2,3)] by metis
qed

theorem atomNew_correct_witness:
  "\<exists>a tb'. atomNew (Some (User 0)) 2 (sample_table [0 \<mapsto> ''abc'']) = Some (Inr (Inside a, tb')) \<and> atoms_of tb' = {(a, ''ab'')}"
  using atomNew_correct[of "sample_table [0 \<mapsto> ''abc'']" 2 "User 0" "''ab''"]
  by (auto simp: chars_at_def buffer_at_def)

text \<open>
  C3 Interning two strings one after the other gives the same pointer exactly when the strings are
  equal, and the characters behind the pointers are the strings.
\<close>

theorem interning_pointers:
  assumes "atom_reachable tb" and "atomString p tb = Some (Inr (p', tb1))" and "atomString q tb1 = Some (Inr (q', tb2))"
  shows "(p' = q') = (c_string p tb = c_string q tb1) \<and> c_string p' tb2 = c_string p tb \<and> c_string q' tb2 = c_string q tb1"
proof -
  have ord: "in_order tb" by (rule reachable_in_order[OF assms(1)])
  obtain s where s: "c_string p tb = Inr s"
    using assms(2) by (cases "c_string p tb") (auto simp: atomString_def on_run_def)
  obtain t where t: "c_string q tb1 = Inr t"
    using assms(3) by (cases "c_string q tb1") (auto simp: atomString_def on_run_def)
  obtain a where a: "p' = Inside a" "in_order tb1" "(a, s) \<in> atoms_of tb1"
    using intern_spec[OF ord, of s] assms(2) unfolding atomString_intern[OF ord s] by auto
  obtain b where b: "q' = Inside b" "in_order tb2" "atoms_of tb2 = insert (b, t) (atoms_of tb1)"
    using intern_spec[OF a(2), of t] assms(3) unfolding atomString_intern[OF a(2) t] by auto
  obtain bs cs where ok: "table_ok bs tb2 cs" using b(2) by (auto simp: in_order_def)
  have mem: "(a, s) \<in> atoms_of tb2" "(b, t) \<in> atoms_of tb2" using a b by auto
  have "NUL \<notin> set s" "NUL \<notin> set t"
    using s t by (auto simp: c_string_def split: if_splits dest: set_takeWhileD)
  with ok_unique[OF ok mem] atom_c_string[OF ok mem(1)] atom_c_string[OF ok mem(2)] s t a(1) b(1)
  show ?thesis by simp
qed

theorem interning_pointers_witness:
  "\<exists>p q tb1 tb2. atomString (User 0) (sample_table [0 \<mapsto> ''ab'' @ [NUL], 1 \<mapsto> ''ab'' @ [NUL]]) = Some (Inr (p, tb1))
    \<and> atomString (User 1) tb1 = Some (Inr (q, tb2)) \<and> p = q"
proof -
  let ?u = "[0 \<mapsto> ''ab'' @ [NUL], 1 \<mapsto> ''ab'' @ [NUL]] :: nat \<Rightarrow> string option"
  have n: "NUL \<notin> set ''ab''" by (simp add: NUL_def)
  have s0: "c_string (User 0) (sample_table ?u) = Inr ''ab''" by (rule sample_string[OF _ n, of ?u]) simp_all
  obtain p tb1 where 1: "atomString (User 0) (sample_table ?u) = Some (Inr (p, tb1))" "in_order tb1" "user tb1 = ?u"
    using intern_spec[of "sample_table ?u" "''ab''"] atomString_intern[OF sample_fields(3) s0] by auto
  have s1: "c_string (User 1) tb1 = Inr ''ab''" by (rule sample_string[OF _ n 1(3)]) simp
  obtain q tb2 where 2: "atomString (User 1) tb1 = Some (Inr (q, tb2))"
    using intern_spec[OF 1(2), of "''ab''"] atomString_intern[OF 1(2) s1] by auto
  from interning_pointers[OF sample_reachable 1(1) 2] s0 s1 1 2 show ?thesis by auto
qed

text \<open>
  C37 For an atom whose text has no zero inside, \<open>atomLength\<close> is the length of the text, and \<open>atomFree\<close>
  of its pointer takes that atom out of the table and no other.\<close>

theorem atomFree_correct:
  assumes "atom_reachable tb" and "(a, s) \<in> atoms_of tb" and "NUL \<notin> set s"
  shows "atomLength (Inside a) tb = Some (Inr (int (length s)))
    \<and> (\<exists>tb'. atomFree (Inside a) tb = Some (Inr (0, tb')) \<and> atoms_of tb' = atoms_of tb - {(a, s)} \<and> user tb' = user tb)"
proof -
  obtain bs cs where ok: "table_ok bs tb cs" using reachable_in_order[OF assms(1)] by (auto simp: in_order_def)
  obtain prev where "atomFind (Inside a) tb = Some (Inr (a, prev))" using find_found[OF ok assms(2,3)] by blast
  moreover obtain r where "blocks tb a = Some (atom_of a s r)" using ok_block[OF ok assms(2)] by blast
  ultimately have "atomLength (Inside a) tb = Some (Inr (int (length s)))" by (simp add: atomLength_def)
  moreover have "(a, s) \<in> set (cs ! busket s bs)" using assms(2) ok_place[OF ok] by simp
  ultimately show ?thesis
    using free_found[OF ok ok_bucket[OF ok] _ atom_c_string[OF ok assms(2,3)] refl] by blast
qed

theorem atomFree_correct_witness:
  "\<exists>a tb tb'. atomNew (Some (User 0)) 2 (sample_table [0 \<mapsto> ''ab'']) = Some (Inr (Inside a, tb))
    \<and> atomLength (Inside a) tb = Some (Inr 2) \<and> atomFree (Inside a) tb = Some (Inr (0, tb')) \<and> atoms_of tb' = {}"
proof -
  let ?tb = "sample_table [0 \<mapsto> ''ab'']"
  have "chars_at (User 0) (nat 2) ?tb = Inr ''ab''" by (simp add: chars_at_def buffer_at_def)
  then obtain a tb where 1: "atomNew (Some (User 0)) 2 ?tb = Some (Inr (Inside a, tb))" "atoms_of tb = {(a, ''ab'')}"
    using intern_spec[of ?tb "''ab''"] atomNew_intern[of ?tb 2 "User 0" "''ab''"] by auto
  with atomFree_correct[OF atom_reachable.new[OF sample_reachable 1(1)], of a "''ab''"]
  show ?thesis by (auto simp: NUL_def)
qed

text \<open>
  C39 Freeing a string that is not an atom, when the chain of its hash is not empty, reports success
  and frees an atom of that chain: the caller of another string loses it.
\<close>

theorem atomFree_foreign:
  assumes "atom_reachable tb" and "buskets tb = Some bs" and "c_string (User n) tb = Inr s"
    and "(b, s') \<in> atoms_of tb" and "busket s' bs = busket s bs"
  shows "\<exists>c sc tb'. atomFree (User n) tb = Some (Inr (0, tb')) \<and> (c, sc) \<in> atoms_of tb
    \<and> busket sc bs = busket s bs \<and> atoms_of tb' = atoms_of tb - {(c, sc)}"
proof -
  obtain cs where ok: "table_ok bs tb cs"
    using reachable_in_order[OF assms(1)] assms(2) by (auto simp: in_order_def table_ok_def)
  let ?xs = "cs ! busket s bs"
  have ne: "?xs \<noteq> []" using assms(4,5) ok_place[OF ok] by force
  then obtain c sc where c: "last ?xs = (c, sc)" "(c, sc) \<in> set ?xs" by (metis last_in_set prod.collapse)
  then have "busket sc bs = busket s bs" "(c, sc) \<in> atoms_of tb"
    using ok_member[OF ok ok_bucket[OF ok]] ok_place[OF ok] by auto
  with free_not_found[OF ok ok_bucket[OF ok] ne assms(3) refl] c(1) show ?thesis by auto
qed

theorem atomFree_foreign_witness:
  "\<exists>a tb tb'. atomNew (Some (User 0)) 2 (sample_table [0 \<mapsto> ''ab'' @ [NUL]]) = Some (Inr (Inside a, tb))
    \<and> atomFree (User 0) tb = Some (Inr (0, tb')) \<and> atoms_of tb' = {}"
proof -
  let ?u = "[0 \<mapsto> ''ab'' @ [NUL]] :: nat \<Rightarrow> string option"
  let ?tb = "sample_table ?u"
  have "chars_at (User 0) (nat 2) ?tb = Inr ''ab''" by (simp add: chars_at_def buffer_at_def)
  then obtain a tb where 1: "atomNew (Some (User 0)) 2 ?tb = Some (Inr (Inside a, tb))"
    "atoms_of tb = {(a, ''ab'')}" "user tb = ?u" "in_order tb"
    using intern_spec[of ?tb "''ab''"] atomNew_intern[of ?tb 2 "User 0" "''ab''"] by auto
  have s: "c_string (User 0) tb = Inr ''ab''" by (rule sample_string[OF _ _ 1(3)]) (simp_all add: NUL_def)
  obtain bs where bs: "buskets tb = Some bs" using in_order_buskets[OF 1(4)] by blast
  from atomFree_foreign[OF atom_reachable.new[OF sample_reachable 1(1)] bs s, of a "''ab''"] 1(1,2)
  show ?thesis by auto
qed

text \<open>
  C38 In a reachable table no operation searches for ever.
\<close>

theorem atom_operations_return:
  assumes "atom_reachable tb"
  shows "atomNew p n tb \<noteq> None \<and> atomString q tb \<noteq> None \<and> atomInt k tb \<noteq> None \<and> atomAload qs tb \<noteq> None
    \<and> atomLength q tb \<noteq> None \<and> atomFree q tb \<noteq> None
    \<and> (\<exists>tb'. atomReset tb = Some (Inr tb') \<and> atoms_of tb' = {})"
proof -
  have ord: "in_order tb" by (rule reachable_in_order[OF assms])
  have "atomInt k tb \<noteq> None" using intern_spec[OF ord, of "number_text k"] by (auto simp: atomInt_def)
  moreover have "atomLength q tb \<noteq> None" using atomFind_returns[OF ord, of q] by (auto simp: atomLength_def)
  moreover have "atomFree q tb \<noteq> None" using atomFree_cases[OF ord, of q] by auto
  moreover have "\<exists>tb'. atomReset tb = Some (Inr tb') \<and> atoms_of tb' = {}"
    using atomReset_spec[OF ord] by (auto simp: atoms_of_def)
  ultimately show ?thesis using ord atomNew_returns atomString_returns atomAload_returns by blast
qed

theorem atom_operations_return_witness:
  "\<exists>tb. atomInt (- 12) (sample_table Map.empty) = Some tb"
  using atom_operations_return[OF sample_reachable, of _ _ _ _ "- 12"] by blast

text \<open>
  C40 A string added by \<open>atomAdd\<close>, whose hash is not zero, is not found by \<open>atomNew\<close>, because the
  hash of the first atom was not stored: \<open>atomNew\<close> makes a second, new atom with a copy of the
  same characters, and the first one is still there.
\<close>

theorem atomAdd_duplicates:
  assumes "atom_reachable tb" and "0 \<le> n" and "chars_at (User m) (nat n) tb = Inr s"
    and "s \<notin> snd ` atoms_of tb" and "getHash s \<noteq> 0"
  shows "\<exists>tb1 b a tb2 t u. atomAdd (Some (User m)) n tb = Some (Inr (User m, tb1))
    \<and> atomNew (Some (User m)) n tb1 = Some (Inr (Inside a, tb2))
    \<and> blocks tb b = None \<and> blocks tb1 b = Some t \<and> str t = User m \<and> len t = n
    \<and> blocks tb1 a = None \<and> blocks tb2 a = Some u \<and> str u = Inside a \<and> len u = n \<and> a_text u = s @ [NUL]
    \<and> blocks tb2 b = Some t \<and> chars_at (User m) (nat n) tb2 = Inr s \<and> a \<noteq> b"
proof -
  obtain bs cs where ok: "table_ok bs tb cs" using reachable_in_order[OF assms(1)] by (auto simp: in_order_def)
  let ?i = "busket s bs" and ?a = "next_addr tb"
  let ?t = "\<lparr>a_next = bs ! ?i, hashValue = 0, len = n, str = User m, a_text = []\<rparr>"
  let ?tb1 = "tb\<lparr>blocks := (blocks tb)(?a := Some ?t), next_addr := ?a + 1, buskets := Some (bs[?i := Some ?a])\<rparr>"
  have i: "?i < length bs" by (rule ok_bucket[OF ok])
  have none: "find (\<lambda>(b, s'). s' = s) (cs ! ?i) = None"
    using assms(4) ok_atoms[OF ok] i by (intro find_text_none) force
  have add: "atomAdd (Some (User m)) n tb = Some (Inr (User m, ?tb1))"
    using find_text_chain[OF ok_seg[OF ok i], of None s] none assms(2,3)
    by (simp add: atomAdd_def ok_fields[OF ok] on_run_def Let_def add_block_def)
  have "seg (blocks ?tb1) (bs ! ?i) (cs ! ?i) None"
    using ok_seg[OF ok i] ok_fresh[OF ok i] by (simp add: seg_frame)
  from find_text_chain[OF this, of "Some (getHash s)" s] none
  have "find_text (same_text (Some (getHash s)) s) ?tb1 (bs ! ?i) = Some (Inr None)" by simp
  moreover have "same_text (Some (getHash s)) s ?t ?tb1 = Inr False"
    using assms(5) by (simp add: same_text_def)
  ultimately have find: "find_text (same_text (Some (getHash s)) s) ?tb1 (Some ?a) = Some (Inr None)"
    by (subst find_text.simps) simp
  have chars: "chars_at (User m) (nat n) ?tb1 = Inr s"
    using assms(3) by (simp add: chars_at_def buffer_at_def)
  let ?u = "\<lparr>a_next = Some ?a, hashValue = getHash s, len = int (length s), str = Inside (?a + 1), a_text = s @ [NUL]\<rparr>"
  let ?tb2 = "?tb1\<lparr>blocks := (blocks ?tb1)(?a + 1 := Some ?u), next_addr := ?a + 2,
    buskets := Some ((bs[?i := Some ?a])[?i := Some (?a + 1)])\<rparr>"
  have new: "atomNew (Some (User m)) n ?tb1 = Some (Inr (Inside (?a + 1), ?tb2))"
    using i assms(2) find chars by (simp add: atomNew_def intern_def on_run_def Let_def add_block_def)
  have fresh: "blocks tb b = None" if b: "?a \<le> b" for b
  proof (rule ccontr)
    assume "blocks tb b \<noteq> None"
    then have "b \<in> (\<Union>i < length bs. fst ` set (cs ! i))" using ok_dom[OF ok] by blast
    then obtain j s' where "j < length bs" "(b, s') \<in> set (cs ! j)" by auto
    then have "b < ?a" using ok_member[OF ok] by blast
    with b show False by simp
  qed
  have "int (length s) = n" using assms(2,3) by (auto simp: chars_at_def split: if_splits)
  moreover have "chars_at (User m) (nat n) ?tb2 = Inr s" using assms(3) by (simp add: chars_at_def buffer_at_def)
  ultimately show ?thesis
    using add new fresh by (intro exI[of _ ?tb1] exI[of _ ?a] exI[of _ "?a + 1"] exI[of _ ?tb2] exI[of _ ?t] exI[of _ ?u]) simp
qed

theorem atomAdd_duplicates_witness:
  "\<exists>tb1 a tb2 u. atomAdd (Some (User 0)) 2 (sample_table [0 \<mapsto> ''ab'']) = Some (Inr (User 0, tb1))
    \<and> atomNew (Some (User 0)) 2 tb1 = Some (Inr (Inside a, tb2)) \<and> blocks tb1 a = None
    \<and> blocks tb2 a = Some u \<and> a_text u = ''ab'' @ [NUL]"
proof -
  have "getHash ''ab'' \<noteq> 0" by code_simp
  then show ?thesis
    using atomAdd_duplicates[of "sample_table [0 \<mapsto> ''ab'']" 2 0 "''ab''"]
    by (fastforce simp: chars_at_def buffer_at_def)
qed

end
