(* ===== verification/Atom_Added.thy ===== *)
theory Atom_Added
  imports Atom_Correct
begin

text \<open>
  The table of \<open>atomString/atom.cpp\<close> under every operation, \<open>atomAdd\<close> included. An atom added by
  \<open>atomAdd\<close> keeps the pointer of its caller and no hash, so that the order of \<open>Atom_Correct\<close> does
  not hold any more: its text can be there twice and can go away under it. What is kept is the
  structure: the chains are finite and disjoint and hold every block, an atom whose text can be
  read is in the chain of that text, and the atoms that were copied have their text once. The
  one thing asked of the callers is that a buffer handed to \<open>atomAdd\<close> keeps its characters while
  an atom of the table points to it.
\<close>

subsection \<open>Chains of any atoms\<close>

fun chain :: "(nat \<Rightarrow> atom option) \<Rightarrow> nat option \<Rightarrow> nat list \<Rightarrow> nat option \<Rightarrow> bool" where
  "chain h p [] q = (p = q)"
| "chain h p (a # as) q = (p = Some a \<and> (\<exists>t. h a = Some t \<and> chain h (a_next t) as q))"

lemma chain_append: "chain h p (xs @ ys) q \<longleftrightarrow> (\<exists>r. chain h p xs r \<and> chain h r ys q)"
  by (induction xs arbitrary: p) fastforce+

lemma chain_cong: "\<forall>a \<in> set xs. h' a = h a \<Longrightarrow> chain h' p xs q = chain h p xs q"
  by (induction xs arbitrary: p) auto

lemma chain_live: "chain h p xs q \<Longrightarrow> a \<in> set xs \<Longrightarrow> \<exists>t. h a = Some t"
  by (induction xs arbitrary: p) auto

text \<open>The text an atom stands for, as the code reads it: \<open>len\<close> characters behind \<open>str\<close>.\<close>

definition text_at :: "atom \<Rightarrow> atom_table \<Rightarrow> string run" where
  "text_at t tb = chars_at (str t) (nat (len t)) tb"

text \<open>
  An atom in chain \<open>i\<close>: if its text can be read, the chain is that of the text; its pointer does
  not point to a block that is still to be allocated; it is a copy at its own address, or it has
  neither a hash nor characters of its own.
\<close>

definition kept :: "nat option list \<Rightarrow> atom_table \<Rightarrow> nat \<Rightarrow> nat \<Rightarrow> atom \<Rightarrow> bool" where
  "kept bs tb i a t \<longleftrightarrow> (\<forall>s. text_at t tb = Inr s \<longrightarrow> busket s bs = i) \<and>
     (\<forall>b. str t = Inside b \<longrightarrow> b < next_addr tb) \<and>
     ((\<exists>s r. t = atom_of a s r) \<or> hashValue t = 0 \<and> a_text t = [])"

text \<open>\<open>pl\<close> gives the chain of a block, \<open>cs\<close> the blocks of a chain in their order.\<close>

definition chains_ok ::
    "nat option list \<Rightarrow> atom_table \<Rightarrow> (nat \<Rightarrow> nat) \<Rightarrow> (nat \<Rightarrow> nat list) \<Rightarrow> bool" where
  "chains_ok bs tb pl cs \<longleftrightarrow> buskets tb = Some bs \<and> bs \<noteq> [] \<and>
     (\<forall>a \<in> dom (blocks tb). a < next_addr tb \<and> pl a < length bs) \<and>
     (\<forall>i < length bs. chain (blocks tb) (bs ! i) (cs i) None \<and> distinct (cs i) \<and>
        set (cs i) = {a \<in> dom (blocks tb). pl a = i}) \<and>
     (\<forall>a t. blocks tb a = Some t \<longrightarrow> kept bs tb (pl a) a t) \<and>
     (\<forall>a b s r r'. blocks tb a = Some (atom_of a s r) \<longrightarrow> blocks tb b = Some (atom_of b s r') \<longrightarrow> a = b)"

definition chained :: "atom_table \<Rightarrow> bool" where
  "chained tb \<longleftrightarrow> (\<exists>bs pl cs. chains_ok bs tb pl cs)"

lemma chained_fields: "chains_ok bs tb pl cs \<Longrightarrow> buskets tb = Some bs" "chains_ok bs tb pl cs \<Longrightarrow> bs \<noteq> []"
  by (simp_all add: chains_ok_def)

lemma chained_chain:
  assumes "chains_ok bs tb pl cs" "i < length bs"
  shows "chain (blocks tb) (bs ! i) (cs i) None" "distinct (cs i)" "set (cs i) = {a \<in> dom (blocks tb). pl a = i}"
  using assms by (simp_all add: chains_ok_def)

lemma chained_kept: "chains_ok bs tb pl cs \<Longrightarrow> blocks tb a = Some t \<Longrightarrow> kept bs tb (pl a) a t"
  by (simp add: chains_ok_def)

lemma chained_block: "chains_ok bs tb pl cs \<Longrightarrow> blocks tb a = Some t \<Longrightarrow> a < next_addr tb \<and> pl a < length bs"
  by (auto simp: chains_ok_def)

lemma chained_unique:
  "chains_ok bs tb pl cs \<Longrightarrow> blocks tb a = Some (atom_of a s r) \<Longrightarrow> blocks tb b = Some (atom_of b s r') \<Longrightarrow> a = b"
  unfolding chains_ok_def by blast

text \<open>
  What can be read after a step could be read before, from the pointers the old table knew:
  the atoms of the old table stay in their chains.
\<close>

definition reads_as :: "atom_table \<Rightarrow> atom_table \<Rightarrow> bool" where
  "reads_as tb' tb \<longleftrightarrow> (\<forall>t s. (\<forall>b. str t = Inside b \<longrightarrow> b < next_addr tb) \<longrightarrow>
     text_at t tb' = Inr s \<longrightarrow> text_at t tb = Inr s)"

lemma reads_asI:
  assumes "user tb' = user tb"
    and "\<And>b t. b < next_addr tb \<Longrightarrow> blocks tb' b = Some t \<Longrightarrow> \<exists>t0. blocks tb b = Some t0 \<and> a_text t0 = a_text t"
  shows "reads_as tb' tb"
proof -
  have "chars_at p n tb = Inr s"
    if old: "\<forall>b. p = Inside b \<longrightarrow> b < next_addr tb" and new: "chars_at p n tb' = Inr s" for p n s
  proof (cases p)
    case (User k)
    then show ?thesis using new assms(1) by (simp add: chars_at_def buffer_at_def)
  next
    case (Inside b)
    then obtain t where t: "blocks tb' b = Some t"
      using new by (cases "blocks tb' b") (auto simp: chars_at_def buffer_at_def block_at_def)
    with assms(2)[of b t] old Inside obtain t0 where "blocks tb b = Some t0" "a_text t0 = a_text t" by auto
    then show ?thesis using new t Inside by (simp add: chars_at_def buffer_at_def block_at_def)
  qed
  then show ?thesis unfolding reads_as_def text_at_def by blast
qed

lemma text_at_next [simp]: "text_at (t\<lparr>a_next := q\<rparr>) tb = text_at t tb"
  by (simp add: text_at_def)

lemma kept_step:
  assumes "kept bs tb i a t" "reads_as tb' tb" "next_addr tb \<le> next_addr tb'" "length bs' = length bs"
  shows "kept bs' tb' i a (t\<lparr>a_next := q\<rparr>)"
proof -
  have "busket s bs' = i" if "text_at t tb' = Inr s" for s
  proof -
    have "text_at t tb = Inr s" using that assms(1,2) unfolding kept_def reads_as_def by blast
    then have "busket s bs = i" using assms(1) by (simp add: kept_def)
    then show ?thesis using assms(4) by (simp add: busket_def)
  qed
  moreover have "(\<exists>s r. t\<lparr>a_next := q\<rparr> = atom_of a s r) \<or> hashValue t = 0 \<and> a_text t = []"
    using assms(1) unfolding kept_def by (metis atom_of_simps(6))
  ultimately show ?thesis
    using assms(1,3) unfolding kept_def by (auto intro: less_le_trans)
qed

lemma kept_same: "kept bs tb i a t \<Longrightarrow> reads_as tb' tb \<Longrightarrow> next_addr tb \<le> next_addr tb' \<Longrightarrow>
  length bs' = length bs \<Longrightarrow> kept bs' tb' i a t"
  using kept_step[of bs tb i a t tb' bs' "a_next t"] by simp

subsection \<open>A new atom at the head of a chain\<close>

lemma chains_add:
  assumes ok: "chains_ok bs tb pl cs" and i: "i < length bs"
    and kp: "kept bs (add_block i t tb) i (next_addr tb) (t\<lparr>a_next := bs ! i\<rparr>)"
    and new: "\<And>s r b r'. t\<lparr>a_next := bs ! i\<rparr> = atom_of (next_addr tb) s r \<Longrightarrow> blocks tb b \<noteq> Some (atom_of b s r')"
  shows "chained (add_block i t tb)"
proof -
  let ?a = "next_addr tb" let ?t = "t\<lparr>a_next := bs ! i\<rparr>"
  let ?tb = "add_block i t tb" let ?bs = "bs[i := Some ?a]"
  let ?pl = "pl(?a := i)" let ?cs = "cs(i := ?a # cs i)"
  have tb: "blocks ?tb = (blocks tb)(?a := Some ?t)" "next_addr ?tb = Suc ?a" "buskets ?tb = Some ?bs"
    "user ?tb = user tb"
    by (simp_all add: add_block_def chained_fields(1)[OF ok] Let_def)
  have old: "blocks tb ?a = None" using chained_block[OF ok, of ?a] by (cases "blocks tb ?a") auto
  have reads: "reads_as ?tb tb" by (rule reads_asI) (auto simp: tb split: if_splits)
  have same: "chain (blocks ?tb) p (cs j) None = chain (blocks tb) p (cs j) None" if "j < length bs" for p j
    using chained_chain(3)[OF ok that] old by (intro chain_cong) (auto simp: tb)
  have cc: "chain (blocks ?tb) (?bs ! j) (?cs j) None \<and> distinct (?cs j) \<and>
      set (?cs j) = {a \<in> dom (blocks ?tb). ?pl a = j}" if "j < length ?bs" for j
    using chained_chain[OF ok] that same old by (cases "j = i") (auto simp: tb nth_list_update)
  have kk: "kept ?bs ?tb (?pl b) b u" if "blocks ?tb b = Some u" for b u
  proof (cases "b = ?a")
    case True
    then show ?thesis using that kp by (auto simp: tb kept_def busket_def)
  next
    case False
    then have "blocks tb b = Some u" using that by (simp add: tb)
    from kept_same[OF chained_kept[OF ok this] reads, of ?bs] False show ?thesis by (simp add: tb)
  qed
  have uu: "b = c" if "blocks ?tb b = Some (atom_of b s r)" "blocks ?tb c = Some (atom_of c s r')" for b c s r r'
    using that new chained_unique[OF ok] unfolding tb by (metis fun_upd_apply option.inject)
  have dd: "b < next_addr ?tb \<and> ?pl b < length ?bs" if dom: "b \<in> dom (blocks ?tb)" for b
  proof (cases "b = ?a")
    case False
    then obtain u where "blocks tb b = Some u" using dom by (auto simp: tb)
    then show ?thesis using chained_block[OF ok] False by (simp add: tb less_SucI)
  qed (simp add: tb i)
  have "chains_ok ?bs ?tb ?pl ?cs"
    unfolding chains_ok_def
  proof (intro conjI)
    show "\<forall>a t. blocks ?tb a = Some t \<longrightarrow> kept ?bs ?tb (?pl a) a t" using kk by blast
    show "\<forall>a b s r r'. blocks ?tb a = Some (atom_of a s r) \<longrightarrow> blocks ?tb b = Some (atom_of b s r') \<longrightarrow> a = b"
      using uu by blast
  qed (use cc dd chained_fields[OF ok] tb(3) in \<open>auto simp del: fun_upd_apply\<close>)
  then show ?thesis unfolding chained_def by blast
qed

lemma find_text_none_left:
  assumes "chain (blocks tb) p xs None" "find_text same tb p = Some (Inr None)" "a \<in> set xs"
  shows "\<exists>t. blocks tb a = Some t \<and> same t tb = Inr False"
  using assms
proof (induction xs arbitrary: p)
  case (Cons x xs)
  obtain t where t: "p = Some x" "blocks tb x = Some t" "chain (blocks tb) (a_next t) xs None"
    using Cons.prems(1) by auto
  have "same t tb = Inr False \<and> find_text same tb (a_next t) = Some (Inr None)"
    using Cons.prems(2) t(1,2)
    by (subst (asm) find_text.simps) (auto simp: block_at_def split: sum.splits if_splits)
  then show ?case using Cons.IH[OF t(3)] Cons.prems(3) t(2) by auto
qed simp

lemma same_text_copy: "blocks tb a = Some (atom_of a s r) \<Longrightarrow> same_text (Some (getHash s)) s (atom_of a s r) tb = Inr True"
  by (simp add: same_text_def buffer_at_def same_chars_text)

lemma text_at_copy: "blocks tb a = Some (atom_of a s r) \<Longrightarrow> text_at (atom_of a s r) tb = Inr s"
  by (simp add: text_at_def chars_at_def buffer_at_def)

lemma intern_chained:
  assumes "chained tb" "intern s tb = Some (Inr (q, tb'))"
  shows "chained tb'"
proof -
  obtain bs pl cs where ok: "chains_ok bs tb pl cs" using assms(1) by (auto simp: chained_def)
  let ?i = "busket s bs" let ?a = "next_addr tb"
  let ?t = "\<lparr>a_next = None, hashValue = getHash s, len = int (length s), str = Inside ?a, a_text = s @ [NUL]\<rparr>"
  have i: "?i < length bs" using chained_fields(2)[OF ok] by simp
  show ?thesis
  proof (cases "find_text (same_text (Some (getHash s)) s) tb (bs ! ?i) = Some (Inr None)")
    case False
    then have "tb' = tb" using assms(2)
      by (auto simp: intern_def chained_fields[OF ok] Let_def run_map_eq_Inr split: option.splits sum.splits)
    then show ?thesis using assms(1) by simp
  next
    case True
    then have tb': "tb' = add_block ?i ?t tb"
      using assms(2) by (auto simp: intern_def chained_fields[OF ok] Let_def)
    have t: "?t\<lparr>a_next := bs ! ?i\<rparr> = atom_of ?a s (bs ! ?i)" by (simp add: atom_of_def)
    have blk: "blocks tb' ?a = Some (atom_of ?a s (bs ! ?i))"
      using t by (simp add: tb' add_block_def chained_fields[OF ok] Let_def)
    have nx: "next_addr tb' = Suc ?a" by (simp add: tb' add_block_def chained_fields[OF ok] Let_def)
    have "kept bs tb' ?i ?a (atom_of ?a s (bs ! ?i))"
      using text_at_copy[OF blk] nx by (auto simp: kept_def)
    moreover have "blocks tb b \<noteq> Some (atom_of b s r')" for b r'
    proof
      assume b: "blocks tb b = Some (atom_of b s r')"
      then have "pl b = ?i" using chained_kept[OF ok b] text_at_copy[OF b] by (simp add: kept_def)
      then have "b \<in> set (cs ?i)" using chained_chain(3)[OF ok i] b by auto
      from find_text_none_left[OF chained_chain(1)[OF ok i] True this] b same_text_copy[OF b]
      show False by simp
    qed
    ultimately show ?thesis
      unfolding tb' using chains_add[OF ok i, of ?t] unfolding t by (metis atom_of_eq)
  qed
qed

lemma atomNew_chained: "chained tb \<Longrightarrow> atomNew p n tb = Some (Inr (q, tb')) \<Longrightarrow> chained tb'"
  by (auto simp: atomNew_def on_run_def split: option.splits if_splits sum.splits dest: intern_chained)

lemma atomString_chained: "chained tb \<Longrightarrow> atomString p tb = Some (Inr (q, tb')) \<Longrightarrow> chained tb'"
  by (auto simp: atomString_def on_run_def split: sum.splits dest: atomNew_chained)

lemma atomInt_chained: "chained tb \<Longrightarrow> atomInt k tb = Some (Inr (q, tb')) \<Longrightarrow> chained tb'"
  by (auto simp: atomInt_def split: if_splits dest: intern_chained)

lemma atomAload_chained: "chained tb \<Longrightarrow> atomAload ps tb = Some (Inr tb') \<Longrightarrow> chained tb'"
  by (induction ps arbitrary: tb)
     (auto simp: on_run_def split: option.splits sum.splits dest: atomString_chained)

lemma atomAdd_chained:
  assumes "chained tb" "atomAdd (Some p) n tb = Some (Inr (q, tb'))"
  shows "chained tb'"
proof -
  obtain bs pl cs where ok: "chains_ok bs tb pl cs" using assms(1) by (auto simp: chained_def)
  obtain s where s: "chars_at p (nat n) tb = Inr s"
    using assms(2) by (auto simp: atomAdd_def chained_fields[OF ok] on_run_def split: if_splits sum.splits)
  let ?i = "busket s bs" let ?a = "next_addr tb"
  let ?t = "\<lparr>a_next = None, hashValue = 0, len = n, str = p, a_text = []\<rparr>"
  have i: "?i < length bs" using chained_fields(2)[OF ok] by simp
  show ?thesis
  proof (cases "find_text (same_text None s) tb (bs ! ?i) = Some (Inr None)")
    case False
    then have "tb' = tb" using assms(2) s
      by (auto simp: atomAdd_def chained_fields[OF ok] on_run_def Let_def run_map_eq_Inr
          split: option.splits sum.splits if_splits)
    then show ?thesis using assms(1) by simp
  next
    case True
    then have tb': "tb' = add_block ?i ?t tb"
      using assms(2) s by (auto simp: atomAdd_def chained_fields[OF ok] on_run_def Let_def split: if_splits)
    have blk: "blocks tb' = (blocks tb)(?a := Some (?t\<lparr>a_next := bs ! ?i\<rparr>))" "next_addr tb' = Suc ?a"
        "user tb' = user tb"
      by (simp_all add: tb' add_block_def chained_fields[OF ok] Let_def)
    have inside: "b < ?a" if "p = Inside b" for b
      using s that chained_block[OF ok, of b]
      by (cases "blocks tb b") (auto simp: chars_at_def buffer_at_def block_at_def)
    have "chars_at p (nat n) tb' = Inr s"
      using s inside by (cases p) (auto simp: chars_at_def buffer_at_def block_at_def blk)
    then have "kept bs tb' ?i ?a (?t\<lparr>a_next := bs ! ?i\<rparr>)"
      using inside by (auto simp: kept_def text_at_def blk less_SucI)
    then show ?thesis
      unfolding tb' by (intro chains_add[OF ok i]) (auto simp: atom_of_def)
  qed
qed

subsection \<open>An atom leaves its chain\<close>

lemma chains_remove:
  assumes ok: "chains_ok bs tb pl cs" and i: "i < length bs"
    and tb': "buskets tb' = Some (bs[i := p])" "next_addr tb' = next_addr tb" "user tb' = user tb"
    and dom: "dom (blocks tb') = dom (blocks tb) - {a}"
    and blk: "\<And>b t. blocks tb b = Some t \<Longrightarrow> b \<noteq> a \<Longrightarrow> \<exists>r. blocks tb' b = Some (t\<lparr>a_next := r\<rparr>)"
    and frame: "\<And>b. pl b \<noteq> i \<Longrightarrow> blocks tb' b = blocks tb b"
    and chn: "chain (blocks tb') p xs None" "distinct xs" "set xs = set (cs i) - {a}"
  shows "chained tb'"
proof -
  let ?bs = "bs[i := p]" let ?cs = "cs(i := xs)"
  have old: "\<exists>t r. blocks tb b = Some t \<and> u = t\<lparr>a_next := r\<rparr>" if u: "blocks tb' b = Some u" for b u
  proof -
    have "b \<in> dom (blocks tb')" using u by blast
    then have "b \<in> dom (blocks tb)" "b \<noteq> a" using dom by auto
    then obtain t where t: "blocks tb b = Some t" "b \<noteq> a" by blast
    with blk[OF t] u show ?thesis by auto
  qed
  have reads: "reads_as tb' tb"
  proof (rule reads_asI)
    fix b t assume "blocks tb' b = Some t"
    from old[OF this] show "\<exists>t0. blocks tb b = Some t0 \<and> a_text t0 = a_text t" by auto
  qed (rule tb'(3))
  have cc: "chain (blocks tb') (?bs ! j) (?cs j) None \<and> distinct (?cs j) \<and>
      set (?cs j) = {b \<in> dom (blocks tb'). pl b = j}" if j: "j < length ?bs" for j
  proof (cases "j = i")
    case True
    then show ?thesis using chn chained_chain(3)[OF ok i] i dom by auto
  next
    case False
    have jl: "j < length bs" using j by simp
    note c = chained_chain[OF ok jl]
    have "\<forall>b \<in> set (cs j). blocks tb' b = blocks tb b" using c(3) frame False by simp
    moreover from this have "set (cs j) = {b \<in> dom (blocks tb'). pl b = j}"
      unfolding c(3) using frame False by (auto simp: dom_def)
    ultimately show ?thesis using c False chain_cong[of "cs j" "blocks tb'" "blocks tb"] by simp
  qed
  have kk: "kept ?bs tb' (pl b) b u" if u: "blocks tb' b = Some u" for b u
  proof -
    obtain t r where t: "blocks tb b = Some t" "u = t\<lparr>a_next := r\<rparr>" using old[OF u] by blast
    from kept_step[OF chained_kept[OF ok t(1)] reads, of ?bs r] show ?thesis by (simp add: t(2) tb'(2))
  qed
  have copy: "\<exists>r'. blocks tb b = Some (atom_of b s r')" if u: "blocks tb' b = Some (atom_of b s r)" for b s r
  proof -
    obtain t r' where t: "blocks tb b = Some t" "atom_of b s r = t\<lparr>a_next := r'\<rparr>" using old[OF u] by blast
    have "t = atom_of b s (a_next t)"
      using arg_cong[OF t(2), of "\<lambda>x. x\<lparr>a_next := a_next t\<rparr>"] by simp
    then show ?thesis using t(1) by metis
  qed
  have uu: "b = c" if "blocks tb' b = Some (atom_of b s r)" "blocks tb' c = Some (atom_of c s r')" for b c s r r'
    using copy[OF that(1)] copy[OF that(2)] chained_unique[OF ok] by blast
  have "chains_ok ?bs tb' pl ?cs"
    unfolding chains_ok_def
  proof (intro conjI)
    show "\<forall>a t. blocks tb' a = Some t \<longrightarrow> kept ?bs tb' (pl a) a t" using kk by blast
    show "\<forall>a b s r r'. blocks tb' a = Some (atom_of a s r) \<longrightarrow> blocks tb' b = Some (atom_of b s r') \<longrightarrow> a = b"
      using uu by blast
    show "\<forall>b \<in> dom (blocks tb'). b < next_addr tb' \<and> pl b < length ?bs"
      unfolding dom tb'(2) using chained_block[OF ok] by auto
  qed (use cc chained_fields[OF ok] tb'(1) in \<open>auto simp del: fun_upd_apply\<close>)
  then show ?thesis unfolding chained_def by blast
qed

lemma chains_remove_head:
  assumes ok: "chains_ok bs tb pl cs" and i: "i < length bs" and xs: "cs i = a # as"
    and t: "blocks tb a = Some t"
  shows "chained (free_block a (tb\<lparr>buskets := Some (bs[i := a_next t])\<rparr>))"
proof (rule chains_remove[OF ok i, of _ "a_next t" a as], goal_cases)
  case (6 b)
  have "pl a = i" using chained_chain(3)[OF ok i] xs by auto
  with 6 have "b \<noteq> a" by auto
  then show ?case by (simp add: free_block_def)
next
  case 7
  have "chain (blocks tb) (bs ! i) (a # as) None" "distinct (a # as)"
    using chained_chain(1,2)[OF ok i] xs by simp_all
  then have c: "chain (blocks tb) (a_next t) as None" "a \<notin> set as" using t by simp_all
  have "chain ((blocks tb)(a := None)) (a_next t) as None = chain (blocks tb) (a_next t) as None"
    by (rule chain_cong) (use c(2) in auto)
  then show ?case using c(1) by (simp add: free_block_def)
next
  case (5 b u)
  then show ?case by (intro exI[of _ "a_next u"]) (simp add: free_block_def)
next
  case 8
  then show ?case using chained_chain(2)[OF ok i] xs by simp
next
  case 9
  then show ?case using chained_chain(2)[OF ok i] xs by simp
qed (auto simp: free_block_def)

lemma chains_remove_later:
  assumes ok: "chains_ok bs tb pl cs" and i: "i < length bs" and xs: "cs i = pre @ q # a # post"
    and t: "blocks tb a = Some t" and u: "blocks tb q = Some u"
    and tb': "tb' = tb\<lparr>blocks := (blocks tb)(q := Some (u\<lparr>a_next := a_next t\<rparr>), a := None)\<rparr>"
  shows "chained tb'"
proof (rule chains_remove[OF ok i, of _ "bs ! i" a "pre @ q # post"], goal_cases)
  case (6 b)
  have "pl a = i" "pl q = i" using chained_chain(3)[OF ok i] xs by auto
  with 6 have "b \<noteq> a" "b \<noteq> q" by auto
  then show ?case by (simp add: tb')
next
  case 7
  have d: "distinct (pre @ q # a # post)" using chained_chain(2)[OF ok i] xs by simp
  have "chain (blocks tb) (bs ! i) (pre @ q # a # post) None" using chained_chain(1)[OF ok i] xs by simp
  then have "chain (blocks tb) (bs ! i) pre (Some q)" "chain (blocks tb) (a_next t) post None"
    unfolding chain_append chain.simps using t u by simp_all
  moreover have "chain (blocks tb') p pre r = chain (blocks tb) p pre r"
      "chain (blocks tb') p post r = chain (blocks tb) p post r" for p r
    using d by (intro chain_cong; auto simp: tb')+
  moreover have "blocks tb' q = Some (u\<lparr>a_next := a_next t\<rparr>)" using d by (simp add: tb')
  ultimately show ?case unfolding chain_append chain.simps by simp
next
  case (5 b v)
  show ?case
  proof (cases "b = q")
    case False
    then show ?thesis using 5 by (intro exI[of _ "a_next v"]) (simp add: tb')
  qed (use 5 u in \<open>auto simp: tb'\<close>)
next
  case 1
  show ?case by (simp add: tb' chained_fields[OF ok])
next
  case 4
  have "a \<noteq> q" using chained_chain(2)[OF ok i] xs by auto
  then show ?case using u by (auto simp: tb')
next
  case 8
  then show ?case using chained_chain(2)[OF ok i] xs by auto
next
  case 9
  then show ?case using chained_chain(2)[OF ok i] xs by auto
qed (simp_all add: tb')

subsection \<open>Freeing and resetting\<close>

lemma find_ptr_chain:
  "chain (blocks tb) (Some a) (a # as) None \<Longrightarrow> \<exists>b r. find_ptr tb p a = Some (Inr (b, r)) \<and>
     (case r of None \<Rightarrow> b \<in> set (a # as) | Some q \<Rightarrow> \<exists>pre post. a # as = pre @ q # b # post)"
proof (induction as arbitrary: a)
  case Nil
  then show ?case by (subst find_ptr.simps) auto
next
  case (Cons c as)
  obtain t u where t: "blocks tb a = Some t" "a_next t = Some c" "blocks tb c = Some u"
    "chain (blocks tb) (Some c) (c # as) None" using Cons.prems by auto
  show ?case
  proof (cases "str u = p")
    case True
    then have "find_ptr tb p a = Some (Inr (c, Some a))" using t by (subst find_ptr.simps) simp
    then show ?thesis by (intro exI[of _ c] exI[of _ "Some a"]) (auto intro: exI[of _ "[]"])
  next
    case False
    then have f: "find_ptr tb p a = find_ptr tb p c" using t by (subst find_ptr.simps) simp
    from Cons.IH[OF t(4)] obtain b r where r: "find_ptr tb p c = Some (Inr (b, r))"
      "case r of None \<Rightarrow> b \<in> set (c # as) | Some q \<Rightarrow> \<exists>pre post. c # as = pre @ q # b # post" by blast
    show ?thesis
    proof (cases r)
      case None
      then show ?thesis using f r by auto
    next
      case (Some q)
      then obtain pre post where "a # c # as = (a # pre) @ q # b # post" using r(2) by auto
      then have "\<exists>pre post. a # c # as = pre @ q # b # post" by blast
      then show ?thesis using f r(1) Some by (intro exI[of _ b] exI[of _ "Some q"]) simp
    qed
  qed
qed

lemma unlink_loop_run:
  "chain (blocks tb) (Some p) (p # as) None \<Longrightarrow> a \<in> set as \<Longrightarrow> distinct (p # as) \<Longrightarrow>
   \<exists>pre q post t u tb'. p # as = pre @ q # a # post \<and> blocks tb a = Some t \<and> blocks tb q = Some u \<and>
     unlink_loop tb a p = Some (Inr tb') \<and>
     free_block a tb' = tb\<lparr>blocks := (blocks tb)(q := Some (u\<lparr>a_next := a_next t\<rparr>), a := None)\<rparr>"
proof (induction as arbitrary: p)
  case (Cons c as)
  obtain v w where v: "blocks tb p = Some v" "a_next v = Some c" "blocks tb c = Some w"
    "chain (blocks tb) (Some c) (c # as) None" using Cons.prems(1) by auto
  show ?case
  proof (cases "c = a")
    case True
    have "p \<noteq> a" using Cons.prems(3) True by simp
    then have "unlink_loop tb a p = Some (Inr (tb\<lparr>blocks := (blocks tb)(p := Some (v\<lparr>a_next := a_next w\<rparr>),
        a := Some (w\<lparr>a_next := None\<rparr>))\<rparr>))"
      using v True by (subst unlink_loop.simps) (simp add: set_next_def block_at_def)
    moreover have "p # c # as = [] @ p # a # as" using True by simp
    moreover have "free_block a (tb\<lparr>blocks := (blocks tb)(p := Some (v\<lparr>a_next := a_next w\<rparr>),
        a := Some (w\<lparr>a_next := None\<rparr>))\<rparr>) = tb\<lparr>blocks := (blocks tb)(p := Some (v\<lparr>a_next := a_next w\<rparr>), a := None)\<rparr>"
      by (simp add: free_block_def)
    ultimately show ?thesis using v(1,3) True by (metis (no_types, lifting))
  next
    case False
    then have f: "unlink_loop tb a p = unlink_loop tb a c" using v by (subst unlink_loop.simps) simp
    have "a \<in> set as" "distinct (c # as)" using Cons.prems(2,3) False by simp_all
    from Cons.IH[OF v(4) this] obtain pre q post t u tb' where
      *: "c # as = pre @ q # a # post" "blocks tb a = Some t" "blocks tb q = Some u"
      "unlink_loop tb a c = Some (Inr tb')"
      "free_block a tb' = tb\<lparr>blocks := (blocks tb)(q := Some (u\<lparr>a_next := a_next t\<rparr>), a := None)\<rparr>" by blast
    have "p # c # as = (p # pre) @ q # a # post" using *(1) by simp
    with * show ?thesis unfolding f by blast
  qed
qed simp

text \<open>Where the search of \<open>atomFind\<close> ends: in the chain of the characters behind the pointer.\<close>

lemma atomFind_place:
  assumes ok: "chains_ok bs tb pl cs" and f: "atomFind p tb = Some (Inr (a, r))"
  shows "\<exists>i < length bs. (case r of None \<Rightarrow> a \<in> set (cs i) | Some q \<Rightarrow> \<exists>pre post. cs i = pre @ q # a # post)"
proof -
  obtain s where s: "c_string p tb = Inr s"
    using f by (auto simp: atomFind_def chained_fields[OF ok] on_run_def split: sum.splits)
  let ?i = "busket s bs"
  have i: "?i < length bs" using chained_fields(2)[OF ok] by simp
  obtain b where b: "bs ! ?i = Some b"
    using f s by (auto simp: atomFind_def chained_fields[OF ok] on_run_def split: option.splits)
  then obtain as t where xs: "cs ?i = b # as" "blocks tb b = Some t"
    using chained_chain(1)[OF ok i] by (cases "cs ?i") auto
  show ?thesis
  proof (cases "str t = p")
    case True
    then have "a = b" "r = None" using f s b xs(2) by (auto simp: atomFind_def chained_fields[OF ok] on_run_def)
    then show ?thesis using i xs(1) by auto
  next
    case False
    then have "find_ptr tb p b = Some (Inr (a, r))"
      using f s b xs(2) by (auto simp: atomFind_def chained_fields[OF ok] on_run_def)
    moreover have "chain (blocks tb) (Some b) (b # as) None" using chained_chain(1)[OF ok i] xs(1) b by simp
    ultimately have "case r of None \<Rightarrow> a \<in> set (cs ?i) | Some q \<Rightarrow> \<exists>pre post. cs ?i = pre @ q # a # post"
      using find_ptr_chain[of tb b as p] unfolding xs(1) by auto
    with i show ?thesis by blast
  qed
qed

lemma atomFree_chained:
  assumes "chained tb" "atomFree p tb = Some (Inr (k, tb'))"
  shows "chained tb'"
proof -
  obtain bs pl cs where ok: "chains_ok bs tb pl cs" using assms(1) by (auto simp: chained_def)
  obtain a r where f: "atomFind p tb = Some (Inr (a, r))"
    using assms(2) by (auto simp: atomFree_def on_run_def split: option.splits sum.splits)
  then obtain i where i: "i < length bs"
    and r: "case r of None \<Rightarrow> a \<in> set (cs i) | Some q \<Rightarrow> \<exists>pre post. cs i = pre @ q # a # post"
    using atomFind_place[OF ok] by blast
  have a: "a \<in> set (cs i)" using r by (auto split: option.splits)
  then obtain t where t: "blocks tb a = Some t" "pl a = i" using chained_chain(3)[OF ok i] by auto
  show ?thesis
  proof (cases r)
    case (Some q)
    then obtain pre post where xs: "cs i = pre @ q # a # post" using r by auto
    then have "q \<in> set (cs i)" by simp
    then obtain u where u: "blocks tb q = Some u" using chained_chain(3)[OF ok i] by auto
    have "a \<noteq> q" using chained_chain(2)[OF ok i] xs by auto
    then have "tb' = tb\<lparr>blocks := (blocks tb)(q := Some (u\<lparr>a_next := a_next t\<rparr>), a := None)\<rparr>"
      using assms(2) f t u Some
      by (auto simp: atomFree_def on_run_def set_next_def block_at_def free_block_def)
    then show ?thesis by (rule chains_remove_later[OF ok i xs t(1) u])
  next
    case None
    obtain s where s: "text_at t tb = Inr s"
      using assms(2) f t None
      by (auto simp: atomFree_def on_run_def chained_fields[OF ok] text_at_def split: sum.splits)
    have ib: "busket s bs = i" using chained_kept[OF ok t(1)] s t(2) by (simp add: kept_def)
    have run: "atomFree p tb = (if bs ! i = Some a then Some (Inr (0, free_block a (tb\<lparr>buskets := Some (bs[i := a_next t])\<rparr>)))
        else case bs ! i of None \<Rightarrow> Some (Inl Null_Deref)
          | Some b \<Rightarrow> map_option (run_map (\<lambda>tb'. (0, free_block a tb'))) (unlink_loop tb a b))"
      using f t None s ib by (simp add: atomFree_def on_run_def chained_fields[OF ok] text_at_def Let_def)
    obtain b as where xs: "cs i = b # as" "bs ! i = Some b"
      using chained_chain(1)[OF ok i] a by (cases "cs i") auto
    show ?thesis
    proof (cases "b = a")
      case True
      then show ?thesis using assms(2) run xs chains_remove_head[OF ok i _ t(1)] by auto
    next
      case False
      have "chain (blocks tb) (Some b) (b # as) None" "distinct (b # as)"
        using chained_chain(1,2)[OF ok i] xs by simp_all
      moreover have "a \<in> set as" using a xs False by simp
      ultimately obtain pre q post t' u tb1 where *: "b # as = pre @ q # a # post" "blocks tb a = Some t'"
        "blocks tb q = Some u" "unlink_loop tb a b = Some (Inr tb1)"
        "free_block a tb1 = tb\<lparr>blocks := (blocks tb)(q := Some (u\<lparr>a_next := a_next t'\<rparr>), a := None)\<rparr>"
        using unlink_loop_run by blast
      have "tb' = free_block a tb1" using assms(2) run xs(2) False *(4) by simp
      then show ?thesis using chains_remove_later[OF ok i _ *(2,3)] xs(1) *(1,5) by simp
    qed
  qed
qed

lemma free_chain_chain:
  "chain (blocks tb) p xs None \<Longrightarrow> distinct xs \<Longrightarrow>
   free_chain p tb = Some (Inr (tb\<lparr>blocks := \<lambda>a. if a \<in> set xs then None else blocks tb a\<rparr>))"
proof (induction xs arbitrary: p tb)
  case Nil then show ?case by (subst free_chain.simps) simp
next
  case (Cons a xs)
  obtain t where t: "p = Some a" "blocks tb a = Some t" "chain (blocks tb) (a_next t) xs None"
    using Cons.prems(1) by auto
  have "chain (blocks (free_block a tb)) (a_next t) xs None"
    using t(3) Cons.prems(2) chain_cong[of xs "blocks (free_block a tb)" "blocks tb"] by (auto simp: free_block_def)
  note IH = Cons.IH[OF this]
  have "(\<lambda>b. if b \<in> set xs then None else blocks (free_block a tb) b) = (\<lambda>b. if b \<in> set (a # xs) then None else blocks tb b)"
    by (auto simp: free_block_def fun_eq_iff)
  with IH Cons.prems(2) t show ?case by (subst free_chain.simps) (simp add: free_block_def)
qed

lemma free_buskets_chains:
  assumes "\<forall>k < length ps. chain (blocks tb) (ps ! k) (xss k) None \<and> distinct (xss k)"
    and "\<forall>j < length ps. \<forall>k < length ps. j \<noteq> k \<longrightarrow> set (xss j) \<inter> set (xss k) = {}"
    and "buskets tb = Some bs" and "length bs = i + length ps"
  shows "\<exists>tb'. free_buskets i ps tb = Some (Inr tb') \<and> user tb' = user tb \<and> next_addr tb' = next_addr tb \<and>
    buskets tb' = Some (take i bs @ replicate (length ps) None) \<and>
    (\<forall>a. blocks tb' a = (if \<exists>k < length ps. a \<in> set (xss k) then None else blocks tb a))"
  using assms
proof (induction ps arbitrary: i tb xss bs)
  case Nil
  then show ?case by simp
next
  case (Cons p ps)
  let ?tb1 = "tb\<lparr>blocks := \<lambda>a. if a \<in> set (xss 0) then None else blocks tb a\<rparr>"
  let ?tb2 = "?tb1\<lparr>buskets := Some (bs[i := None])\<rparr>"
  have "chain (blocks tb) p (xss 0) None" "distinct (xss 0)" using Cons.prems(1) by auto
  then have first: "free_chain p tb = Some (Inr ?tb1)" by (rule free_chain_chain)
  have "chain (blocks ?tb2) (ps ! k) (xss (Suc k)) None \<and> distinct (xss (Suc k))" if "k < length ps" for k
  proof -
    have "set (xss 0) \<inter> set (xss (Suc k)) = {}" using Cons.prems(2)[rule_format, of 0 "Suc k"] that by simp
    then have "\<forall>a \<in> set (xss (Suc k)). blocks ?tb2 a = blocks tb a" by auto
    then show ?thesis
      using chain_cong[of "xss (Suc k)" "blocks ?tb2" "blocks tb" "ps ! k" None]
        Cons.prems(1)[rule_format, of "Suc k"] that by simp
  qed
  moreover have "set (xss (Suc j)) \<inter> set (xss (Suc k)) = {}" if "j < length ps" "k < length ps" "j \<noteq> k" for j k
    using Cons.prems(2)[rule_format, of "Suc j" "Suc k"] that by simp
  ultimately obtain tb' where tb': "free_buskets (i + 1) ps ?tb2 = Some (Inr tb')" "user tb' = user tb"
      "next_addr tb' = next_addr tb" "buskets tb' = Some (take (i + 1) (bs[i := None]) @ replicate (length ps) None)"
      "\<forall>a. blocks tb' a = (if \<exists>k < length ps. a \<in> set (xss (Suc k)) then None else blocks ?tb2 a)"
    using Cons.IH[of ?tb2 "\<lambda>k. xss (Suc k)" "bs[i := None]" "i + 1"] Cons.prems(4) by auto
  have run: "free_buskets i (p # ps) tb = Some (Inr tb')"
    using first tb'(1) Cons.prems(3) by (simp add: on_run_def)
  have "take (i + 1) (bs[i := None]) = take i bs @ [None]"
    using Cons.prems(4) by (simp add: take_Suc_conv_app_nth)
  moreover have "(\<exists>k < length (p # ps). a \<in> set (xss k)) \<longleftrightarrow> a \<in> set (xss 0) \<or> (\<exists>k < length ps. a \<in> set (xss (Suc k)))" for a
    by (auto simp: less_Suc_eq_0_disj)
  moreover have "blocks tb' a = (if a \<in> set (xss 0) \<or> (\<exists>k < length ps. a \<in> set (xss (Suc k))) then None else blocks tb a)" for a
    using tb'(5) by (cases "a \<in> set (xss 0)"; cases "\<exists>k < length ps. a \<in> set (xss (Suc k))") auto
  ultimately show ?case using run tb'(2-4) by (intro exI[of _ tb']) simp
qed

lemma atomReset_chained:
  assumes "chained tb"
  shows "\<exists>tb'. atomReset tb = Some (Inr tb') \<and> chained tb' \<and> (\<forall>a. blocks tb' a = None)"
proof -
  obtain bs pl cs where ok: "chains_ok bs tb pl cs" using assms by (auto simp: chained_def)
  have "\<forall>k < length bs. chain (blocks tb) (bs ! k) (cs k) None \<and> distinct (cs k)"
    using chained_chain(1,2)[OF ok] by simp
  moreover have "\<forall>j < length bs. \<forall>k < length bs. j \<noteq> k \<longrightarrow> set (cs j) \<inter> set (cs k) = {}"
    using chained_chain(3)[OF ok] by auto
  ultimately obtain tb' where tb': "free_buskets 0 bs tb = Some (Inr tb')"
      "buskets tb' = Some (replicate (length bs) None)"
      "\<forall>a. blocks tb' a = (if \<exists>k < length bs. a \<in> set (cs k) then None else blocks tb a)"
    using free_buskets_chains[of bs tb cs bs 0] chained_fields[OF ok] by auto
  have none: "blocks tb' a = None" for a
  proof (cases "blocks tb a")
    case (Some t)
    then have "a \<in> set (cs (pl a))" "pl a < length bs"
      using chained_chain(3)[OF ok, of "pl a"] chained_block[OF ok Some] by auto
    then show ?thesis using tb'(3) by auto
  qed (use tb'(3) in simp)
  then have "chains_ok (replicate (length bs) None) tb' pl (\<lambda>_. [])"
    using tb'(2) chained_fields(2)[OF ok] by (auto simp: chains_ok_def)
  then show ?thesis using tb'(1) none by (auto simp: atomReset_def chained_fields[OF ok] chained_def)
qed

subsection \<open>The tables of any history\<close>

text \<open>
  Every operation may run, in any order, and the buffers of the callers may change as long as
  no atom of the table points to them.
\<close>

inductive atom_history :: "atom_table \<Rightarrow> bool" where
  started: "atomInit hint (no_atoms u) = Inr tb \<Longrightarrow> atom_history tb"
| buffers: "atom_history tb \<Longrightarrow> (\<And>a t n. blocks tb a = Some t \<Longrightarrow> str t = User n \<Longrightarrow> u n = user tb n) \<Longrightarrow>
    atom_history (tb\<lparr>user := u\<rparr>)"
| new: "atom_history tb \<Longrightarrow> atomNew p n tb = Some (Inr (q, tb')) \<Longrightarrow> atom_history tb'"
| text_of: "atom_history tb \<Longrightarrow> atomString r tb = Some (Inr (q, tb')) \<Longrightarrow> atom_history tb'"
| number: "atom_history tb \<Longrightarrow> atomInt k tb = Some (Inr (q, tb')) \<Longrightarrow> atom_history tb'"
| load: "atom_history tb \<Longrightarrow> atomAload ps tb = Some (Inr tb') \<Longrightarrow> atom_history tb'"
| added: "atom_history tb \<Longrightarrow> atomAdd p n tb = Some (Inr (q, tb')) \<Longrightarrow> atom_history tb'"
| freed: "atom_history tb \<Longrightarrow> atomFree r tb = Some (Inr (k, tb')) \<Longrightarrow> atom_history tb'"
| reset: "atom_history tb \<Longrightarrow> atomReset tb = Some (Inr tb') \<Longrightarrow> atom_history tb'"

lemma init_chained: "atomInit hint (no_atoms u) = Inr tb \<Longrightarrow> chained tb"
proof -
  assume "atomInit hint (no_atoms u) = Inr tb"
  moreover define n where "n = nat (if hint < 128 then 1024 else hint)"
  ultimately have "0 < n" and tb: "tb = (no_atoms u)\<lparr>buskets := Some (replicate n None)\<rparr>"
    by (auto simp: atomInit_def Let_def split: if_splits)
  then have "chains_ok (replicate n None) tb (\<lambda>_. 0) (\<lambda>_. [])"
    by (simp add: chains_ok_def no_atoms_def)
  then show ?thesis by (auto simp: chained_def)
qed

lemma buffers_chained:
  assumes "chained tb" "\<And>a t n. blocks tb a = Some t \<Longrightarrow> str t = User n \<Longrightarrow> u n = user tb n"
  shows "chained (tb\<lparr>user := u\<rparr>)"
proof -
  obtain bs pl cs where ok: "chains_ok bs tb pl cs" using assms(1) by (auto simp: chained_def)
  have same: "text_at t (tb\<lparr>user := u\<rparr>) = text_at t tb" if "blocks tb a = Some t" for a t
    using assms(2)[OF that] by (cases "str t") (auto simp: text_at_def chars_at_def buffer_at_def block_at_def)
  have "kept bs (tb\<lparr>user := u\<rparr>) (pl a) a t" if "blocks tb a = Some t" for a t
    using chained_kept[OF ok that] same[OF that] by (simp add: kept_def)
  then have "chains_ok bs (tb\<lparr>user := u\<rparr>) pl cs" using ok by (simp add: chains_ok_def)
  then show ?thesis by (auto simp: chained_def)
qed

lemma history_chained: "atom_history tb \<Longrightarrow> chained tb"
proof (induction rule: atom_history.induct)
  case (started hint u tb) then show ?case by (rule init_chained)
next
  case (buffers tb u) then show ?case by (intro buffers_chained)
next
  case (new tb p n q tb') then show ?case by (blast intro: atomNew_chained)
next
  case (text_of tb r q tb') then show ?case by (blast intro: atomString_chained)
next
  case (number tb k q tb') then show ?case by (blast intro: atomInt_chained)
next
  case (load tb ps tb') then show ?case by (blast intro: atomAload_chained)
next
  case (added tb p n q tb')
  then show ?case by (cases p) (auto simp: atomAdd_def dest: atomAdd_chained)
next
  case (freed tb r k tb') then show ?case by (blast intro: atomFree_chained)
next
  case (reset tb tb') then show ?case using atomReset_chained[of tb] by auto
qed

text \<open>The histories without \<open>atomAdd\<close> are among them: their atoms point into their own blocks.\<close>

lemma reachable_history: "atom_reachable tb \<Longrightarrow> atom_history tb"
proof (induction rule: atom_reachable.induct)
  case (buffers tb u)
  have "str t \<noteq> User n" if t: "blocks tb a = Some t" for a t n
  proof -
    obtain bs cs where ok: "table_ok bs tb cs" using reachable_in_order[OF buffers.hyps] by (auto simp: in_order_def)
    have "a \<in> (\<Union>i < length bs. fst ` set (cs ! i))" using ok_dom[OF ok] t by blast
    then obtain i s where "i < length bs" "(a, s) \<in> set (cs ! i)" by auto
    from ok_mem_block[OF ok this] t show ?thesis by auto
  qed
  then show ?case using buffers.IH by (intro atom_history.buffers) auto
qed (blast intro: atom_history.intros)+

text \<open>
  C2 Whatever operations of the atom table have run, \<open>atomAdd\<close> included, in any order (a buffer given
  to \<open>atomAdd\<close> keeping its characters while an atom points to it): the chains of the buckets are
  finite, without repetition and without a dangling pointer, every block of the table is in exactly
  one of them, and an atom whose characters can be read is in the chain of the hash of those
  characters. The atoms that \<open>atomNew\<close>, \<open>atomString\<close>, \<open>atomInt\<close> and the loaders copied have the
  length and hash of their text, point to their own copy of it, and no two of them have the same text.
\<close>

theorem atom_table_in_order:
  assumes "atom_history tb"
  shows "\<exists>bs place chains. buskets tb = Some bs \<and>
    (\<forall>i < length bs. chain (blocks tb) (bs ! i) (chains i) None \<and> distinct (chains i)) \<and>
    (\<forall>a i. i < length bs \<longrightarrow> (a \<in> set (chains i) \<longleftrightarrow> blocks tb a \<noteq> None \<and> place a = i)) \<and>
    (\<forall>a t. blocks tb a = Some t \<longrightarrow> place a < length bs \<and>
       (\<forall>s. text_at t tb = Inr s \<longrightarrow> busket s bs = place a)) \<and>
    (\<forall>(a, s) \<in> atoms_of tb. \<exists>r. blocks tb a = Some (atom_of a s r)) \<and>
    (\<forall>(a, s) \<in> atoms_of tb. \<forall>(b, s') \<in> atoms_of tb. (a = b) = (s = s'))"
proof -
  obtain bs pl cs where ok: "chains_ok bs tb pl cs"
    using history_chained[OF assms] by (auto simp: chained_def)
  have copy: "\<exists>r. blocks tb a = Some (atom_of a s r)" if as: "(a, s) \<in> atoms_of tb" for a s
  proof -
    obtain t where t: "blocks tb a = Some t" "a_text t = s @ [NUL]" using as by (auto simp: atoms_of_def)
    then obtain s' r where "t = atom_of a s' r" using chained_kept[OF ok t(1)] by (auto simp: kept_def)
    then show ?thesis using t by auto
  qed
  then have copies: "\<forall>(a, s) \<in> atoms_of tb. \<exists>r. blocks tb a = Some (atom_of a s r)" by blast
  have unique: "\<forall>(a, s) \<in> atoms_of tb. \<forall>(b, s') \<in> atoms_of tb. (a = b) = (s = s')"
  proof (clarify)
    fix a s b s' assume "(a, s) \<in> atoms_of tb" "(b, s') \<in> atoms_of tb"
    then obtain r r' where "blocks tb a = Some (atom_of a s r)" "blocks tb b = Some (atom_of b s' r')"
      using copy by blast
    then show "(a = b) = (s = s')" using chained_unique[OF ok] by auto
  qed
  have placed: "\<forall>a t. blocks tb a = Some t \<longrightarrow> pl a < length bs \<and>
      (\<forall>s. text_at t tb = Inr s \<longrightarrow> busket s bs = pl a)"
    using chained_block[OF ok] chained_kept[OF ok] by (simp add: kept_def)
  have member: "\<forall>a i. i < length bs \<longrightarrow> (a \<in> set (cs i) \<longleftrightarrow> blocks tb a \<noteq> None \<and> pl a = i)"
    using chained_chain(3)[OF ok] by (simp add: domIff)
  show ?thesis
    by (intro exI[of _ bs] exI[of _ pl] exI[of _ cs] conjI chained_fields(1)[OF ok] copies unique placed member)
       (simp add: chained_chain(1,2)[OF ok])
qed

lemma atom_table_in_order_witness:
  "\<exists>tb bs i xs. atomAdd (Some (User 0)) 2 (sample_table [0 \<mapsto> ''ab'']) = Some (Inr (User 0, tb)) \<and>
     chain (blocks tb) (bs ! i) xs None \<and> distinct xs \<and> 0 \<in> set xs"
proof -
  let ?tb = "sample_table [0 \<mapsto> ''ab'']"
  let ?i = "busket ''ab'' (replicate 1024 None)"
  let ?t = "\<lparr>a_next = None, hashValue = 0, len = 2, str = User 0, a_text = []\<rparr>"
  have i: "?i < 1024" using busket_less[of "replicate 1024 None" "''ab''"] by simp
  have run: "atomAdd (Some (User 0)) 2 ?tb = Some (Inr (User 0, add_block ?i ?t ?tb))"
    using i by (simp add: atomAdd_def sample_table_def no_atoms_def chars_at_def buffer_at_def on_run_def
        Let_def find_text.simps)
  have "blocks (add_block ?i ?t ?tb) 0 \<noteq> None"
    by (simp add: add_block_def sample_table_def no_atoms_def Let_def)
  with run obtain tb where tb: "atomAdd (Some (User 0)) 2 ?tb = Some (Inr (User 0, tb))" "blocks tb 0 \<noteq> None"
    by metis
  have "atom_history tb" by (rule atom_history.added[OF reachable_history[OF sample_reachable] tb(1)])
  from atom_table_in_order[OF this] obtain bs pl cs where k:
    "\<forall>i < length bs. chain (blocks tb) (bs ! i) (cs i) None \<and> distinct (cs i)"
    "\<forall>a i. i < length bs \<longrightarrow> (a \<in> set (cs i) \<longleftrightarrow> blocks tb a \<noteq> None \<and> pl a = i)"
    "\<forall>a t. blocks tb a = Some t \<longrightarrow> pl a < length bs \<and>
       (\<forall>s. text_at t tb = Inr s \<longrightarrow> busket s bs = pl a)"
    by (elim exE conjE) (rule that)
  then have "pl 0 < length bs" "0 \<in> set (cs (pl 0))" using tb(2) by auto
  then show ?thesis using tb(1) k(1) by blast
qed

end
