(* ===== verification/Vec.thy ===== *)
theory Vec
  imports Prelude
begin

text \<open>
  \<open>std::vector\<close> as storage: the cells of its capacity, the first \<open>used\<close> of which are its elements.
  The sources index cells beyond \<open>size()\<close> after a \<open>reserve\<close>; inside the capacity such an access
  reaches storage, which holds what was last written there or nothing yet (\<open>Uninitialised\<close>);
  outside of it, it is \<open>Out_Of_Bounds\<close>. Reallocation moves the elements only.
\<close>

record 'a vec =
  cells :: "'a option list"
  used :: nat

definition vempty :: "'a vec" where
  "vempty = \<lparr>cells = [], used = 0\<rparr>"

definition vcapacity :: "'a vec \<Rightarrow> nat" where
  "vcapacity v = length (cells v)"

definition vget :: "'a vec \<Rightarrow> nat \<Rightarrow> 'a run" where
  "vget v i = (if i < vcapacity v then (case cells v ! i of None \<Rightarrow> Inl Uninitialised | Some x \<Rightarrow> Inr x)
     else Inl Out_Of_Bounds)"

definition vset :: "nat \<Rightarrow> 'a \<Rightarrow> 'a vec \<Rightarrow> 'a vec run" where
  "vset i x v = (if i < vcapacity v then Inr (v\<lparr>cells := (cells v)[i := Some x]\<rparr>) else Inl Out_Of_Bounds)"

definition vreserve :: "nat \<Rightarrow> 'a vec \<Rightarrow> 'a vec" where
  "vreserve n v = (if n \<le> vcapacity v then v
     else v\<lparr>cells := take (used v) (cells v) @ replicate (n - used v) None\<rparr>)"

definition vpush :: "'a \<Rightarrow> 'a vec \<Rightarrow> 'a vec" where
  "vpush x v = (let v1 = (if used v < vcapacity v then v else vreserve (max 1 (2 * vcapacity v)) v)
     in v1\<lparr>cells := (cells v1)[used v := Some x], used := used v + 1\<rparr>)"

definition vclear :: "'a vec \<Rightarrow> 'a vec" where
  "vclear v = v\<lparr>used := 0\<rparr>"

definition vec_ok :: "'a vec \<Rightarrow> bool" where
  "vec_ok v \<longleftrightarrow> used v \<le> vcapacity v"

named_theorems vec_simps "reading and capacity after each operation"

lemma vget_vset [vec_simps]: "vset i x v = Inr v' \<Longrightarrow> vget v' j = (if j = i then Inr x else vget v j)"
  by (auto simp: vset_def vget_def vcapacity_def nth_list_update split: if_splits)

lemma vset_capacity [vec_simps]: "vset i x v = Inr v' \<Longrightarrow> vcapacity v' = vcapacity v \<and> used v' = used v"
  by (auto simp: vset_def vcapacity_def split: if_splits)

lemma vset_ok [vec_simps]: "i < vcapacity v \<Longrightarrow> \<exists>v'. vset i x v = Inr v'"
  by (simp add: vset_def)

lemma vget_Inr: "vget v i = Inr x \<longleftrightarrow> i < vcapacity v \<and> cells v ! i = Some x"
  by (auto simp: vget_def split: option.splits)

lemma vreserve_noop [vec_simps]: "n \<le> vcapacity v \<Longrightarrow> vreserve n v = v"
  by (simp add: vreserve_def)

lemma vreserve_capacity: "vec_ok v \<Longrightarrow> vcapacity (vreserve n v) = max n (vcapacity v)"
  by (auto simp: vreserve_def vcapacity_def vec_ok_def)

text \<open>Growing keeps the elements and loses every other cell.\<close>

lemma vget_vreserve:
  "vec_ok v \<Longrightarrow> vcapacity v < n \<Longrightarrow> vget (vreserve n v) i =
     (if i < used v then vget v i else if i < n then Inl Uninitialised else Inl Out_Of_Bounds)"
  by (auto simp: vreserve_def vget_def vcapacity_def vec_ok_def nth_append)

lemma vpush_get:
  assumes "vec_ok v"
  shows "vget (vpush x v) (used v) = Inr x" "i < used v \<Longrightarrow> vget (vpush x v) i = vget v i" "vec_ok (vpush x v)"
    "used (vpush x v) = used v + 1"
proof -
  let ?v1 = "if used v < vcapacity v then v else vreserve (max 1 (2 * vcapacity v)) v"
  have c: "used v < vcapacity ?v1" "used ?v1 = used v"
    using assms vreserve_capacity[OF assms, of "max 1 (2 * vcapacity v)"] by (auto simp: vec_ok_def vreserve_def)
  have p: "vpush x v = ?v1\<lparr>cells := (cells ?v1)[used v := Some x], used := used v + 1\<rparr>" by (simp add: vpush_def Let_def)
  have g: "vget ?v1 i = vget v i" if "i < used v" for i
    using that assms vget_vreserve[OF assms, of "max 1 (2 * vcapacity v)" i] by (auto simp: vec_ok_def)
  show "vget (vpush x v) (used v) = Inr x" "vec_ok (vpush x v)" "used (vpush x v) = used v + 1"
    using c unfolding p by (auto simp: vget_def vcapacity_def vec_ok_def)
  show "i < used v \<Longrightarrow> vget (vpush x v) i = vget v i"
    using c g[of i] unfolding p by (auto simp: vget_def vcapacity_def)
qed

end
