(* ===== verification/Rule_Tables.thy ===== *)
theory Rule_Tables
  imports Vec
begin

unbundle bit_operations_syntax

text \<open>
  The rule tables of the monitor server: \<open>Rubbish_cycler/MonitorServer/src/RulerManager.h\<close>,
  \<open>RulerManager.cpp\<close> and \<open>cs_pow\<close>, \<open>cs_log\<close> of \<open>Lib_tool.cpp\<close>. For each type of node there is a table
  of the buckets, which says on which nodes a bucket is kept, and a log of the changes by version.
  \<open>set_dead_line\<close> ends the process: the fault \<open>Killed\<close>.
\<close>

subsection \<open>Powers and logarithms\<close>

text \<open>\<open>base\<close> is an \<open>unsigned char\<close>, \<open>value\<close> an \<open>unsigned short\<close>.\<close>

definition cs_pow :: "u16 \<Rightarrow> 8 word \<Rightarrow> u32" where
  "cs_pow v b = ((\<lambda>r. r * ucast b) ^^ unat v) 1"

text \<open>
  The loop of \<open>cs_log\<close>, with the iterations that are left: \<open>i\<close> goes to \<open>cs_pow\<close> as an unsigned short, so
  after \<open>2 ^ 16\<close> rounds nothing new comes; \<open>None\<close> when the loop does not end. The second argument
  of the result is \<open>pow_value\<close>.
\<close>

fun log_loop :: "nat \<Rightarrow> u32 \<Rightarrow> 8 word \<Rightarrow> nat \<Rightarrow> u32 \<Rightarrow> (nat \<times> u32) option" where
  "log_loop 0 v b i p = None"
| "log_loop (Suc n) v b i p =
     (if p \<le> v then let q = cs_pow (of_nat i) b in if v = q then Some (i, q) else log_loop n v b (i + 1) q
      else Some (i, p))"

definition cs_log :: "nat \<Rightarrow> u32 \<Rightarrow> 8 word \<Rightarrow> int option" where
  "cs_log fuel v b = map_option (\<lambda>(i, p). if v < p then - 1 else int i) (log_loop fuel v b 0 0)"

subsection \<open>The tables\<close>

definition MAX_IP_NUM :: nat where "MAX_IP_NUM = 5"
definition INVALID_IP :: u32 where "INVALID_IP = 0"
definition INIT_VEC_SIZE :: nat where "INIT_VEC_SIZE = 512"

datatype OP_CMD = MIGRATION | EXTENT | UNDEFINED

record hash_rule =
  hr_bucket :: u32
  hr_ip :: "u32 list"

record migration_info =
  mi_bucket :: u32
  mi_src :: u32
  mi_dest :: u32

text \<open>The union of an order rule is the part its command selects.\<close>

datatype order_data = No_Order | Migration migration_info | Extent u32

record order_rule =
  or_cmd :: OP_CMD
  or_version :: u32
  or_order :: order_data

datatype RULE_TYPE = MU_RULER | SU_RULER | OTHER_TYPE

record rules =
  m_current_version :: "RULE_TYPE \<Rightarrow> u32"
  m_current_mod :: "RULE_TYPE \<Rightarrow> u32"
  m_current_bucket_number :: "RULE_TYPE \<Rightarrow> u32"
  m_hash_table :: "RULE_TYPE \<Rightarrow> hash_rule vec"
  m_order_table :: "RULE_TYPE \<Rightarrow> order_rule vec"

text \<open>
  The three arrays have the two entries of \<open>MU_RULER\<close> and \<open>SU_RULER\<close>; using them with another type
  leaves the array.
\<close>

definition known :: "RULE_TYPE \<Rightarrow> unit run" where
  "known t = (if t = OTHER_TYPE then Inl Out_Of_Bounds else Inr ())"

definition new_rules :: rules where
  "new_rules = \<lparr>m_current_version = \<lambda>t. 0, m_current_mod = \<lambda>t. 0, m_current_bucket_number = \<lambda>t. 0,
     m_hash_table = \<lambda>t. vempty, m_order_table = \<lambda>t. vempty\<rparr>"

definition init_system_rule :: "RULE_TYPE \<Rightarrow> rules \<Rightarrow> rules" where
  "init_system_rule t s = (if t = OTHER_TYPE then s else
     s\<lparr>m_current_version := (m_current_version s)(t := 0), m_current_mod := (m_current_mod s)(t := 0),
       m_current_bucket_number := (m_current_bucket_number s)(t := 0),
       m_hash_table := (m_hash_table s)(t := vclear (m_hash_table s t)),
       m_order_table := (m_order_table s)(t := vclear (m_order_table s t))\<rparr>)"

definition get_current_version :: "RULE_TYPE \<Rightarrow> rules \<Rightarrow> u32 run" where
  "get_current_version t s = and_then (known t) (\<lambda>u. Inr (m_current_version s t))"

definition get_current_mod :: "RULE_TYPE \<Rightarrow> rules \<Rightarrow> u32 run" where
  "get_current_mod t s = and_then (known t) (\<lambda>u. Inr (m_current_mod s t))"

definition get_bucket_number :: "RULE_TYPE \<Rightarrow> rules \<Rightarrow> u32 run" where
  "get_bucket_number t s = and_then (known t) (\<lambda>u. Inr (m_current_bucket_number s t))"

definition set_current_version :: "RULE_TYPE \<Rightarrow> u32 \<Rightarrow> rules \<Rightarrow> rules run" where
  "set_current_version t v s = and_then (known t) (\<lambda>u. Inr (s\<lparr>m_current_version := (m_current_version s)(t := v)\<rparr>))"

definition set_current_mod :: "RULE_TYPE \<Rightarrow> u32 \<Rightarrow> rules \<Rightarrow> rules run" where
  "set_current_mod t m s = and_then (known t) (\<lambda>u. Inr (s\<lparr>m_current_mod := (m_current_mod s)(t := m),
     m_current_bucket_number := (m_current_bucket_number s)(t := cs_pow (ucast m) 2)\<rparr>))"

definition should_init :: "RULE_TYPE \<Rightarrow> rules \<Rightarrow> bool run" where
  "should_init t s = and_then (known t) (\<lambda>u. Inr (m_current_bucket_number s t = 0))"

text \<open>The table a type selects: in several operations every type but \<open>MU_RULER\<close> means the second.\<close>

definition or_su :: "RULE_TYPE \<Rightarrow> RULE_TYPE" where
  "or_su t = (if t = MU_RULER then MU_RULER else SU_RULER)"

definition get_dup_num :: "RULE_TYPE \<Rightarrow> rules \<Rightarrow> nat run" where
  "get_dup_num t s = and_then (vget (m_hash_table s (or_su t)) 0) (\<lambda>r. Inr (length (filter (\<lambda>x. x \<noteq> INVALID_IP) (hr_ip r))))"

definition init_rule :: "rules \<Rightarrow> (int \<times> rules) run" where
  "init_rule s = (let o0 = \<lparr>or_cmd = UNDEFINED, or_version = 0, or_order = No_Order\<rparr> in
     and_then (vset 0 o0 (vreserve INIT_VEC_SIZE (m_order_table s SU_RULER))) (\<lambda>su.
     and_then (vset 0 o0 (vreserve INIT_VEC_SIZE (m_order_table s MU_RULER))) (\<lambda>mu.
       Inr (0, s\<lparr>m_order_table := (m_order_table s)(SU_RULER := su, MU_RULER := mu),
         m_hash_table := (m_hash_table s)(MU_RULER := vreserve INIT_VEC_SIZE (m_hash_table s MU_RULER),
           SU_RULER := vreserve INIT_VEC_SIZE (m_hash_table s SU_RULER))\<rparr>))))"

text \<open>The reference argument is written by success only: \<open>None\<close> is the result \<open>- 1\<close>.\<close>

definition get_hash_rule :: "u32 \<Rightarrow> RULE_TYPE \<Rightarrow> rules \<Rightarrow> hash_rule option run" where
  "get_hash_rule b t s = and_then (known t) (\<lambda>u.
     if m_current_bucket_number s t \<le> b then Inr None
     else and_then (vget (m_hash_table s t) (unat b)) (\<lambda>r. if hr_bucket r \<noteq> b then Inl Killed else Inr (Some r)))"

definition get_order_rule :: "u32 \<Rightarrow> RULE_TYPE \<Rightarrow> rules \<Rightarrow> order_rule option run" where
  "get_order_rule v t s = and_then (known t) (\<lambda>u.
     if v = 0 \<or> m_current_version s t < v then Inr None
     else and_then (vget (m_order_table s t) (unat v)) (\<lambda>r. if or_version r \<noteq> v then Inl Killed else Inr (Some r)))"

text \<open>The test of the capacity is \<open><=\<close> for one table and \<open><\<close> for the other.\<close>

definition add_new_hash_item :: "hash_rule \<Rightarrow> RULE_TYPE \<Rightarrow> rules \<Rightarrow> rules run" where
  "add_new_hash_item r t s = (let i = unat (hr_bucket r); v = m_hash_table s t in
     if t = OTHER_TYPE then Inr s
     else and_then (vset i r (if (if t = MU_RULER then vcapacity v \<le> i else vcapacity v < i)
         then vreserve (unat (hr_bucket r * 2 + 1)) v else v)) (\<lambda>v'. Inr (s\<lparr>m_hash_table := (m_hash_table s)(t := v')\<rparr>)))"

definition add_new_order_item :: "order_rule \<Rightarrow> RULE_TYPE \<Rightarrow> rules \<Rightarrow> rules run" where
  "add_new_order_item r t s = (let i = unat (or_version r); v = m_order_table s t in
     if t = OTHER_TYPE then Inr s
     else and_then (vset i r (if vcapacity v \<le> i then vreserve (unat (or_version r * 2 + 1)) v else v)) (\<lambda>v'.
       Inr (s\<lparr>m_order_table := (m_order_table s)(t := v')\<rparr>)))"

text \<open>The loop over the addresses of a bucket: it stops at the first invalid one.\<close>

fun replace_ip :: "u32 \<Rightarrow> u32 \<Rightarrow> u32 list \<Rightarrow> bool \<times> u32 list" where
  "replace_ip src dst [] = (False, [])"
| "replace_ip src dst (x # xs) =
     (if x = INVALID_IP then (False, x # xs)
      else let (found, ys) = replace_ip src dst xs in
        if x = src then (True, dst # ys) else (found, x # ys))"

definition modify_rule_by_migration :: "migration_info \<Rightarrow> RULE_TYPE \<Rightarrow> rules \<Rightarrow> (int \<times> rules) run" where
  "modify_rule_by_migration info t s = (let b = mi_bucket info in
     and_then (if t = OTHER_TYPE then Inr \<lparr>hr_bucket = 0, hr_ip = replicate MAX_IP_NUM 0\<rparr>
       else and_then (vget (m_hash_table s t) (unat b)) (\<lambda>r. if hr_bucket r \<noteq> b then Inl Killed else Inr r)) (\<lambda>r.
     let (found, ips) = replace_ip (mi_src info) (mi_dest info) (hr_ip r) in
     if \<not> found then Inr (- 1, s)
     else and_then (vset (unat b) (r\<lparr>hr_ip := ips\<rparr>) (m_hash_table s (or_su t))) (\<lambda>v'.
       Inr (0, s\<lparr>m_hash_table := (m_hash_table s)(or_su t := v')\<rparr>))))"

text \<open>The new order goes to the log of \<open>MU_RULER\<close> whatever the type is.\<close>

definition new_migration_order :: "u32 \<Rightarrow> u32 \<Rightarrow> u32 \<Rightarrow> RULE_TYPE \<Rightarrow> rules \<Rightarrow> rules run" where
  "new_migration_order b src dst t s = (let info = \<lparr>mi_bucket = b, mi_src = src, mi_dest = dst\<rparr> in
     and_then (modify_rule_by_migration info t s) (\<lambda>(r, s1).
       if r < 0 then Inr s1
       else and_then (known t) (\<lambda>u.
         let v = m_current_version s1 t + 1 in
         and_then (add_new_order_item \<lparr>or_cmd = MIGRATION, or_version = v, or_order = Migration info\<rparr> MU_RULER s1) (\<lambda>s2.
           Inr (s2\<lparr>m_current_version := (m_current_version s2)(t := v)\<rparr>)))))"

text \<open>
  The loops of an extension: bucket \<open>i + n\<close> gets the nodes of bucket \<open>i\<close>. For \<open>MU_RULER\<close> the new item is
  also pushed at the end of the vector.
\<close>

fun extent_loop :: "nat \<Rightarrow> nat \<Rightarrow> nat \<Rightarrow> RULE_TYPE \<Rightarrow> rules \<Rightarrow> rules run" where
  "extent_loop 0 i n t s = Inr s"
| "extent_loop (Suc k) i n t s =
     and_then (vget (m_hash_table s t) i) (\<lambda>r.
       let r' = r\<lparr>hr_bucket := of_nat (i + n)\<rparr>;
           s1 = (if t = MU_RULER then s\<lparr>m_hash_table := (m_hash_table s)(t := vpush r' (m_hash_table s t))\<rparr> else s)
       in and_then (add_new_hash_item r' t s1) (extent_loop k (i + 1) n t))"

definition modify_rule_by_extent :: "RULE_TYPE \<Rightarrow> rules \<Rightarrow> (int \<times> rules) run" where
  "modify_rule_by_extent t s = and_then (known t) (\<lambda>u. let n = sint (m_current_bucket_number s t) in
     run_map (Pair 0) (extent_loop (nat n) 0 (nat n) t s))"

definition new_extent_order :: "RULE_TYPE \<Rightarrow> rules \<Rightarrow> rules run" where
  "new_extent_order t s = and_then (known t) (\<lambda>u. let m = m_current_mod s t + 1 in
     and_then (modify_rule_by_extent t s) (\<lambda>(r, s1).
       if r < 0 then Inr s1
       else let v = m_current_version s1 t + 1 in
         and_then (add_new_order_item \<lparr>or_cmd = EXTENT, or_version = v, or_order = Extent m\<rparr> t s1) (\<lambda>s2.
           Inr (s2\<lparr>m_current_version := (m_current_version s2)(t := v), m_current_mod := (m_current_mod s2)(t := m),
             m_current_bucket_number := (m_current_bucket_number s2)(t := m_current_bucket_number s2 t * 2)\<rparr>))))"

text \<open>
  The content of a version read from a file: the words of the structure the command selects; a
  content that is too short is refused.
\<close>

definition set_order_rule :: "u32 \<Rightarrow> OP_CMD \<Rightarrow> u32 list \<Rightarrow> RULE_TYPE \<Rightarrow> rules \<Rightarrow> rules run" where
  "set_order_rule v c content t s = (case c of
       MIGRATION \<Rightarrow> if length content < 3 then Inr s
         else add_new_order_item \<lparr>or_cmd = c, or_version = v,
           or_order = Migration \<lparr>mi_bucket = content ! 0, mi_src = content ! 1, mi_dest = content ! 2\<rparr>\<rparr> t s
     | EXTENT \<Rightarrow> if length content < 1 then Inr s
         else add_new_order_item \<lparr>or_cmd = c, or_version = v, or_order = Extent (content ! 0)\<rparr> t s
     | UNDEFINED \<Rightarrow> add_new_order_item \<lparr>or_cmd = c, or_version = v, or_order = No_Order\<rparr> t s)"

definition set_hash_rule :: "u32 \<Rightarrow> u32 list option \<Rightarrow> nat \<Rightarrow> RULE_TYPE \<Rightarrow> rules \<Rightarrow> rules run" where
  "set_hash_rule b ips num t s = (case ips of
       None \<Rightarrow> Inr s
     | Some xs \<Rightarrow> if MAX_IP_NUM < num then Inr s
         else if length xs < num then Inl Out_Of_Bounds
         else add_new_hash_item \<lparr>hr_bucket = b, hr_ip = take num xs @ replicate (MAX_IP_NUM - num) INVALID_IP\<rparr> t s)"

subsection \<open>Logarithms\<close>

lemma cs_pow_2: "cs_pow v 2 = 2 ^ unat v"
proof -
  have "((\<lambda>r::u32. r * 2) ^^ n) 1 = 2 ^ n" for n by (induction n) (simp_all add: mult.commute)
  then show ?thesis by (simp add: cs_pow_def)
qed

lemma unat_pow2: "k < 32 \<Longrightarrow> unat (2 ^ k :: u32) = 2 ^ k"
proof -
  assume k: "k < 32"
  have "unat (of_nat (2 ^ k) :: u32) = take_bit 32 (2 ^ k)" by (simp only: unsigned_of_nat) simp
  also have "\<dots> = 2 ^ k" using k by (simp add: take_bit_nat_eq_self_iff)
  finally show ?thesis by simp
qed

lemma pow2_zero: "32 \<le> k \<Longrightarrow> (2 ^ k :: u32) = 0"
proof -
  assume "32 \<le> k"
  then have "k = 32 + (k - 32)" by simp
  then have "(2 ^ k :: u32) = 2 ^ 32 * 2 ^ (k - 32)" by (metis power_add)
  also have "(2 ^ 32 :: u32) = 0" by simp
  finally show ?thesis by simp
qed

lemma pow2_less: "j < 32 \<Longrightarrow> unat v = m \<Longrightarrow> (2 ^ j :: u32) \<le> v \<longleftrightarrow> 2 ^ j \<le> m"
  by (simp add: word_le_nat_alt unat_pow2)

text \<open>The loop from \<open>i\<close> on, when the power before was at most \<open>v\<close> and no power up to \<open>i\<close> is \<open>v\<close>.\<close>

lemma log_loop_finds:
  assumes "k < 32" "i \<le> k" "p \<le> 2 ^ k" "k - i < n"
  shows "log_loop n (2 ^ k) 2 i p = Some (k, 2 ^ k)"
  using assms
proof (induction n arbitrary: i p)
  case (Suc n)
  have q: "cs_pow (of_nat i) 2 = 2 ^ i" using Suc.prems by (simp add: cs_pow_2 unat_of_nat)
  show ?case
  proof (cases "i = k")
    case True
    then show ?thesis using Suc.prems q by simp
  next
    case False
    then have "(2::nat) ^ i < 2 ^ k" using Suc.prems by simp
    then have "(2 ^ k :: u32) \<noteq> 2 ^ i" "(2 ^ i :: u32) \<le> 2 ^ k"
      using Suc.prems unat_pow2[of i] unat_pow2[of k] by (auto simp: word_le_nat_alt)
    then show ?thesis using Suc False q by simp
  qed
qed simp

lemma log_loop_refuses:
  assumes "k < 32" "unat v < 2 ^ k" "\<forall>j < k. v \<noteq> 2 ^ j" "i \<le> k" "p \<le> v" "k - i + 1 < n"
  shows "\<exists>j q. log_loop n v 2 i p = Some (j, q) \<and> v < q"
  using assms
proof (induction n arbitrary: i p)
  case (Suc n)
  have q: "cs_pow (of_nat i) 2 = 2 ^ i" using Suc.prems by (simp add: cs_pow_2 unat_of_nat)
  have ne: "v \<noteq> 2 ^ i"
  proof (cases "i = k")
    case True
    then show ?thesis using Suc.prems(1,2) unat_pow2 by auto
  qed (use Suc.prems in auto)
  show ?case
  proof (cases "2 ^ i \<le> v")
    case True
    then have "i \<noteq> k" using Suc.prems(1,2) by (auto simp: word_le_nat_alt unat_pow2)
    then show ?thesis using Suc True q ne by simp
  next
    case False
    then obtain m where "n = Suc m" using Suc.prems by (cases n) auto
    then show ?thesis using Suc.prems q ne False by simp
  qed
qed simp

lemma log_loop_diverges:
  assumes "2 ^ 31 < v" "p \<le> v"
  shows "log_loop n v 2 i p = None"
  using assms
proof (induction n arbitrary: i p)
  case (Suc n)
  have "cs_pow (of_nat i) 2 \<le> (2 ^ 31 :: u32)"
  proof (cases "unat (of_nat i :: u16) < 32")
    case True
    then have "unat (of_nat i :: u16) \<le> 31" by simp
    then have "(2::nat) ^ unat (of_nat i :: u16) \<le> 2 ^ 31" by (rule power_increasing) simp
    then show ?thesis using True by (simp add: cs_pow_2 word_le_nat_alt unat_pow2)
  next
    case False
    then show ?thesis by (simp add: cs_pow_2 pow2_zero)
  qed
  then have "cs_pow (of_nat i) 2 < v" using Suc.prems(1) by simp
  then have "cs_pow (of_nat i) 2 \<noteq> v" "cs_pow (of_nat i) 2 \<le> v" by auto
  then show ?case using Suc.IH[OF Suc.prems(1), of "cs_pow (of_nat i) 2" "i + 1"] Suc.prems(2) by (auto simp: Let_def)
qed simp

text \<open>
  C29 \<open>cs_log\<close> to the base 2: it finds the exponent of every power of two an \<open>unsigned int\<close> can be and
  refuses every other number below \<open>2 ^ 31\<close>, in at most 34 rounds; above \<open>2 ^ 31\<close> it never returns.
\<close>

theorem cs_log_result:
  assumes "34 \<le> n"
  shows "(k < 32 \<longrightarrow> cs_log n (cs_pow (of_nat k) 2) 2 = Some (int k)) \<and>
    (unat v < 2 ^ 31 \<longrightarrow> (\<forall>j < 31. v \<noteq> cs_pow (of_nat j) 2) \<longrightarrow> cs_log n v 2 = Some (- 1)) \<and>
    (2 ^ 31 < v \<longrightarrow> cs_log m v 2 = None)"
proof (intro conjI impI)
  have pw: "cs_pow (of_nat j) 2 = 2 ^ j" if "j < 32" for j
    using that by (simp add: cs_pow_2 unat_of_nat)
  show "cs_log n (cs_pow (of_nat k) 2) 2 = Some (int k)" if "k < 32"
    using log_loop_finds[of k 0 0 n] that assms pw[OF that] by (simp add: cs_log_def)
  show "cs_log n v 2 = Some (- 1)" if "unat v < 2 ^ 31" "\<forall>j < 31. v \<noteq> cs_pow (of_nat j) 2"
  proof -
    have "\<forall>j < 31. v \<noteq> 2 ^ j" using that(2) pw by simp
    then show ?thesis using log_loop_refuses[of 31 v 0 0 n] that(1) assms by (auto simp: cs_log_def)
  qed
  show "cs_log m v 2 = None" if "2 ^ 31 < v"
    using log_loop_diverges[OF that, of 0] by (simp add: cs_log_def)
qed

lemma cs_log_result_witness:
  "cs_log 34 (cs_pow 10 2) 2 = Some 10 \<and> cs_log 34 3 2 = Some (- 1) \<and> cs_log 100 0x80000001 2 = None"
proof -
  have "(3::u32) \<noteq> cs_pow (of_nat j) 2" if "j < 31" for j
  proof
    assume "3 = cs_pow (of_nat j) 2"
    then have "(3::u32) = 2 ^ j" using that by (simp add: cs_pow_2 unat_of_nat)
    then have "unat (3::u32) = 2 ^ j" using unat_pow2[of j] that by simp
    then have "(3::nat) = 2 ^ j" by simp
    then show False by (cases j) (auto, presburger)
  qed
  then show ?thesis using cs_log_result[of 34 10 3 100] cs_log_result[of 34 10 "0x80000001" 100] by simp
qed

subsection \<open>Tables in use\<close>

text \<open>
  The table of a type holds its first \<open>n\<close> buckets, each under its own number, inside the capacity.
\<close>

definition loaded :: "RULE_TYPE \<Rightarrow> nat \<Rightarrow> rules \<Rightarrow> bool" where
  "loaded t n s \<longleftrightarrow> t \<noteq> OTHER_TYPE \<and> n < 2 ^ 32 \<and> m_current_bucket_number s t = of_nat n \<and>
     (\<forall>i < n. \<exists>r. vget (m_hash_table s t) i = Inr r \<and> hr_bucket r = of_nat i)"

lemma unat_u32: "n < 2 ^ 32 \<Longrightarrow> unat (of_nat n :: u32) = n"
  by (simp add: unat_of_nat take_bit_nat_eq_self_iff)

lemma of_nat_u32_less: "m < 2 ^ 32 \<Longrightarrow> n < 2 ^ 32 \<Longrightarrow> (of_nat m :: u32) < of_nat n \<longleftrightarrow> m < n"
  by (simp add: word_less_nat_alt unat_u32)

lemma of_nat_u32_eq: "m < 2 ^ 32 \<Longrightarrow> n < 2 ^ 32 \<Longrightarrow> (of_nat m :: u32) = of_nat n \<longleftrightarrow> m = n"
  by (metis unat_u32)

text \<open>The rule of a bucket, found by its number.\<close>

lemma get_hash_rule_loaded:
  assumes "loaded t n s" "i < n" "vget (m_hash_table s t) i = Inr r"
  shows "get_hash_rule (of_nat i) t s = Inr (Some r)"
proof -
  have "hr_bucket r = of_nat i" using assms by (auto simp: loaded_def)
  moreover have "\<not> m_current_bucket_number s t \<le> of_nat i"
    using assms(1,2) of_nat_u32_less[of i n] by (simp add: loaded_def not_le)
  ultimately show ?thesis using assms unat_u32[of i] by (auto simp: get_hash_rule_def loaded_def known_def)
qed

lemma get_hash_rule_refused:
  assumes "loaded t n s" "of_nat n \<le> b"
  shows "get_hash_rule b t s = Inr None"
  using assms by (auto simp: get_hash_rule_def loaded_def known_def)

lemma vset_reserved:
  assumes "i < vcapacity v"
  shows "vset i x (if vcapacity v \<le> i then w else v) = Inr (v\<lparr>cells := (cells v)[i := Some x]\<rparr>)"
    "vset i x (if (if b then vcapacity v \<le> i else vcapacity v < i) then w else v) = Inr (v\<lparr>cells := (cells v)[i := Some x]\<rparr>)"
  using assms by (auto simp: vset_def)

lemma vget_upd: "vget (v\<lparr>cells := (cells v)[i := Some x]\<rparr>) j = (if j = i \<and> i < vcapacity v then Inr x else vget v j)"
  by (auto simp: vget_def vcapacity_def nth_list_update)

lemma vcapacity_upd [simp]: "vcapacity (v\<lparr>cells := (cells v)[i := Some x]\<rparr>) = vcapacity v"
  by (simp add: vcapacity_def)

lemma replace_ip_result:
  "replace_ip src dst xs = (src \<in> set (takeWhile (\<lambda>x. x \<noteq> INVALID_IP) xs),
     map (\<lambda>x. if x = src then dst else x) (takeWhile (\<lambda>x. x \<noteq> INVALID_IP) xs) @ dropWhile (\<lambda>x. x \<noteq> INVALID_IP) xs)"
  by (induction xs) auto

text \<open>
  C15 Migrating a bucket of a loaded table, when the log of the metadata nodes has room for the next
  version. When the source is among the addresses of the bucket (those before the first invalid
  one), the rule of the bucket afterwards has the destination at each place where it had the
  source and its old addresses everywhere else, the rules of the other buckets are what they
  were, the version of the type is the next one, and the log holds the migration under that
  version; otherwise nothing changes.
\<close>

theorem migration_correct:
  assumes "loaded t n s" "b < n" "vget (m_hash_table s t) b = Inr r"
    "unat (m_current_version s t + 1) < vcapacity (m_order_table s MU_RULER)"
  shows "\<exists>s'. new_migration_order (of_nat b) src dst t s = Inr s' \<and> loaded t n s' \<and>
    (if src \<in> set (takeWhile (\<lambda>x. x \<noteq> INVALID_IP) (hr_ip r))
     then m_current_version s' t = m_current_version s t + 1 \<and>
       (\<forall>i < n. get_hash_rule (of_nat i) t s' =
         (if i = b then Inr (Some (r\<lparr>hr_ip :=
            map (\<lambda>x. if x = src then dst else x) (takeWhile (\<lambda>x. x \<noteq> INVALID_IP) (hr_ip r)) @
            dropWhile (\<lambda>x. x \<noteq> INVALID_IP) (hr_ip r)\<rparr>)) else get_hash_rule (of_nat i) t s)) \<and>
       vget (m_order_table s' MU_RULER) (unat (m_current_version s t + 1)) = Inr \<lparr>or_cmd = MIGRATION,
         or_version = m_current_version s t + 1,
         or_order = Migration \<lparr>mi_bucket = of_nat b, mi_src = src, mi_dest = dst\<rparr>\<rparr>
     else s' = s)"
proof -
  let ?v = "m_hash_table s t" and ?ok = "src \<in> set (takeWhile (\<lambda>x. x \<noteq> INVALID_IP) (hr_ip r))"
  have t: "t \<noteq> OTHER_TYPE" "or_su t = t" "known t = Inr ()"
    using assms(1) by (cases t; simp add: loaded_def or_su_def known_def)+
  have b: "unat (of_nat b :: u32) = b" "hr_bucket r = of_nat b"
    using assms(1-3) unat_u32 by (auto simp: loaded_def)
  have cap: "b < vcapacity ?v" using assms(3) by (simp add: vget_Inr)
  obtain ips where ips: "replace_ip src dst (hr_ip r) = (?ok, ips)" by (simp add: replace_ip_result)
  show ?thesis
  proof (cases ?ok)
    case False
    then have "new_migration_order (of_nat b) src dst t s = Inr s"
      using t b assms(3) ips by (simp add: new_migration_order_def modify_rule_by_migration_def Let_def)
    then show ?thesis using False assms(1) by simp
  next
    case True
    let ?r = "r\<lparr>hr_ip := ips\<rparr>"
    let ?h = "(m_hash_table s)(t := ?v\<lparr>cells := (cells ?v)[b := Some ?r]\<rparr>)"
    let ?o = "m_order_table s MU_RULER" and ?w = "m_current_version s t + 1"
    let ?q = "\<lparr>or_cmd = MIGRATION, or_version = ?w, or_order = Migration \<lparr>mi_bucket = of_nat b, mi_src = src, mi_dest = dst\<rparr>\<rparr>"
    let ?s = "s\<lparr>m_hash_table := ?h, m_order_table := (m_order_table s)(MU_RULER := ?o\<lparr>cells := (cells ?o)[unat ?w := Some ?q]\<rparr>),
      m_current_version := (m_current_version s)(t := ?w)\<rparr>"
    have m: "modify_rule_by_migration \<lparr>mi_bucket = of_nat b, mi_src = src, mi_dest = dst\<rparr> t s = Inr (0, s\<lparr>m_hash_table := ?h\<rparr>)"
      using t b assms(3) ips True cap by (simp add: modify_rule_by_migration_def Let_def vset_def)
    have a: "add_new_order_item ?q MU_RULER (s\<lparr>m_hash_table := ?h\<rparr>) = Inr (?s\<lparr>m_current_version := m_current_version s\<rparr>)"
      using vset_reserved(1)[OF assms(4)] by (simp add: add_new_order_item_def Let_def)
    have eq: "new_migration_order (of_nat b) src dst t s = Inr ?s"
      using m a t(3) by (simp add: new_migration_order_def Let_def)
    have l: "loaded t n ?s" using assms(1) b(2) cap by (auto simp: loaded_def vget_upd)
    have g: "get_hash_rule (of_nat i) t ?s = (if i = b then Inr (Some ?r) else get_hash_rule (of_nat i) t s)" if i: "i < n" for i
    proof -
      obtain ri where ri: "vget ?v i = Inr ri" using assms(1) i by (auto simp: loaded_def)
      have "vget (m_hash_table ?s t) i = Inr (if i = b then ?r else ri)" using ri cap by (simp add: vget_upd)
      then show ?thesis using get_hash_rule_loaded[OF l i] get_hash_rule_loaded[OF assms(1) i ri] by auto
    qed
    have "vget (m_order_table ?s MU_RULER) (unat ?w) = Inr ?q" using assms(4) by (simp add: vget_upd)
    moreover have "ips = map (\<lambda>x. if x = src then dst else x) (takeWhile (\<lambda>x. x \<noteq> INVALID_IP) (hr_ip r)) @
        dropWhile (\<lambda>x. x \<noteq> INVALID_IP) (hr_ip r)"
      using ips by (simp add: replace_ip_result)
    moreover have "m_current_version ?s t = m_current_version s t + 1" by simp
    ultimately show ?thesis using eq l g True by (intro exI[of _ ?s]) auto
  qed
qed

subsection \<open>Extension\<close>

lemma hash_table_twice:
  "(s\<lparr>m_hash_table := (m_hash_table s)(t := a)\<rparr>)\<lparr>m_hash_table :=
      (m_hash_table (s\<lparr>m_hash_table := (m_hash_table s)(t := a)\<rparr>))(t := v)\<rparr> = s\<lparr>m_hash_table := (m_hash_table s)(t := v)\<rparr>"
  by (cases s) (auto simp: fun_eq_iff)

lemma extent_loop_su:
  assumes "\<forall>j < n. vget (m_hash_table s SU_RULER) j = Inr (f j)" "i + k = n" "2 * n \<le> vcapacity (m_hash_table s SU_RULER)" "2 * n < 2 ^ 32"
  shows "\<exists>v. extent_loop k i n SU_RULER s = Inr (s\<lparr>m_hash_table := (m_hash_table s)(SU_RULER := v)\<rparr>) \<and>
    vcapacity v = vcapacity (m_hash_table s SU_RULER) \<and>
    (\<forall>j. vget v j = (if n + i \<le> j \<and> j < 2 * n then Inr ((f (j - n))\<lparr>hr_bucket := of_nat j\<rparr>) else vget (m_hash_table s SU_RULER) j))"
  using assms
proof (induction k arbitrary: i s)
  case 0
  then show ?case by (intro exI[of _ "m_hash_table s SU_RULER"]) auto
next
  case (Suc k)
  let ?h = "m_hash_table s SU_RULER" and ?r = "(f i)\<lparr>hr_bucket := of_nat (i + n)\<rparr>"
  let ?h1 = "?h\<lparr>cells := (cells ?h)[i + n := Some ?r]\<rparr>"
  let ?s1 = "s\<lparr>m_hash_table := (m_hash_table s)(SU_RULER := ?h1)\<rparr>"
  have i: "i < n" "i + n < vcapacity ?h" "unat (of_nat (i + n) :: u32) = i + n" using Suc.prems unat_u32[of "i + n"] by auto
  have add: "add_new_hash_item ?r SU_RULER s = Inr ?s1"
    using i vset_reserved(2)[OF i(2), of ?r False] by (simp add: add_new_hash_item_def Let_def)
  have step: "extent_loop (Suc k) i n SU_RULER s = extent_loop k (i + 1) n SU_RULER ?s1"
    using Suc.prems(1) i(1) add by (simp add: Let_def)
  have "\<forall>j < n. vget (m_hash_table ?s1 SU_RULER) j = Inr (f j)" using Suc.prems(1) by (simp add: vget_upd)
  moreover have "i + 1 + k = n" "2 * n \<le> vcapacity (m_hash_table ?s1 SU_RULER)" using Suc.prems(2,3) by simp_all
  ultimately obtain v where v: "extent_loop k (i + 1) n SU_RULER ?s1 = Inr (?s1\<lparr>m_hash_table := (m_hash_table ?s1)(SU_RULER := v)\<rparr>)"
    "vcapacity v = vcapacity (m_hash_table ?s1 SU_RULER)"
    "\<forall>j. vget v j = (if n + (i + 1) \<le> j \<and> j < 2 * n then Inr ((f (j - n))\<lparr>hr_bucket := of_nat j\<rparr>)
       else vget (m_hash_table ?s1 SU_RULER) j)"
    using Suc.IH[of ?s1 "i + 1"] Suc.prems(4) by blast
  have "vget v j = (if n + i \<le> j \<and> j < 2 * n then Inr ((f (j - n))\<lparr>hr_bucket := of_nat j\<rparr>) else vget ?h j)" for j
    using v(3) i(1,2) by (cases "j = i + n") (auto simp: vget_upd)
  then show ?case unfolding step v(1) hash_table_twice using v(2) by (intro exI[of _ v] conjI refl) simp_all
qed

lemma vpush_room: "used v < vcapacity v \<Longrightarrow> vpush x v = v\<lparr>cells := (cells v)[used v := Some x], used := used v + 1\<rparr>"
  by (simp add: vpush_def)

lemma extent_loop_mu:
  assumes "\<forall>j. i \<le> j \<longrightarrow> j < n \<longrightarrow> vget (m_hash_table s MU_RULER) j = Inr (f j)" "used (m_hash_table s MU_RULER) = i" "i + k = n"
    "2 * n \<le> vcapacity (m_hash_table s MU_RULER)" "2 * n < 2 ^ 32"
  shows "\<exists>v. extent_loop k i n MU_RULER s = Inr (s\<lparr>m_hash_table := (m_hash_table s)(MU_RULER := v)\<rparr>) \<and>
    (\<forall>j < n. vget v j = (if i \<le> j then Inr ((f j)\<lparr>hr_bucket := of_nat (j + n)\<rparr>) else vget (m_hash_table s MU_RULER) j))"
  using assms
proof (induction k arbitrary: i s)
  case 0
  then show ?case by (intro exI[of _ "m_hash_table s MU_RULER"]) auto
next
  case (Suc k)
  let ?h = "m_hash_table s MU_RULER" and ?r = "(f i)\<lparr>hr_bucket := of_nat (i + n)\<rparr>"
  let ?hp = "vpush ?r ?h"
  let ?hq = "?hp\<lparr>cells := (cells ?hp)[i + n := Some ?r]\<rparr>"
  let ?s1 = "s\<lparr>m_hash_table := (m_hash_table s)(MU_RULER := ?hq)\<rparr>"
  have i: "i < n" "i < vcapacity ?h" "i + n < vcapacity ?h" "unat (of_nat (i + n) :: u32) = i + n"
    using Suc.prems unat_u32[of "i + n"] by auto
  have h0: "?hp = ?h\<lparr>cells := (cells ?h)[i := Some ?r], used := i + 1\<rparr>" using vpush_room[of ?h ?r] Suc.prems(2) i(2) by simp
  have c0: "vcapacity ?hp = vcapacity ?h" by (simp only: h0) (simp add: vcapacity_def)
  have add: "add_new_hash_item ?r MU_RULER (s\<lparr>m_hash_table := (m_hash_table s)(MU_RULER := ?hp)\<rparr>) = Inr ?s1"
    using i c0 vset_reserved(2)[of "i + n" ?hp ?r True] by (simp add: add_new_hash_item_def Let_def)
  have step: "extent_loop (Suc k) i n MU_RULER s = extent_loop k (i + 1) n MU_RULER ?s1"
    using Suc.prems(1) i(1) add by (simp add: Let_def)
  have g0: "vget ?hq j = (if j = i + n \<or> j = i then Inr ?r else vget ?h j)" for j
    using i unfolding h0 by (auto simp: vget_def vcapacity_def nth_list_update)
  have c1: "vcapacity ?hq = vcapacity ?h" "used ?hq = i + 1" using c0 by (simp_all only: vcapacity_upd) (simp only: h0, simp)
  have p: "\<forall>j. i + 1 \<le> j \<longrightarrow> j < n \<longrightarrow> vget (m_hash_table ?s1 MU_RULER) j = Inr (f j)" "used (m_hash_table ?s1 MU_RULER) = i + 1"
    "2 * n \<le> vcapacity (m_hash_table ?s1 MU_RULER)"
    using Suc.prems(1,4) g0 c1 by simp_all
  moreover have "i + 1 + k = n" using Suc.prems(3) by simp
  ultimately obtain v where v:
    "extent_loop k (i + 1) n MU_RULER ?s1 = Inr (?s1\<lparr>m_hash_table := (m_hash_table ?s1)(MU_RULER := v)\<rparr>)"
    "\<forall>j < n. vget v j = (if i + 1 \<le> j then Inr ((f j)\<lparr>hr_bucket := of_nat (j + n)\<rparr>) else vget (m_hash_table ?s1 MU_RULER) j)"
    using Suc.IH[of "i + 1" ?s1] Suc.prems(5) by blast
  have m1: "m_hash_table ?s1 MU_RULER = ?hq" by simp
  have "vget v j = (if i \<le> j then Inr ((f j)\<lparr>hr_bucket := of_nat (j + n)\<rparr>) else vget ?h j)" if "j < n" for j
    using v(2)[unfolded m1 g0] that i(1) by (cases "j = i") auto
  then show ?case unfolding step v(1) hash_table_twice by (intro exI[of _ v] conjI refl) simp
qed

lemma sint_small_u32: "n < 2 ^ 31 \<Longrightarrow> nat (sint (of_nat n :: u32)) = n"
proof -
  assume n: "n < 2 ^ 31"
  then have "sint (of_nat n :: u32) = int n"
    by (simp add: sint_uint uint_nat unat_u32 signed_take_bit_eq_if_positive bit_iff_odd take_bit_nat_eq_self_iff take_bit_int_eq_self_iff)
  then show ?thesis by simp
qed

lemma extent_order_eq:
  assumes "loaded t n s" "2 * n < 2 ^ 31" "extent_loop n 0 n t s = Inr (s\<lparr>m_hash_table := (m_hash_table s)(t := v)\<rparr>)"
    "unat (m_current_version s t + 1) < vcapacity (m_order_table s t)"
  shows "\<exists>w. new_extent_order t s = Inr (s\<lparr>m_hash_table := (m_hash_table s)(t := v), m_order_table := (m_order_table s)(t := w),
    m_current_version := (m_current_version s)(t := m_current_version s t + 1),
    m_current_mod := (m_current_mod s)(t := m_current_mod s t + 1),
    m_current_bucket_number := (m_current_bucket_number s)(t := of_nat (2 * n))\<rparr>)"
proof -
  have t: "t \<noteq> OTHER_TYPE" "known t = Inr ()" "m_current_bucket_number s t = of_nat n"
    using assms(1) by (cases t; simp add: loaded_def known_def)+
  have n: "nat (sint (of_nat n :: u32)) = n" using assms(2) by (intro sint_small_u32) simp
  show ?thesis using t n assms(3,4)
    by (simp add: new_extent_order_def modify_rule_by_extent_def add_new_order_item_def vset_def Let_def mult.commute) blast
qed

text \<open>
  C16 Doubling the \<open>n\<close> buckets of the storage nodes when the table has room for \<open>2 * n\<close> buckets and
  the log for the next version: the bucket number doubles, the modulus and the version go up by
  one, and bucket \<open>j\<close> is kept where bucket \<open>j mod n\<close> was. (A table that is exactly full is
  overrun, see \<open>su_full_extension_overruns\<close>; a log without room forgets its orders, see
  \<open>order_log_forgets\<close>.)
\<close>

theorem su_extension_correct:
  assumes "loaded SU_RULER n s" "0 < n" "2 * n < 2 ^ 31" "2 * n \<le> vcapacity (m_hash_table s SU_RULER)"
    "unat (m_current_version s SU_RULER + 1) < vcapacity (m_order_table s SU_RULER)"
  shows "\<exists>s'. new_extent_order SU_RULER s = Inr s' \<and> loaded SU_RULER (2 * n) s' \<and>
    m_current_version s' SU_RULER = m_current_version s SU_RULER + 1 \<and> m_current_mod s' SU_RULER = m_current_mod s SU_RULER + 1 \<and>
    (\<forall>j < 2 * n. \<exists>r. get_hash_rule (of_nat (j mod n)) SU_RULER s = Inr (Some r) \<and>
       get_hash_rule (of_nat j) SU_RULER s' = Inr (Some (r\<lparr>hr_bucket := of_nat j\<rparr>)))"
proof -
  define f where "f j = (case vget (m_hash_table s SU_RULER) j of Inr r \<Rightarrow> r | Inl e \<Rightarrow> undefined)" for j
  have f: "\<forall>j < n. vget (m_hash_table s SU_RULER) j = Inr (f j) \<and> hr_bucket (f j) = of_nat j"
    using assms(1) by (auto simp: loaded_def f_def)
  obtain v where v: "extent_loop n 0 n SU_RULER s = Inr (s\<lparr>m_hash_table := (m_hash_table s)(SU_RULER := v)\<rparr>)"
    "\<forall>j. vget v j = (if n \<le> j \<and> j < 2 * n then Inr ((f (j - n))\<lparr>hr_bucket := of_nat j\<rparr>) else vget (m_hash_table s SU_RULER) j)"
    using extent_loop_su[of n s f 0 n] f assms(3,4) by auto
  obtain w where w: "new_extent_order SU_RULER s = Inr (s\<lparr>m_hash_table := (m_hash_table s)(SU_RULER := v),
      m_order_table := (m_order_table s)(SU_RULER := w),
      m_current_version := (m_current_version s)(SU_RULER := m_current_version s SU_RULER + 1),
      m_current_mod := (m_current_mod s)(SU_RULER := m_current_mod s SU_RULER + 1),
      m_current_bucket_number := (m_current_bucket_number s)(SU_RULER := of_nat (2 * n))\<rparr>)" (is "_ = Inr ?s")
    using extent_order_eq[OF assms(1,3) v(1) assms(5)] by blast
  have g: "vget v j = Inr ((f (j mod n))\<lparr>hr_bucket := of_nat j\<rparr>)" if "j < 2 * n" for j
  proof (cases "n \<le> j")
    case True
    then have "j mod n = j - n" using that by (simp add: mod_if)
    then show ?thesis using v(2) True that by simp
  next
    case False
    then have "(f j)\<lparr>hr_bucket := of_nat j\<rparr> = f j" using f by (metis hash_rule.surjective hash_rule.update_convs(1) not_le)
    then show ?thesis using v(2) f False by simp
  qed
  have l: "loaded SU_RULER (2 * n) ?s" using g assms(3) by (auto simp: loaded_def)
  have "\<exists>r. get_hash_rule (of_nat (j mod n)) SU_RULER s = Inr (Some r) \<and>
       get_hash_rule (of_nat j) SU_RULER ?s = Inr (Some (r\<lparr>hr_bucket := of_nat j\<rparr>))" if "j < 2 * n" for j
  proof -
    have "j mod n < n" using assms(2) by simp
    then have "get_hash_rule (of_nat (j mod n)) SU_RULER s = Inr (Some (f (j mod n)))"
      using get_hash_rule_loaded[OF assms(1)] f by blast
    moreover have "get_hash_rule (of_nat j) SU_RULER ?s = Inr (Some ((f (j mod n))\<lparr>hr_bucket := of_nat j\<rparr>))"
      by (rule get_hash_rule_loaded[OF l that]) (simp add: g[OF that])
    ultimately show ?thesis by blast
  qed
  then show ?thesis using w l by (intro exI[of _ ?s]) simp
qed

text \<open>
  Doubling the buckets of the metadata nodes when the table was filled by index, as the loading
  code does: the items pushed to the back overwrite the old ones, and asking for any of the old
  buckets afterwards ends the process.
\<close>

theorem mu_extension_kills:
  assumes "loaded MU_RULER n s" "used (m_hash_table s MU_RULER) = 0" "i < n" "2 * n < 2 ^ 31"
    "2 * n \<le> vcapacity (m_hash_table s MU_RULER)"
    "unat (m_current_version s MU_RULER + 1) < vcapacity (m_order_table s MU_RULER)"
  shows "\<exists>s'. new_extent_order MU_RULER s = Inr s' \<and> get_hash_rule (of_nat i) MU_RULER s' = Inl Killed"
proof -
  define f where "f j = (case vget (m_hash_table s MU_RULER) j of Inr r \<Rightarrow> r | Inl e \<Rightarrow> undefined)" for j
  have f: "\<forall>j < n. vget (m_hash_table s MU_RULER) j = Inr (f j)"
    using assms(1) by (auto simp: loaded_def f_def)
  obtain v where v: "extent_loop n 0 n MU_RULER s = Inr (s\<lparr>m_hash_table := (m_hash_table s)(MU_RULER := v)\<rparr>)"
    "\<forall>j < n. vget v j = Inr ((f j)\<lparr>hr_bucket := of_nat (j + n)\<rparr>)"
    using extent_loop_mu[of 0 n s f n] f assms(2,4,5) by auto
  obtain w where w: "new_extent_order MU_RULER s = Inr (s\<lparr>m_hash_table := (m_hash_table s)(MU_RULER := v),
      m_order_table := (m_order_table s)(MU_RULER := w),
      m_current_version := (m_current_version s)(MU_RULER := m_current_version s MU_RULER + 1),
      m_current_mod := (m_current_mod s)(MU_RULER := m_current_mod s MU_RULER + 1),
      m_current_bucket_number := (m_current_bucket_number s)(MU_RULER := of_nat (2 * n))\<rparr>)" (is "_ = Inr ?s")
    using extent_order_eq[OF assms(1,4) v(1) assms(6)] by blast
  have "(of_nat (i + n) :: u32) \<noteq> of_nat i" using of_nat_u32_eq[of "i + n" i] assms(3,4) by auto
  moreover have "\<not> of_nat (2 * n) \<le> (of_nat i :: u32)" using of_nat_u32_less[of i "2 * n"] assms(3,4) by (auto simp: not_le)
  moreover have "unat (of_nat i :: u32) = i" using unat_u32[of i] assms(3,4) by auto
  ultimately have "get_hash_rule (of_nat i) MU_RULER ?s = Inl Killed"
    using v(2) assms(3) by (simp add: get_hash_rule_def known_def)
  then show ?thesis using w by blast
qed

text \<open>
  The two ways in which growing fails: a storage table that is exactly full writes behind its
  storage, and a log that has to grow forgets every order it held.
\<close>

theorem su_full_extension_overruns:
  assumes "loaded SU_RULER n s" "0 < n" "n < 2 ^ 31" "vcapacity (m_hash_table s SU_RULER) = n"
  shows "new_extent_order SU_RULER s = Inl Out_Of_Bounds"
proof -
  obtain r where "vget (m_hash_table s SU_RULER) 0 = Inr r" using assms(1,2) by (auto simp: loaded_def)
  moreover obtain k where "n = Suc k" using assms(2) by (cases n) auto
  moreover have "unat (of_nat n :: u32) = n" using assms(3) unat_u32[of n] by simp
  ultimately have "extent_loop n 0 n SU_RULER s = Inl Out_Of_Bounds"
    using assms(4) by (simp add: add_new_hash_item_def vset_def)
  then show ?thesis using assms(1) sint_small_u32[OF assms(3)]
    by (simp add: new_extent_order_def modify_rule_by_extent_def loaded_def known_def Let_def)
qed

theorem order_log_forgets:
  assumes "t \<noteq> OTHER_TYPE" "vec_ok (m_order_table s t)" "used (m_order_table s t) = 0"
    "vcapacity (m_order_table s t) \<le> unat (or_version r)" "unat (or_version r) < 2 ^ 30"
    "i < vcapacity (m_order_table s t)"
  shows "\<exists>s'. add_new_order_item r t s = Inr s' \<and> vget (m_order_table s' t) i = Inl Uninitialised"
proof -
  let ?v = "m_order_table s t" and ?n = "unat (or_version r)"
  have "unat (or_version r * 2 + 1) = ?n * 2 + 1" using assms(5) by (simp add: unat_word_ariths)
  then have g: "vget (vreserve (unat (or_version r * 2 + 1)) ?v) i = Inl Uninitialised"
    "?n < vcapacity (vreserve (unat (or_version r * 2 + 1)) ?v)"
    using vget_vreserve[OF assms(2), of "?n * 2 + 1" i] vreserve_capacity[OF assms(2), of "?n * 2 + 1"] assms(3,4,6) by auto
  obtain w where w: "vset ?n r (vreserve (unat (or_version r * 2 + 1)) ?v) = Inr w" using vset_ok[OF g(2)] by blast
  then have "vget w i = Inl Uninitialised" using vget_vset[OF w] g(1) assms(4,6) by auto
  moreover have "add_new_order_item r t s = Inr (s\<lparr>m_order_table := (m_order_table s)(t := w)\<rparr>)"
    using w assms(1,4) by (simp add: add_new_order_item_def Let_def)
  ultimately show ?thesis by simp
qed

text \<open>Two buckets in tables with room for eight.\<close>

definition demo_rules :: rules where
  "demo_rules = (let r0 = \<lparr>hr_bucket = 0, hr_ip = [11, 12, 0, 0, 0]\<rparr>; r1 = \<lparr>hr_bucket = 1, hr_ip = [12, 13, 0, 0, 0]\<rparr> in
     \<lparr>m_current_version = \<lambda>t. 0, m_current_mod = \<lambda>t. 1, m_current_bucket_number = \<lambda>t. 2,
      m_hash_table = \<lambda>t. \<lparr>cells = [Some r0, Some r1, None, None, None, None, None, None], used = 0\<rparr>,
      m_order_table = \<lambda>t. \<lparr>cells = replicate 8 None, used = 0\<rparr>\<rparr>)"

lemma demo_rules_loaded: "t \<noteq> OTHER_TYPE \<Longrightarrow> loaded t 2 demo_rules"
proof -
  have "i = 0 \<or> i = 1" if "i < (2::nat)" for i using that by linarith
  then show "t \<noteq> OTHER_TYPE \<Longrightarrow> loaded t 2 demo_rules"
    by (force simp: loaded_def demo_rules_def vget_def vcapacity_def Let_def)
qed

lemma demo_rules_fields [simp]:
  "m_current_version demo_rules t = 0" "vcapacity (m_hash_table demo_rules t) = 8" "vcapacity (m_order_table demo_rules t) = 8"
  "used (m_hash_table demo_rules t) = 0"
  "vget (m_hash_table demo_rules t) (Suc 0) = Inr \<lparr>hr_bucket = 1, hr_ip = [12, 13, 0, 0, 0]\<rparr>"
  by (simp_all add: demo_rules_def vcapacity_def vget_def Let_def)

lemma migration_correct_witness:
  "\<exists>s'. new_migration_order 1 12 14 SU_RULER demo_rules = Inr s' \<and>
     get_hash_rule 1 SU_RULER s' = Inr (Some \<lparr>hr_bucket = 1, hr_ip = [14, 13, 0, 0, 0]\<rparr>)"
proof -
  have l: "loaded SU_RULER 2 demo_rules" by (rule demo_rules_loaded) simp
  obtain s' where "new_migration_order 1 12 14 SU_RULER demo_rules = Inr s'"
    "\<forall>i < 2. get_hash_rule (of_nat i) SU_RULER s' = (if i = 1 then Inr (Some \<lparr>hr_bucket = 1, hr_ip = [14, 13, 0, 0, 0]\<rparr>)
       else get_hash_rule (of_nat i) SU_RULER demo_rules)"
    using migration_correct[OF l, of 1 "\<lparr>hr_bucket = 1, hr_ip = [12, 13, 0, 0, 0]\<rparr>" 12 14]
    by (auto simp: INVALID_IP_def)
  moreover from this(2)[rule_format, of 1]
  have "get_hash_rule (of_nat 1) SU_RULER s' = Inr (Some \<lparr>hr_bucket = 1, hr_ip = [14, 13, 0, 0, 0]\<rparr>)" by simp
  ultimately show ?thesis by auto
qed

lemma su_extension_correct_witness:
  "\<exists>s' r. new_extent_order SU_RULER demo_rules = Inr s' \<and> get_hash_rule (of_nat (3 mod 2)) SU_RULER demo_rules = Inr (Some r) \<and>
     get_hash_rule (of_nat 3) SU_RULER s' = Inr (Some (r\<lparr>hr_bucket := of_nat 3\<rparr>))"
proof -
  have l: "loaded SU_RULER 2 demo_rules" by (rule demo_rules_loaded) simp
  obtain s' where "new_extent_order SU_RULER demo_rules = Inr s'"
    "\<forall>j < 2 * 2. \<exists>r. get_hash_rule (of_nat (j mod 2)) SU_RULER demo_rules = Inr (Some r) \<and>
       get_hash_rule (of_nat j) SU_RULER s' = Inr (Some (r\<lparr>hr_bucket := of_nat j\<rparr>))"
    using su_extension_correct[OF l] by auto
  moreover have "(3::nat) < 2 * 2" by simp
  ultimately show ?thesis by blast
qed

lemma mu_extension_kills_witness:
  "\<exists>s'. new_extent_order MU_RULER demo_rules = Inr s' \<and> get_hash_rule (of_nat 0) MU_RULER s' = Inl Killed"
  by (rule mu_extension_kills[of 2]) (simp_all add: demo_rules_loaded)

end
