(* ===== verification/Recycler.thy ===== *)
theory Recycler
  imports Rule_Tables "HOL-Library.AList"
begin

text \<open>
  The rubbish recycler: \<open>RCManager\<close> of \<open>Rubbish_cycler/MonitorServer/src/rubbish_recycler.cpp\<close>, with
  \<open>RC_agent.cpp\<close> as far as it passes events on and \<open>RC_protocol.h\<close>. It hands out buckets to nodes, follows
  their heartbeats, grants the token to upload or download a bitmap and retries nodes that fail.
  Agents live at addresses: \<open>rc_heap\<close> gives the IP of a live agent. What is written to an agent is
  appended to \<open>outbox\<close>; \<open>write_fails\<close> says which write fails. The sizes that are computed in floating
  point are parameters.
\<close>

subsection \<open>Messages\<close>

definition RC_CS_NODE_INIT_MSG :: u32 where "RC_CS_NODE_INIT_MSG = 0x52430000"
definition RC_CS_NODE_INIT_MSG_ACK :: u32 where "RC_CS_NODE_INIT_MSG_ACK = 0x52430001"
definition RC_CS_NODE_HEARTBEAT_MSG :: u32 where "RC_CS_NODE_HEARTBEAT_MSG = 0x52430002"
definition RC_CS_NODE_HEARTBEAT_MSG_ACK :: u32 where "RC_CS_NODE_HEARTBEAT_MSG_ACK = 0x52430003"
definition RC_CS_NODE_START_BUCKET_MSG :: u32 where "RC_CS_NODE_START_BUCKET_MSG = 0x5243000A"
definition RC_CS_NODE_START_BUCKET_MSG_ACK :: u32 where "RC_CS_NODE_START_BUCKET_MSG_ACK = 0x5243000B"
definition RC_NODE_CS_GET_TOKEN_MSG :: u32 where "RC_NODE_CS_GET_TOKEN_MSG = 0x5243000E"
definition RC_NODE_CS_GET_TOKEN_MSG_ACK :: u32 where "RC_NODE_CS_GET_TOKEN_MSG_ACK = 0x5243000F"
definition RC_MU_CS_UPLOAD_BITMAP_MSG :: u32 where "RC_MU_CS_UPLOAD_BITMAP_MSG = 0x52430012"
definition RC_MU_CS_UPLOAD_BITMAP_MSG_ACK :: u32 where "RC_MU_CS_UPLOAD_BITMAP_MSG_ACK = 0x52430013"
definition RC_SU_CS_DOWNLOAD_BITMAP_MSG :: u32 where "RC_SU_CS_DOWNLOAD_BITMAP_MSG = 0x52430014"
definition RC_SU_CS_DOWNLOAD_BITMAP_MSG_ACK :: u32 where "RC_SU_CS_DOWNLOAD_BITMAP_MSG_ACK = 0x52430015"
definition NODE_CS_BUCKET_FINISH_MSG :: u32 where "NODE_CS_BUCKET_FINISH_MSG = 0x52430016"

lemmas rc_commands = RC_CS_NODE_INIT_MSG_def RC_CS_NODE_INIT_MSG_ACK_def RC_CS_NODE_HEARTBEAT_MSG_def
  RC_CS_NODE_HEARTBEAT_MSG_ACK_def RC_CS_NODE_START_BUCKET_MSG_def RC_CS_NODE_START_BUCKET_MSG_ACK_def
  RC_NODE_CS_GET_TOKEN_MSG_def RC_NODE_CS_GET_TOKEN_MSG_ACK_def RC_MU_CS_UPLOAD_BITMAP_MSG_def
  RC_MU_CS_UPLOAD_BITMAP_MSG_ACK_def RC_SU_CS_DOWNLOAD_BITMAP_MSG_def RC_SU_CS_DOWNLOAD_BITMAP_MSG_ACK_def
  NODE_CS_BUCKET_FINISH_MSG_def

record node_init =
  ni_bitmap_size :: u64
  ni_block_bits :: u16
  ni_hash_num :: u16
  ni_hash :: "int list"

text \<open>What one call of \<open>write_data\<close> puts on a connection: a header (command, length, error) or a body.\<close>

datatype chunk = Header u32 u32 u32 | Init_Body node_init | Bucket_Body u32

text \<open>A message that arrives: command, error and the words of the body, if there is one.\<close>

record rc_req =
  rq_cmd :: u32
  rq_error :: u32
  rq_body :: "u32 list option"

definition body_word :: "nat \<Rightarrow> rc_req \<Rightarrow> u32 run" where
  "body_word i q = (case rq_body q of None \<Rightarrow> Inl Null_Deref | Some ws \<Rightarrow> at ws i)"

subsection \<open>The state\<close>

datatype BucketState = NOT_START | WORKING | FINISHED

definition INITING :: u32 where "INITING = 0"

record bucket_rule =
  br_status :: BucketState
  br_bucket :: u32
  br_ip :: "u32 list"
  br_using :: u32

record node_state =
  ns_bucket :: u32
  ns_state :: u32
  ns_items :: u32
  ns_cpu :: u32
  ns_disk :: u32
  ns_net :: u32
  ns_time :: int

datatype RCState = START_RUBBISH_RECYCLER | GENERATE_BITMAP | FINISH_ALL_BITMAP | CHECK_INFOHASH | FINISH_RECYCLER | IDEL_STATE

record rcm =
  m_agent_index :: u32
  m_scale :: u64
  m_bitmap_size :: u64
  m_hash_numbers :: u64
  m_block_bits :: u16
  m_current_hash_ids :: "int list"
  m_all_rules :: "bucket_rule list"
  m_current_token_holders :: u16
  m_max_token_holders :: u16
  m_token_apply_list :: "u32 list"
  m_timer :: bool
  m_all_agents :: "(u32 \<times> nat option) list"
  m_all_heartbeats :: "(u32 \<times> node_state) list"
  m_retry_list :: "u32 list"
  m_current_state :: RCState
  rc_heap :: "nat \<Rightarrow> u32 option"
  rc_next :: nat
  outbox :: "(nat \<times> chunk) list"
  write_count :: nat

record rc_env =
  write_fails :: "nat \<Rightarrow> bool"
  init_fails :: "u32 \<Rightarrow> nat \<Rightarrow> bool"
  timer_fails :: bool
  rc_now :: int
  rc_bits :: u64
  rc_hashes :: u64

definition MAX_TOKEN_HOLDS :: u16 where "MAX_TOKEN_HOLDS = 1"

definition new_rcm :: "u16 \<Rightarrow> rcm" where
  "new_rcm unset = \<lparr>m_agent_index = 0, m_scale = 0, m_bitmap_size = 0, m_hash_numbers = 0, m_block_bits = unset,
     m_current_hash_ids = [], m_all_rules = [], m_current_token_holders = 0, m_max_token_holders = MAX_TOKEN_HOLDS,
     m_token_apply_list = [], m_timer = False, m_all_agents = [], m_all_heartbeats = [], m_retry_list = [],
     m_current_state = IDEL_STATE, rc_heap = \<lambda>p. None, rc_next = 0, outbox = [], write_count = 0\<rparr>"

text \<open>\<open>std::map\<close> as the list of its entries in order: \<open>insert\<close> keeps an entry, \<open>operator[]\<close> replaces it.\<close>

definition map_insert :: "u32 \<Rightarrow> 'b \<Rightarrow> (u32 \<times> 'b) list \<Rightarrow> (u32 \<times> 'b) list" where
  "map_insert k v m = (if map_of m k = None then insort_key fst (k, v) m else m)"

definition map_put :: "u32 \<Rightarrow> 'b \<Rightarrow> (u32 \<times> 'b) list \<Rightarrow> (u32 \<times> 'b) list" where
  "map_put k v m = (if map_of m k = None then insort_key fst (k, v) m
     else map (\<lambda>(k', v'). (k', if k' = k then v else v')) m)"

definition agent_ip :: "nat \<Rightarrow> rcm \<Rightarrow> u32 run" where
  "agent_ip p s = (case rc_heap s p of None \<Rightarrow> Inl Dangling | Some ip \<Rightarrow> Inr ip)"

text \<open>\<open>RCAgent::write_data\<close>\<close>

definition write_data :: "rc_env \<Rightarrow> nat \<Rightarrow> chunk \<Rightarrow> rcm \<Rightarrow> (int \<times> rcm) run" where
  "write_data e p c s = and_then (agent_ip p s) (\<lambda>ip. let s1 = s\<lparr>write_count := write_count s + 1\<rparr> in
     Inr (if write_fails e (write_count s) then (- 1, s1) else (0, s1\<lparr>outbox := outbox s @ [(p, c)]\<rparr>)))"

text \<open>Two writes joined by \<open>||\<close>: the second is tried when the first has succeeded.\<close>

definition write_both :: "rc_env \<Rightarrow> nat \<Rightarrow> chunk \<Rightarrow> chunk \<Rightarrow> rcm \<Rightarrow> (int \<times> rcm) run" where
  "write_both e p c d s = and_then (write_data e p c s) (\<lambda>(r, s1). if r \<noteq> 0 then Inr (- 1, s1) else write_data e p d s1)"

subsection \<open>Errors of a node\<close>

definition agent_connect_error :: "nat \<Rightarrow> rcm \<Rightarrow> rcm run" where
  "agent_connect_error p s = and_then (agent_ip p s) (\<lambda>ip. Inr (s\<lparr>m_retry_list := m_retry_list s @ [ip]\<rparr>))"

text \<open>The bucket of the failed node is given back, after three assertions.\<close>

definition release_bucket :: "u32 \<Rightarrow> node_state \<Rightarrow> rcm \<Rightarrow> rcm run" where
  "release_bucket ip node s =
     (if ns_state node = INITING then Inr s
      else let b = unat (ns_bucket node) in and_then (at (m_all_rules s) b) (\<lambda>r.
        if ns_bucket node \<noteq> br_bucket r \<or> ip \<noteq> br_using r \<or> br_status r \<noteq> WORKING then Inl Assert_Failed
        else Inr (s\<lparr>m_all_rules := (m_all_rules s)[b := r\<lparr>br_status := NOT_START, br_using := 0\<rparr>]\<rparr>)))"

definition agent_run_error :: "nat \<Rightarrow> rcm \<Rightarrow> rcm run" where
  "agent_run_error p s = and_then (agent_ip p s) (\<lambda>ip.
     and_then (case map_of (m_all_heartbeats s) ip of
         None \<Rightarrow> Inr s
       | Some node \<Rightarrow> and_then (release_bucket ip node s) (\<lambda>s1.
           Inr (s1\<lparr>m_all_heartbeats := AList.delete ip (m_all_heartbeats s1)\<rparr>))) (\<lambda>s2.
       Inr (s2\<lparr>m_retry_list := m_retry_list s2 @ [ip], m_all_agents := map_put ip None (m_all_agents s2)\<rparr>)))"

subsection \<open>Commands to a node\<close>

definition send_first_command :: "rc_env \<Rightarrow> nat \<Rightarrow> rcm \<Rightarrow> (int \<times> rcm) run" where
  "send_first_command e p s = and_then (agent_ip p s) (\<lambda>ip.
     let node = \<lparr>ns_bucket = 0, ns_state = INITING, ns_items = 0, ns_cpu = 0, ns_disk = 0, ns_net = 0, ns_time = rc_now e\<rparr>;
         s1 = s\<lparr>m_all_heartbeats := map_insert ip node (m_all_heartbeats s)\<rparr>; n = unat (m_hash_numbers s)
     in if 20 < n \<or> length (m_current_hash_ids s) < n then Inl Out_Of_Bounds
        else write_both e p (Header RC_CS_NODE_INIT_MSG 72 0)
          (Init_Body \<lparr>ni_bitmap_size = m_bitmap_size s, ni_block_bits = m_block_bits s, ni_hash_num = ucast (m_hash_numbers s),
             ni_hash = take n (m_current_hash_ids s)\<rparr>) s1)"

text \<open>The loop of \<open>find_next_bucket\<close>: how many were finished before it stopped, and where it stopped.\<close>

fun next_loop :: "u32 \<Rightarrow> bucket_rule list \<Rightarrow> nat \<Rightarrow> nat \<times> bucket_rule option" where
  "next_loop ip [] n = (n, None)"
| "next_loop ip (r # rs) n =
     (if br_status r = FINISHED then next_loop ip rs (n + 1)
      else if br_status r = NOT_START \<and> ip \<in> set (br_ip r) then (n, Some r)
      else next_loop ip rs n)"

definition find_next_bucket :: "u32 \<Rightarrow> rcm \<Rightarrow> int" where
  "find_next_bucket ip s = (let (n, found) = next_loop ip (m_all_rules s) 0 in
     if n = length (m_all_rules s) then - 2
     else case found of Some r \<Rightarrow> sint (br_bucket r) | None \<Rightarrow> - 1)"

text \<open>The header announces the size of \<open>Bucket_Info\<close>, 8 bytes; the body is a \<open>BucketInfo\<close>, 4 bytes.\<close>

definition start_bucket :: "rc_env \<Rightarrow> nat \<Rightarrow> int \<Rightarrow> rcm \<Rightarrow> (int \<times> rcm) run" where
  "start_bucket e p b s = run_map (\<lambda>(r, s1). (if r < 0 then - 1 else 0, s1))
     (write_both e p (Header RC_CS_NODE_START_BUCKET_MSG 8 0) (Bucket_Body (of_int b)) s)"

subsection \<open>Starting a run\<close>

text \<open>
  \<open>get_all_rules\<close>: the number of buckets is that of the asked type, the rules are always those of the
  metadata nodes.
\<close>

fun rules_loop :: "nat \<Rightarrow> nat \<Rightarrow> rules \<Rightarrow> bucket_rule list \<Rightarrow> (int \<times> bucket_rule list) run" where
  "rules_loop 0 i t acc = Inr (0, acc)"
| "rules_loop (Suc k) i t acc = and_then (get_hash_rule (of_nat i) MU_RULER t) (\<lambda>q. case q of
       None \<Rightarrow> Inr (- 1, acc)
     | Some h \<Rightarrow> rules_loop k (i + 1) t
         (acc @ [\<lparr>br_status = NOT_START, br_bucket = of_nat i, br_ip = hr_ip h, br_using = INVALID_IP\<rparr>]))"

definition insert_nodes :: "bucket_rule list \<Rightarrow> (u32 \<times> nat option) list \<Rightarrow> (u32 \<times> nat option) list" where
  "insert_nodes rs m = fold (\<lambda>ip m. if ip \<noteq> INVALID_IP then map_insert ip None m else m) (concat (map br_ip rs)) m"

definition get_all_rules :: "RULE_TYPE \<Rightarrow> rules \<Rightarrow> rcm \<Rightarrow> (int \<times> rcm) run" where
  "get_all_rules ty t s = and_then (get_bucket_number ty t) (\<lambda>nb. let n = nat (sint nb) in
     and_then (rules_loop n 0 t (m_all_rules s)) (\<lambda>(r, rs). let s1 = s\<lparr>m_all_rules := rs\<rparr> in
       Inr (if r < 0 then (- 1, s1) else (0, s1\<lparr>m_all_agents := insert_nodes (take n rs) (m_all_agents s1)\<rparr>))))"

text \<open>
  One agent for each node; a node that cannot be connected to goes to the retry list. The two loops of the
  code, which create the agents and then connect them, are one here.
\<close>

definition connect_one :: "rc_env \<Rightarrow> u32 \<Rightarrow> rcm \<Rightarrow> rcm" where
  "connect_one e ip s = (let p = rc_next s; s1 = s\<lparr>rc_heap := (rc_heap s)(p := Some ip), rc_next := p + 1\<rparr> in
     if init_fails e ip p then s1\<lparr>m_retry_list := m_retry_list s1 @ [ip]\<rparr> else s1)"

fun connect_nodes :: "rc_env \<Rightarrow> (u32 \<times> nat option) list \<Rightarrow> rcm \<Rightarrow> (u32 \<times> nat option) list \<times> rcm" where
  "connect_nodes e [] s = ([], s)"
| "connect_nodes e ((ip, old) # m) s =
     (let (m', s') = connect_nodes e m (connect_one e ip s) in ((ip, Some (rc_next s)) # m', s'))"

definition connect_all_node_start_rc :: "rc_env \<Rightarrow> rcm \<Rightarrow> int \<times> rcm" where
  "connect_all_node_start_rc e s = (if timer_fails e then (- 1, s)
     else let (m, s1) = connect_nodes e (m_all_agents s) s in (0, s1\<lparr>m_all_agents := m, m_timer := True\<rparr>))"

definition init_paramaters :: "rc_env \<Rightarrow> rcm \<Rightarrow> rcm" where
  "init_paramaters e s = (let blocks = 2 * 2 ^ 8 :: u32; unit = ucast (blocks * 4 - 1) :: u64 in
     s\<lparr>m_bitmap_size := ((rc_bits e div 8) + unit) AND ucast (NOT (blocks * 4 - 1)),
       m_hash_numbers := rc_hashes e, m_block_bits := 8\<rparr>)"

text \<open>
  The loop that draws hash functions: \<open>i\<close> are chosen, the random numbers are a list. It compares with the
  first \<open>i\<close> identifiers of the vector, whatever they are; \<open>None\<close> when the list is used up.
\<close>

fun choice_loop :: "int list \<Rightarrow> nat \<Rightarrow> nat \<Rightarrow> int list \<Rightarrow> int list run option" where
  "choice_loop rnd n i ids = (if n \<le> i then Some (Inr ids)
     else case rnd of [] \<Rightarrow> None
       | x # rnd' \<Rightarrow> let hid = x mod 20 in
           if length ids < i \<and> hid \<notin> set ids then Some (Inl Out_Of_Bounds)
           else if hid \<in> set (take i ids) then choice_loop rnd' n i ids
           else choice_loop rnd' n (i + 1) (ids @ [hid]))"

declare choice_loop.simps [simp del]

definition choice_hash_functions :: "int list \<Rightarrow> rcm \<Rightarrow> rcm run option" where
  "choice_hash_functions rnd s = map_option (run_map (\<lambda>ids. s\<lparr>m_current_hash_ids := ids\<rparr>))
     (choice_loop rnd (unat (m_hash_numbers s)) 0 (m_current_hash_ids s))"

definition start_do_recycler :: "rc_env \<Rightarrow> int list \<Rightarrow> u32 \<Rightarrow> u64 \<Rightarrow> rules \<Rightarrow> rcm \<Rightarrow> (int \<times> rcm) run option" where
  "start_do_recycler e rnd index scale t s =
     (let s1 = init_paramaters e (s\<lparr>m_current_state := START_RUBBISH_RECYCLER, m_scale := scale, m_agent_index := index\<rparr>)
      in map_option (\<lambda>c. and_then c (\<lambda>s2. and_then (get_all_rules MU_RULER t s2) (\<lambda>(r, s3).
           if r < 0 then Inr (- 1, s3\<lparr>m_current_state := IDEL_STATE\<rparr>)
           else let (r', s4) = connect_all_node_start_rc e s3 in
             Inr (if r' < 0 then (- 1, s4) else (0, s4\<lparr>m_current_state := GENERATE_BITMAP\<rparr>)))))
         (choice_hash_functions rnd s1))"

subsection \<open>The end of a phase\<close>

text \<open>Deleting the agents of the map: a node that has failed has no agent, and its pointer is followed.\<close>

fun delete_agents :: "(u32 \<times> nat option) list \<Rightarrow> rcm \<Rightarrow> rcm run" where
  "delete_agents [] s = Inr s"
| "delete_agents ((ip, q) # m) s = (case q of
       None \<Rightarrow> Inl Null_Deref
     | Some p \<Rightarrow> and_then (agent_ip p s) (\<lambda>i. delete_agents m (s\<lparr>rc_heap := (rc_heap s)(p := None)\<rparr>)))"

definition start_merge_all_bitmap :: "rc_env \<Rightarrow> rules \<Rightarrow> rcm \<Rightarrow> (int \<times> rcm) run" where
  "start_merge_all_bitmap e t s =
     (let first = (m_current_state s = GENERATE_BITMAP);
          s1 = s\<lparr>m_current_state := (if first then FINISH_ALL_BITMAP else FINISH_RECYCLER), m_all_rules := [],
                 m_current_token_holders := 0, m_token_apply_list := []\<rparr>
      in and_then (delete_agents (m_all_agents s1) s1) (\<lambda>s2.
        let s3 = s2\<lparr>m_all_agents := [], m_all_heartbeats := [], m_retry_list := []\<rparr> in
        if \<not> first then Inr (0, s3\<lparr>m_timer := False\<rparr>)
        else and_then (get_all_rules SU_RULER t s3) (\<lambda>(r, s4).
          if r < 0 then Inr (- 1, s4\<lparr>m_current_state := IDEL_STATE\<rparr>)
          else let (r', s5) = connect_all_node_start_rc e s4 in
            Inr (if r' < 0 then (- 1, s5) else (0, s5\<lparr>m_current_state := CHECK_INFOHASH\<rparr>)))))"

subsection \<open>Messages from a node\<close>

text \<open>A heartbeat: \<open>operator[]\<close> gives a null pointer for a node without heartbeats.\<close>

definition deal_heartbeat :: "rc_env \<Rightarrow> rc_req \<Rightarrow> nat \<Rightarrow> rcm \<Rightarrow> (int \<times> rcm) run" where
  "deal_heartbeat e q p s = and_then (agent_ip p s) (\<lambda>ip.
     case map_of (m_all_heartbeats s) ip of
       None \<Rightarrow> Inl Null_Deref
     | Some st \<Rightarrow> and_then (body_word 0 q) (\<lambda>b.
         if ns_bucket st \<noteq> b then Inl Assert_Failed
         else and_then (body_word 1 q) (\<lambda>state. and_then (body_word 2 q) (\<lambda>items. and_then (body_word 3 q) (\<lambda>cpu.
           and_then (body_word 4 q) (\<lambda>disk. and_then (body_word 5 q) (\<lambda>net_speed.
           let st' = st\<lparr>ns_state := state, ns_items := items, ns_cpu := cpu, ns_disk := disk, ns_net := net_speed, ns_time := rc_now e\<rparr>;
               s1 = s\<lparr>m_all_heartbeats := map_put ip st' (m_all_heartbeats s)\<rparr>
           in run_map (\<lambda>(r, s2). (if r \<noteq> 0 then - 1 else 0, s2)) (write_data e p (Header RC_CS_NODE_HEARTBEAT_MSG_ACK 0 0) s1))))))))"

text \<open>After a start was refused another bucket is looked for; bucket 0 is not started here.\<close>

definition deal_start_ack :: "rc_env \<Rightarrow> rc_req \<Rightarrow> nat \<Rightarrow> rcm \<Rightarrow> (int \<times> rcm) run" where
  "deal_start_ack e q p s = and_then (body_word 0 q) (\<lambda>b. and_then (agent_ip p s) (\<lambda>ip.
     if rq_error q = 0 then and_then (at (m_all_rules s) (unat b)) (\<lambda>r.
       Inr (0, s\<lparr>m_all_rules := (m_all_rules s)[unat b := r\<lparr>br_status := WORKING, br_bucket := b, br_using := ip\<rparr>]\<rparr>))
     else let n = find_next_bucket ip s in
       if 0 < n then run_map (\<lambda>(r, s1). (if r \<noteq> 0 then - 1 else 0, s1)) (start_bucket e p n s)
       else Inr (0, s)))"

text \<open>The token: refused and queued while all tokens are held; \<open>m_current_token_holders\<close> only goes up.\<close>

definition deal_get_token :: "rc_env \<Rightarrow> nat \<Rightarrow> rcm \<Rightarrow> (int \<times> rcm) run" where
  "deal_get_token e p s = and_then (agent_ip p s) (\<lambda>ip.
     let full = (m_current_token_holders s = m_max_token_holders s);
         s1 = (if full then s\<lparr>m_token_apply_list := m_token_apply_list s @ [ip]\<rparr>
               else s\<lparr>m_current_token_holders := m_current_token_holders s + 1\<rparr>)
     in run_map (\<lambda>(r, s2). (if r < 0 then - 1 else 0, s2))
          (write_data e p (Header RC_NODE_CS_GET_TOKEN_MSG_ACK 0 (if full then 1 else 0)) s1))"

text \<open>The end of an upload or download passes the token on to the first node that waits for it.\<close>

definition pass_token :: "rc_env \<Rightarrow> rcm \<Rightarrow> (int \<times> rcm) run" where
  "pass_token e s = (case m_token_apply_list s of
       [] \<Rightarrow> Inr (0, s)
     | ip # ips \<Rightarrow> let s1 = s\<lparr>m_token_apply_list := ips\<rparr> in
         (case map_of (m_all_agents s1) ip of
            None \<Rightarrow> Inr (0, s1)
          | Some None \<Rightarrow> Inl Null_Deref
          | Some (Some p) \<Rightarrow> and_then (write_data e p (Header RC_NODE_CS_GET_TOKEN_MSG_ACK 0 0) s1) (\<lambda>(r, s2).
              if r < 0 then run_map (Pair 0) (agent_run_error p s2) else Inr (0, s2))))"

definition deal_bitmap_done :: "rc_env \<Rightarrow> rc_req \<Rightarrow> nat \<Rightarrow> rcm \<Rightarrow> (int \<times> rcm) run" where
  "deal_bitmap_done e q p s =
     (let ack = (if rq_cmd q = RC_SU_CS_DOWNLOAD_BITMAP_MSG then RC_SU_CS_DOWNLOAD_BITMAP_MSG_ACK
                 else RC_MU_CS_UPLOAD_BITMAP_MSG_ACK)
      in and_then (write_data e p (Header ack 0 0) s) (\<lambda>(r, s1). if r \<noteq> 0 then Inr (- 1, s1) else pass_token e s1))"

text \<open>The first place of an address in a rule.\<close>

fun position :: "u32 \<Rightarrow> u32 list \<Rightarrow> nat" where
  "position ip [] = 0"
| "position ip (x # xs) = (if x = ip then 0 else Suc (position ip xs))"

definition mark_finished :: "rc_req \<Rightarrow> u32 \<Rightarrow> bucket_rule \<Rightarrow> bucket_rule run" where
  "mark_finished q ip r =
     (if rq_error q \<noteq> 0 then
        let i = position ip (br_ip r) in
        if i = length (br_ip r) then Inl Assert_Failed
        else Inr (r\<lparr>br_status := NOT_START, br_using := 0, br_ip := (br_ip r)[i := 0]\<rparr>)
      else Inr (r\<lparr>br_status := FINISHED, br_using := 0\<rparr>))"

definition start_next :: "rc_env \<Rightarrow> rules \<Rightarrow> u32 \<Rightarrow> nat \<Rightarrow> rcm \<Rightarrow> (int \<times> rcm) run" where
  "start_next e t ip p s = (let n = find_next_bucket ip s in
     if n = - 2 then run_map (\<lambda>(r, s1). (0, s1)) (start_merge_all_bitmap e t s)
     else if n < 0 then Inr (0, s)
     else start_bucket e p n s)"

definition deal_bucket_finish :: "rc_env \<Rightarrow> rules \<Rightarrow> rc_req \<Rightarrow> nat \<Rightarrow> rcm \<Rightarrow> (int \<times> rcm) run" where
  "deal_bucket_finish e t q p s = and_then (body_word 0 q) (\<lambda>b. and_then (at (m_all_rules s) (unat b)) (\<lambda>r.
     and_then (agent_ip p s) (\<lambda>ip. and_then (mark_finished q ip r) (\<lambda>r'.
       start_next e t ip p (s\<lparr>m_all_rules := (m_all_rules s)[unat b := r']\<rparr>)))))"

definition deal_with_data :: "rc_env \<Rightarrow> rules \<Rightarrow> rc_req \<Rightarrow> nat \<Rightarrow> rcm \<Rightarrow> (int \<times> rcm) run" where
  "deal_with_data e t q p s =
     (if rq_cmd q = RC_CS_NODE_INIT_MSG_ACK then
        (if rq_error q \<noteq> 0 then run_map (\<lambda>(r, s1). (0, s1)) (send_first_command e p s) else Inr (0, s))
      else if rq_cmd q = RC_CS_NODE_HEARTBEAT_MSG then deal_heartbeat e q p s
      else if rq_cmd q = RC_CS_NODE_START_BUCKET_MSG_ACK then deal_start_ack e q p s
      else if rq_cmd q = RC_NODE_CS_GET_TOKEN_MSG then deal_get_token e p s
      else if rq_cmd q = RC_MU_CS_UPLOAD_BITMAP_MSG \<or> rq_cmd q = RC_SU_CS_DOWNLOAD_BITMAP_MSG then deal_bitmap_done e q p s
      else if rq_cmd q = NODE_CS_BUCKET_FINISH_MSG then deal_bucket_finish e t q p s
      else Inr (0, s))"

text \<open>
  The events an agent reports. Recycling an agent reports an error first. The argument of the callback
  is the agent itself in every call, so the test for a null pointer of the last case never fails. After
  \<open>Connect_Failed\<close>, and after a failed read, the event loop recycles the agent, which reports
  \<open>Unknown_Error\<close>, and deletes it; the deletion is a step of its own in \<open>rc_history\<close>.
\<close>

datatype rc_event = Connect_Failed | Connect_Success | Arrived rc_req | Write_Failed | Unknown_Error | Other_Event

definition rc_recycler :: "nat \<Rightarrow> rcm \<Rightarrow> rcm run" where
  "rc_recycler p s = agent_run_error p s"

definition agent_callback :: "rc_env \<Rightarrow> rules \<Rightarrow> rc_event \<Rightarrow> nat \<Rightarrow> rcm \<Rightarrow> rcm run" where
  "agent_callback e t ev p s = (case ev of
       Connect_Failed \<Rightarrow> agent_connect_error p s
     | Connect_Success \<Rightarrow> and_then (send_first_command e p s) (\<lambda>(r, s1).
         if r < 0 then and_then (rc_recycler p s1) (\<lambda>s2. Inr (s2\<lparr>rc_heap := (rc_heap s2)(p := None)\<rparr>)) else Inr s1)
     | Arrived q \<Rightarrow> and_then (deal_with_data e t q p s) (\<lambda>(r, s1). if r < 0 then agent_run_error p s1 else Inr s1)
     | Write_Failed \<Rightarrow> agent_run_error p s
     | Unknown_Error \<Rightarrow> agent_run_error p s
     | Other_Event \<Rightarrow> agent_run_error p s)"

subsection \<open>The timer\<close>

text \<open>
  A node that has been silent for too long: its entry is erased from the map the loop is walking
  through, and the walk goes on from the erased entry.
\<close>

fun silent_loop :: "rc_env \<Rightarrow> (u32 \<times> node_state) list \<Rightarrow> rcm \<Rightarrow> rcm run" where
  "silent_loop e [] s = Inr s"
| "silent_loop e ((ip, st) # m) s =
     (if rc_now e - ns_time st \<le> 20 then silent_loop e m s
      else case map_of (m_all_agents s) ip of
        None \<Rightarrow> Inl Dangling
      | Some None \<Rightarrow> Inl Null_Deref
      | Some (Some p) \<Rightarrow> and_then (agent_run_error p s) (\<lambda>s1.
          if map_of (m_all_heartbeats s1) ip = None then Inl Dangling else silent_loop e m s1))"

text \<open>
  Reconnecting: a failure leaves the loop at the same entry, with a new agent; the loop has the given
  number of rounds. An agent is told its address before it is connected.
\<close>

fun retry_loop :: "nat \<Rightarrow> rc_env \<Rightarrow> u32 list \<Rightarrow> rcm \<Rightarrow> rcm run" where
  "retry_loop n e [] s = Inr s"
| "retry_loop 0 e (ip # ips) s = Inl Diverges"
| "retry_loop (Suc n) e (ip # ips) s =
     (let p = rc_next s; s1 = s\<lparr>rc_next := p + 1\<rparr> in
      case map_of (m_all_agents s) ip of
        None \<Rightarrow> retry_loop n e (ip # ips) s1
      | Some old \<Rightarrow> let s2 = s1\<lparr>rc_heap := (rc_heap s1)(p := Some ip)\<rparr> in
          if init_fails e ip p then retry_loop n e (ip # ips) s2
          else retry_loop n e ips (s2\<lparr>m_retry_list := ips, m_all_agents := map_put ip (Some p) (m_all_agents s2)\<rparr>))"

definition check_heartbeat_state :: "nat \<Rightarrow> rc_env \<Rightarrow> rcm \<Rightarrow> rcm run" where
  "check_heartbeat_state n e s =
     (if m_current_state s \<noteq> GENERATE_BITMAP \<and> m_current_state s \<noteq> CHECK_INFOHASH then Inr s
      else and_then (silent_loop e (m_all_heartbeats s) s) (\<lambda>s1. retry_loop n e (m_retry_list s1) s1))"

end
