(* ===== verification/Recycler_Correct.thy ===== *)
theory Recycler_Correct
  imports Recycler
begin

text \<open>
  What the rubbish recycler of the theory \<open>Recycler\<close> does: the choice of the next bucket, the size of the
  bitmap and the hash functions, the invariant of the states \<open>RCManager\<close> reaches, and what follows from it
  for tokens, heartbeats and silent nodes; starting a run and reconnecting nodes.
\<close>

subsection \<open>Choosing the next bucket\<close>

lemma next_loop_finished: "fst (next_loop ip rs n) \<le> n + length rs"
proof (induction rs arbitrary: n)
  case (Cons r rs)
  show ?case using Cons[of "n + 1"] Cons[of n] by auto
qed simp

lemma next_loop_all:
  "fst (next_loop ip rs n) = n + length rs \<longleftrightarrow> (\<forall>r \<in> set rs. br_status r = FINISHED)"
proof (induction rs arbitrary: n)
  case (Cons r rs)
  show ?case using Cons[of "n + 1"] Cons[of n] next_loop_finished[of ip rs n] by (auto simp: not_le)
qed simp

definition fits :: "u32 \<Rightarrow> bucket_rule \<Rightarrow> bool" where
  "fits ip r \<longleftrightarrow> br_status r = NOT_START \<and> ip \<in> set (br_ip r)"

lemma next_loop_found: "snd (next_loop ip rs n) = find (fits ip) rs"
  by (induction rs arbitrary: n) (auto simp: fits_def)

lemma find_next_bucket_eq:
  "find_next_bucket ip s = (if \<forall>r \<in> set (m_all_rules s). br_status r = FINISHED then - 2
     else case find (fits ip) (m_all_rules s) of Some r \<Rightarrow> sint (br_bucket r) | None \<Rightarrow> - 1)"
  using next_loop_all[of ip "m_all_rules s" 0] next_loop_found[of ip "m_all_rules s" 0]
  by (auto simp: find_next_bucket_def case_prod_unfold Let_def)

text \<open>Every rule stands at the place of its bucket.\<close>

definition rules_ok :: "bucket_rule list \<Rightarrow> bool" where
  "rules_ok rs \<longleftrightarrow> length rs < 2 ^ 31 \<and> (\<forall>i < length rs. br_bucket (rs ! i) = of_nat i)"

lemma sint_of_nat_u32: "n < 2 ^ 31 \<Longrightarrow> sint (of_nat n :: u32) = int n"
  by (simp add: sint_uint uint_nat unat_u32 signed_take_bit_eq_if_positive bit_iff_odd take_bit_nat_eq_self_iff
      take_bit_int_eq_self_iff)

text \<open>
  C30 The next bucket for a node: \<open>- 2\<close> exactly when every bucket is finished, otherwise the first bucket
  that is not started and that the node keeps, and \<open>- 1\<close> when there is none.
\<close>

theorem find_next_bucket_correct:
  assumes "rules_ok (m_all_rules s)"
  shows "(find_next_bucket ip s = - 2 \<longleftrightarrow> (\<forall>r \<in> set (m_all_rules s). br_status r = FINISHED)) \<and>
    (\<forall>b. find_next_bucket ip s = int b \<longleftrightarrow>
       b < length (m_all_rules s) \<and> fits ip (m_all_rules s ! b) \<and> (\<forall>i < b. \<not> fits ip (m_all_rules s ! i))) \<and>
    (find_next_bucket ip s = - 1 \<longleftrightarrow> (\<exists>r \<in> set (m_all_rules s). br_status r \<noteq> FINISHED) \<and>
       (\<forall>r \<in> set (m_all_rules s). \<not> fits ip r))"
proof -
  let ?rs = "m_all_rules s"
  have nth: "sint (br_bucket (?rs ! i)) = int i" if "i < length ?rs" for i
    using assms that sint_of_nat_u32[of i] by (auto simp: rules_ok_def)
  have fin: "(\<exists>r \<in> set ?rs. fits ip r) \<longrightarrow> \<not> (\<forall>r \<in> set ?rs. br_status r = FINISHED)"
    by (force simp: fits_def)
  show ?thesis
  proof (cases "find (fits ip) ?rs")
    case None
    then have "\<forall>r \<in> set ?rs. \<not> fits ip r" by (simp add: find_None_iff)
    then show ?thesis using None by (auto simp: find_next_bucket_eq dest: nth_mem)
  next
    case (Some r)
    then obtain i where i: "i < length ?rs" "fits ip (?rs ! i)" "r = ?rs ! i" "\<forall>j < i. \<not> fits ip (?rs ! j)"
      by (auto simp: find_Some_iff)
    then have e: "find_next_bucket ip s = int i" using fin nth Some by (auto simp: find_next_bucket_eq)
    have "i = b" if "b < length ?rs" "fits ip (?rs ! b)" "\<forall>j < b. \<not> fits ip (?rs ! j)" for b
      using that i by (meson linorder_neqE_nat)
    then have "\<forall>b. int i = int b \<longleftrightarrow> b < length ?rs \<and> fits ip (?rs ! b) \<and> (\<forall>j < b. \<not> fits ip (?rs ! j))"
      using i by (metis of_nat_eq_iff)
    moreover have ex: "\<exists>r \<in> set ?rs. fits ip r" using i(1,2) nth_mem by blast
    moreover have "(\<forall>r \<in> set ?rs. br_status r = FINISHED) = False" using ex fin by blast
    moreover have "(\<forall>r \<in> set ?rs. \<not> fits ip r) = False" using ex by blast
    ultimately show ?thesis unfolding e by (intro conjI) simp_all
  qed
qed

subsection \<open>Sizes and hash functions\<close>

text \<open>The size of a bitmap: rounded up to 2048 bytes, and cut to 32 bits by a mask that is too narrow.\<close>

lemma bitmap_size_eq:
  "unat (m_bitmap_size (init_paramaters e s)) = (unat (rc_bits e div 8) + 2047) mod 2 ^ 32 div 2048 * 2048"
proof -
  have m: "(ucast (NOT (2047 :: u32)) :: u64) = mask 32 AND NOT (mask 11)"
    by (simp add: mask_eq_exp_minus_1)
  have b: "unat (rc_bits e div 8) < 2 ^ 61"
    using unsigned_less[of "rc_bits e", where 'a = nat] by (simp add: unat_div_distrib less_mult_imp_div_less)
  let ?x = "(rc_bits e div 8) + 2047"
  have u: "unat ?x = unat (rc_bits e div 8) + 2047" using b by (simp add: unat_word_ariths)
  have "m_bitmap_size (init_paramaters e s) = ?x AND ucast (NOT (2047 :: u32))"
    by (simp add: init_paramaters_def Let_def)
  also have "\<dots> = take_bit 32 ?x AND NOT (mask 11)" by (simp only: m take_bit_eq_mask and.assoc)
  also have "\<dots> = push_bit 11 (drop_bit 11 (take_bit 32 ?x))" 
    by (intro bit_word_eqI) (auto simp: bit_simps)
  finally have e: "unat (m_bitmap_size (init_paramaters e s)) =
      take_bit 64 (push_bit 11 (drop_bit 11 (take_bit 32 (unat ?x))))"
    by (simp add: unsigned_push_bit_eq unsigned_drop_bit_eq unsigned_take_bit_eq)
  have "push_bit 11 (drop_bit 11 (take_bit 32 (unat ?x))) \<le> take_bit 32 (unat ?x)"
    by (simp add: push_bit_eq_mult drop_bit_eq_div)
  also have "\<dots> < 2 ^ 64" using take_bit_nat_less_exp[of 32 "unat ?x"] by simp
  finally show ?thesis using e u by (simp add: take_bit_nat_eq_self push_bit_eq_mult drop_bit_eq_div take_bit_eq_mod)
qed

text \<open>
  C35 The size of a bitmap, in bytes, is a multiple of 2048 below 4 GB. The bits that are asked for are
  first cut to whole bytes; when these are few enough, the size is the smallest multiple of 2048 that
  holds the whole bytes. It is then too small for the bits exactly when the whole bytes are already a
  multiple of 2048 and some bits are left over, and what is missing is less than a byte: 16391 bits
  get 2048 bytes, and 7 bits get none.
\<close>

theorem bitmap_size_bounds:
  "2048 dvd unat (m_bitmap_size (init_paramaters e s)) \<and> unat (m_bitmap_size (init_paramaters e s)) < 2 ^ 32 \<and>
   (unat (rc_bits e div 8) + 2047 < 2 ^ 32 \<longrightarrow>
      unat (rc_bits e div 8) \<le> unat (m_bitmap_size (init_paramaters e s)) \<and>
      unat (m_bitmap_size (init_paramaters e s)) < unat (rc_bits e div 8) + 2048 \<and>
      unat (rc_bits e) < 8 * unat (m_bitmap_size (init_paramaters e s)) + 8 \<and>
      (8 * unat (m_bitmap_size (init_paramaters e s)) < unat (rc_bits e) \<longleftrightarrow>
         2048 dvd unat (rc_bits e div 8) \<and> \<not> 8 dvd unat (rc_bits e)))"
proof -
  define b where "b = unat (rc_bits e div 8)"
  define m where "m = (b + 2047) mod 2 ^ 32 div 2048 * 2048"
  have m: "unat (m_bitmap_size (init_paramaters e s)) = m" by (simp only: bitmap_size_eq m_def b_def)
  have b: "b = unat (rc_bits e) div 8" by (simp add: b_def unat_div_distrib)
  have dvd: "2048 dvd m" by (simp add: m_def)
  have "m \<le> (b + 2047) mod 2 ^ 32" by (simp add: m_def)
  then have lt: "m < 2 ^ 32" by (rule order_le_less_trans) simp
  have "b \<le> m \<and> m < b + 2048 \<and> unat (rc_bits e) < 8 * m + 8 \<and>
      (8 * m < unat (rc_bits e) \<longleftrightarrow> 2048 dvd b \<and> \<not> 8 dvd unat (rc_bits e))" if small: "b + 2047 < 2 ^ 32"
  proof -
    have "m = (b + 2047) div 2048 * 2048" using small by (simp add: m_def)
    moreover have "b + 2047 = 2048 * ((b + 2047) div 2048) + (b + 2047) mod 2048" "(b + 2047) mod 2048 < 2048" by simp_all
    ultimately have r: "b \<le> m" "m < b + 2048" by linarith+
    define c where "c = unat (rc_bits e) mod 8"
    have c: "unat (rc_bits e) = 8 * b + c" "c < 8" using b by (simp_all add: c_def)
    have "unat (rc_bits e) < 8 * b + 8" using c by linarith
    moreover have "8 * m < unat (rc_bits e) \<longleftrightarrow> m = b \<and> c \<noteq> 0"
    proof
      show "m = b \<and> c \<noteq> 0" if "8 * m < unat (rc_bits e)" using that c r(1) by linarith
      show "8 * m < unat (rc_bits e)" if "m = b \<and> c \<noteq> 0" using that c by linarith
    qed
    moreover have "m = b \<longleftrightarrow> 2048 dvd b"
    proof
      assume "2048 dvd b"
      then obtain n where n: "b = 2048 * n" by (rule dvdE)
      obtain n' where "m = 2048 * n'" using dvd by (rule dvdE)
      then have "n \<le> n'" "n' < n + 1" "m = 2048 * n'" using n r by simp_all
      then show "m = b" using n by linarith
    qed (use dvd in simp)
    moreover have "8 dvd unat (rc_bits e) \<longleftrightarrow> c = 0" by (simp add: c_def dvd_eq_mod_eq_0)
    ultimately show ?thesis using r by linarith
  qed
  then show ?thesis using dvd lt unfolding m b_def[symmetric] by blast
qed

text \<open>What has been drawn: different identifiers below 20, one for each of the first places.\<close>

lemma choice_loop_result:
  assumes "choice_loop rnd n i ids = Some (Inr out)" "length ids = i" "distinct ids" "set ids \<subseteq> {0..<20}"
    "i \<le> n"
  shows "length out = n \<and> distinct out \<and> set out \<subseteq> {0..<20} \<and> take i out = ids"
  using assms
proof (induction rnd n i ids rule: choice_loop.induct)
  case (1 rnd n i ids)
  show ?case
  proof (cases "n \<le> i")
    case True
    then show ?thesis using "1.prems" by (auto simp: choice_loop.simps[of rnd])
  next
    case False
    then obtain x rnd' where r: "rnd = x # rnd'" using "1.prems"(1)
      by (cases rnd) (auto simp: choice_loop.simps[of "[]"])
    show ?thesis
    proof (cases "x mod 20 \<in> set ids")
      case True
      then show ?thesis using False r "1.prems" "1.IH"(1)[OF False r refl]
        by (auto simp: choice_loop.simps[of "x # rnd'"] Let_def)
    next
      case new: False
      then have "choice_loop rnd' n (i + 1) (ids @ [x mod 20]) = Some (Inr out)"
        using False r "1.prems" by (auto simp: choice_loop.simps[of "x # rnd'"] Let_def)
      then have "length out = n \<and> distinct out \<and> set out \<subseteq> {0..<20} \<and> take (i + 1) out = ids @ [x mod 20]"
        using "1.IH"(2)[OF False r refl] "1.prems" new False by auto
      then show ?thesis using "1.prems"(2)
        by (metis append_eq_conv_conj le_add1 min.absorb1 take_take)
    qed
  qed
qed

text \<open>
  From an empty vector, the hash functions that are chosen are pairwise different numbers below 20, as
  many as were asked for; more than 20 can never be chosen, whatever the random numbers are.
\<close>

theorem choice_hash_correct:
  assumes "m_current_hash_ids s = []" and "choice_hash_functions rnd s = Some (Inr s')"
  shows "length (m_current_hash_ids s') = unat (m_hash_numbers s) \<and> distinct (m_current_hash_ids s') \<and>
    set (m_current_hash_ids s') \<subseteq> {0..<20} \<and> unat (m_hash_numbers s) \<le> 20 \<and>
    s' = s\<lparr>m_current_hash_ids := m_current_hash_ids s'\<rparr>"
proof -
  obtain ids where c: "choice_loop rnd (unat (m_hash_numbers s)) 0 [] = Some (Inr ids)"
      and s': "s' = s\<lparr>m_current_hash_ids := ids\<rparr>"
    using assms by (auto simp: choice_hash_functions_def run_map_eq_Inr)
  have r: "length ids = unat (m_hash_numbers s)" "distinct ids" "set ids \<subseteq> {0..<20}"
    using choice_loop_result[OF c] by auto
  then have "length ids \<le> card {0..<20 :: int}"
    using card_mono[of "{0..<20 :: int}" "set ids"] distinct_card[of ids] by simp
  then show ?thesis using r s' by simp
qed

subsection \<open>The invariant of the manager\<close>

text \<open>
  The rule at a place has the number of an earlier bucket, or of this one, and of this one when every
  run was started with no rules left (\<open>al\<close>); the state of a node never leaves bucket 0; the tokens that
  are out are at most those there are.
\<close>

definition rules_at :: "bool \<Rightarrow> bucket_rule list \<Rightarrow> bool" where
  "rules_at al rs \<longleftrightarrow> (al \<longrightarrow> length rs < 2 ^ 31) \<and> (\<forall>i < length rs. unat (br_bucket (rs ! i)) \<le> i \<and> (al \<longrightarrow> br_bucket (rs ! i) = of_nat i))"

definition hb_ok :: "(u32 \<times> node_state) list \<Rightarrow> bool" where
  "hb_ok m \<longleftrightarrow> (\<forall>(ip, st) \<in> set m. ns_bucket st = 0)"

text \<open>An agent in the map is one for its node, as long as it has not been deleted.\<close>

definition agents_ok :: "rcm \<Rightarrow> bool" where
  "agents_ok s \<longleftrightarrow> (\<forall>ip p. map_of (m_all_agents s) ip = Some (Some p) \<longrightarrow>
     p < rc_next s \<and> (rc_heap s p = None \<or> rc_heap s p = Some ip))"

definition rc_ok :: "bool \<Rightarrow> rcm \<Rightarrow> bool" where
  "rc_ok al s \<longleftrightarrow> rules_at al (m_all_rules s) \<and> hb_ok (m_all_heartbeats s) \<and> agents_ok s \<and>
     m_current_token_holders s \<le> m_max_token_holders s \<and> m_max_token_holders s = MAX_TOKEN_HOLDS"

lemma rc_okI [intro]:
  "rules_at al (m_all_rules s) \<Longrightarrow> hb_ok (m_all_heartbeats s) \<Longrightarrow> agents_ok s \<Longrightarrow> m_current_token_holders s \<le> m_max_token_holders s \<Longrightarrow>
   m_max_token_holders s = MAX_TOKEN_HOLDS \<Longrightarrow> rc_ok al s"
  by (simp add: rc_ok_def)

lemma hb_ok_simps [simp]: "hb_ok []" "hb_ok ((ip, st) # m) \<longleftrightarrow> ns_bucket st = 0 \<and> hb_ok m"
  by (auto simp: hb_ok_def)

lemma hb_ok_map_of: "hb_ok m \<Longrightarrow> map_of m ip = Some st \<Longrightarrow> ns_bucket st = 0"
  by (auto simp: hb_ok_def dest: map_of_SomeD)

lemma hb_ok_insert: "hb_ok m \<Longrightarrow> ns_bucket st = 0 \<Longrightarrow> hb_ok (map_insert ip st m)"
  by (auto simp: hb_ok_def map_insert_def set_insort_key)

lemma hb_ok_put: "hb_ok m \<Longrightarrow> ns_bucket st = 0 \<Longrightarrow> hb_ok (map_put ip st m)"
  by (auto simp: hb_ok_def map_put_def set_insort_key)

lemma AList_delete_subset: "set (AList.delete k m) \<subseteq> set m"
  by (auto simp: AList.delete_eq)

lemma hb_ok_delete: "hb_ok m \<Longrightarrow> hb_ok (AList.delete ip m)"
  by (auto simp: hb_ok_def dest: subsetD[OF AList_delete_subset])

lemma map_of_map_values: "map_of (map (\<lambda>(k', v'). (k', if k' = k then v else v')) m) j =
   (if j = k then map_option (\<lambda>x. v) (map_of m k) else map_of m j)"
  by (induction m) auto

lemma map_of_insort_new: "map_of m k = None \<Longrightarrow> map_of (insort_key fst (k, v) m) j = (if j = k then Some v else map_of m j)"
  by (induction m) (auto split: if_splits)

lemma map_of_put [simp]: "map_of (map_put k v m) j = (if j = k then Some v else map_of m j)"
  by (auto simp: map_put_def map_of_insort_new map_of_map_values)

lemma map_of_insert [simp]: "map_of (map_insert k v m) j = (if j = k \<and> map_of m k = None then Some v else map_of m j)"
  by (auto simp: map_insert_def map_of_insort_new)

text \<open>A deleted agent, a node without agent and a new agent keep the map in order.\<close>

lemma agents_ok_frame [simp]:
  "agents_ok (s\<lparr>m_agent_index := x0\<rparr>) = agents_ok s"
  "agents_ok (s\<lparr>m_scale := x1\<rparr>) = agents_ok s"
  "agents_ok (s\<lparr>m_bitmap_size := x2\<rparr>) = agents_ok s"
  "agents_ok (s\<lparr>m_hash_numbers := x3\<rparr>) = agents_ok s"
  "agents_ok (s\<lparr>m_block_bits := x4\<rparr>) = agents_ok s"
  "agents_ok (s\<lparr>m_current_hash_ids := x5\<rparr>) = agents_ok s"
  "agents_ok (s\<lparr>m_all_rules := x6\<rparr>) = agents_ok s"
  "agents_ok (s\<lparr>m_current_token_holders := x7\<rparr>) = agents_ok s"
  "agents_ok (s\<lparr>m_token_apply_list := x8\<rparr>) = agents_ok s"
  "agents_ok (s\<lparr>m_timer := x9\<rparr>) = agents_ok s"
  "agents_ok (s\<lparr>m_all_heartbeats := x10\<rparr>) = agents_ok s"
  "agents_ok (s\<lparr>m_retry_list := x11\<rparr>) = agents_ok s"
  "agents_ok (s\<lparr>m_current_state := x12\<rparr>) = agents_ok s"
  by (simp_all add: agents_ok_def)

lemma agents_okD: "agents_ok s \<Longrightarrow> map_of (m_all_agents s) ip = Some (Some p) \<Longrightarrow>
   p < rc_next s \<and> (rc_heap s p = None \<or> rc_heap s p = Some ip)"
  by (simp add: agents_ok_def)

lemma agents_okI: "(\<And>ip p. map_of (m_all_agents s) ip = Some (Some p) \<Longrightarrow>
   p < rc_next s \<and> (rc_heap s p = None \<or> rc_heap s p = Some ip)) \<Longrightarrow> agents_ok s"
  by (simp add: agents_ok_def)

lemma agents_ok_none: "agents_ok s \<Longrightarrow> agents_ok (s\<lparr>m_all_agents := map_put ip None (m_all_agents s)\<rparr>)"
  by (simp add: agents_ok_def)

lemma agents_ok_empty [simp]: "m_all_agents s = [] \<Longrightarrow> agents_ok s"
  by (simp add: agents_ok_def)

lemma agents_ok_delete: "agents_ok s \<Longrightarrow> agents_ok (s\<lparr>rc_heap := (rc_heap s)(p := None)\<rparr>)"
  by (simp add: agents_ok_def)

lemma unat_of_nat_le: "unat (of_nat i :: u32) \<le> i"
  by (simp add: unat_of_nat)

lemma rules_at_Nil [simp]: "rules_at al []"
  by (simp add: rules_at_def)

lemma rules_at_update:
  "rules_at al rs \<Longrightarrow> (i < length rs \<Longrightarrow> br_bucket r = of_nat i \<or> br_bucket r = br_bucket (rs ! i)) \<Longrightarrow> rules_at al (rs[i := r])"
  by (cases "i < length rs") (auto simp: rules_at_def nth_list_update unat_of_nat_le)

lemma rules_at_rules_ok: "rules_at True rs = rules_ok rs"
  by (auto simp: rules_at_def rules_ok_def unat_of_nat_le)

lemma rc_ok_weaken: "rc_ok al s \<Longrightarrow> \<not> al' \<or> al \<Longrightarrow> rc_ok al' s"
  by (auto simp: rc_ok_def rules_at_def)

text \<open>Writing changes what was sent and nothing else.\<close>

definition same_but_output :: "rcm \<Rightarrow> rcm \<Rightarrow> bool" where
  "same_but_output s s' \<longleftrightarrow> s'\<lparr>outbox := outbox s, write_count := write_count s\<rparr> = s"

lemma write_data_same: "write_data e p c s = Inr (r, s') \<Longrightarrow> same_but_output s s' \<and> (r = 0 \<or> r = - 1)"
  by (auto simp: write_data_def same_but_output_def agent_ip_def Let_def split: option.splits if_splits)

lemma same_but_output_trans: "same_but_output s s1 \<Longrightarrow> same_but_output s1 s2 \<Longrightarrow> same_but_output s s2"
  by (cases s; cases s1; cases s2) (simp add: same_but_output_def)

lemma same_but_output_fields:
  assumes "same_but_output s s'"
  shows "m_all_rules s' = m_all_rules s" "m_all_heartbeats s' = m_all_heartbeats s" "m_all_agents s' = m_all_agents s"
    "m_current_token_holders s' = m_current_token_holders s" "m_max_token_holders s' = m_max_token_holders s"
    "m_token_apply_list s' = m_token_apply_list s" "m_current_state s' = m_current_state s"
    "rc_heap s' = rc_heap s" "rc_next s' = rc_next s" "m_retry_list s' = m_retry_list s"
  using assms by (cases s; cases s'; simp add: same_but_output_def)+

lemma same_but_output_agents: "same_but_output s s' \<Longrightarrow> agents_ok s \<Longrightarrow> agents_ok s'"
  by (simp add: agents_ok_def same_but_output_fields)

lemma write_both_same: "write_both e p c d s = Inr (r, s') \<Longrightarrow> same_but_output s s'"
  by (auto simp: write_both_def split: if_splits dest!: write_data_same intro: same_but_output_trans)

lemma start_bucket_same: "start_bucket e p b s = Inr (r, s') \<Longrightarrow> same_but_output s s'"
  by (auto simp: start_bucket_def run_map_eq_Inr dest!: write_both_same)

text \<open>
  What an operation may do: keep the invariant, and as long as the phase lasts never lower the number of
  tokens that are out.
\<close>

definition rc_step :: "bool \<Rightarrow> rcm \<Rightarrow> rcm \<Rightarrow> bool" where
  "rc_step al s s' \<longleftrightarrow> (rc_ok al s \<longrightarrow> rc_ok al s') \<and>
     (rc_ok al s \<and> m_current_state s \<in> {GENERATE_BITMAP, CHECK_INFOHASH} \<and> m_current_state s' = m_current_state s \<longrightarrow>
        m_current_token_holders s \<le> m_current_token_holders s')"

lemma rc_step_refl [simp]: "rc_step al s s"
  by (simp add: rc_step_def)

lemma rc_step_trans:
  "rc_step al s s1 \<Longrightarrow> m_current_state s1 = m_current_state s \<Longrightarrow> rc_step al s1 s2 \<Longrightarrow> rc_step al s s2"
  by (auto simp: rc_step_def intro: order_trans)

lemma rc_step_same: "same_but_output s s' \<Longrightarrow> rc_step al s s'"
  by (auto simp: rc_step_def rc_ok_def same_but_output_fields intro: same_but_output_agents)

text \<open>An operation that keeps al the tables, the tokens and the phase.\<close>

definition keeps :: "bool \<Rightarrow> rcm \<Rightarrow> rcm \<Rightarrow> bool" where
  "keeps al s s' \<longleftrightarrow> m_current_state s' = m_current_state s \<and> m_current_token_holders s \<le> m_current_token_holders s' \<and>
     m_current_token_holders s' \<le> m_max_token_holders s' \<and> m_max_token_holders s' = m_max_token_holders s \<and>
     rules_at al (m_all_rules s') \<and> hb_ok (m_all_heartbeats s') \<and> agents_ok s'"

lemma keeps_rc_step: "(rc_ok al s \<Longrightarrow> keeps al s s') \<Longrightarrow> rc_step al s s'"
  by (auto simp: rc_step_def keeps_def rc_ok_def)

lemma release_keeps: "release_bucket ip node s = Inr s1 \<Longrightarrow> rc_ok al s \<Longrightarrow> keeps al s s1"
  by (auto simp: release_bucket_def Let_def keeps_def rc_ok_def at_eq_Inr intro!: rules_at_update split: if_splits)

lemma agent_run_error_keeps:
  assumes "agent_run_error p s = Inr s'" and "rc_ok al s"
  shows "keeps al s s'"
proof -
  obtain ip s2 where e: "(case map_of (m_all_heartbeats s) ip of None \<Rightarrow> Inr s
         | Some node \<Rightarrow> and_then (release_bucket ip node s) (\<lambda>s1.
             Inr (s1\<lparr>m_all_heartbeats := AList.delete ip (m_all_heartbeats s1)\<rparr>))) = Inr s2"
      and s': "s' = s2\<lparr>m_retry_list := m_retry_list s2 @ [ip], m_all_agents := map_put ip None (m_all_agents s2)\<rparr>"
    using assms(1) unfolding agent_run_error_def by blast
  have k: "keeps al s s2"
  proof (cases "map_of (m_all_heartbeats s) ip")
    case None
    then show ?thesis using e assms(2) by (auto simp: keeps_def rc_ok_def)
  next
    case (Some node)
    then obtain s1 where r: "release_bucket ip node s = Inr s1"
        and s2: "s2 = s1\<lparr>m_all_heartbeats := AList.delete ip (m_all_heartbeats s1)\<rparr>"
      using e by auto
    have "keeps al s s1" using release_keeps[OF r assms(2)] .
    then show ?thesis using s2 by (auto simp: keeps_def intro: hb_ok_delete)
  qed
  have "agents_ok s'" using k s' by (simp add: keeps_def agents_ok_def)
  then show ?thesis using k s' by (auto simp: keeps_def)
qed

lemma keeps_refl: "rc_ok al s \<Longrightarrow> keeps al s s"
  by (auto simp: keeps_def rc_ok_def)

lemma keeps_rc_ok: "keeps al s s' \<Longrightarrow> rc_ok al s \<Longrightarrow> rc_ok al s'"
  by (auto simp: keeps_def rc_ok_def)

lemma keeps_trans: "keeps al s s1 \<Longrightarrow> keeps al s1 s2 \<Longrightarrow> keeps al s s2"
  by (auto simp: keeps_def intro: order_trans)

lemma keeps_same: "same_but_output s s' \<Longrightarrow> rc_ok al s \<Longrightarrow> keeps al s s'"
  by (auto simp: keeps_def rc_ok_def same_but_output_fields intro: same_but_output_agents)

lemma keeps_via: "same_but_output s1 s' \<Longrightarrow> rc_ok al s \<Longrightarrow> keeps al s s1 \<Longrightarrow> keeps al s s'"
  by (blast intro: keeps_same keeps_trans keeps_rc_ok)

lemma send_first_keeps:
  assumes "send_first_command e p s = Inr (r, s')" and "rc_ok al s"
  shows "keeps al s s'"
  using assms
  by (auto simp: send_first_command_def Let_def split: if_splits dest!: write_both_same)
    (erule keeps_via, simp, auto simp: keeps_def rc_ok_def intro!: hb_ok_insert)

lemma deal_heartbeat_keeps:
  assumes "deal_heartbeat e q p s = Inr (r, s')" and "rc_ok al s"
  shows "keeps al s s'"
  using assms
  by (auto simp: deal_heartbeat_def Let_def run_map_eq_Inr split: option.splits if_splits dest!: write_data_same)
    ((erule keeps_via, simp, auto simp: keeps_def rc_ok_def intro!: hb_ok_put dest: hb_ok_map_of)[1])+

lemma deal_start_ack_keeps:
  assumes "deal_start_ack e q p s = Inr (r, s')" and "rc_ok al s"
  shows "keeps al s s'"
proof (cases "rq_error q = 0")
  case True
  then show ?thesis using assms
    by (auto simp: deal_start_ack_def Let_def keeps_def rc_ok_def at_eq_Inr intro!: rules_at_update)
next
  case False
  then show ?thesis using assms
    by (auto simp: deal_start_ack_def Let_def run_map_eq_Inr split: if_splits dest!: start_bucket_same
        intro: keeps_same keeps_refl)
qed

lemma token_increment: "(h :: u16) \<le> m \<Longrightarrow> h \<noteq> m \<Longrightarrow> h \<le> h + 1 \<and> h + 1 \<le> m"
  by unat_arith

lemma deal_get_token_keeps:
  assumes "deal_get_token e p s = Inr (r, s')" and "rc_ok al s"
  shows "keeps al s s'"
  using assms
  by (auto simp: deal_get_token_def Let_def run_map_eq_Inr split: if_splits dest!: write_data_same)
    ((erule keeps_via, simp, auto simp: keeps_def rc_ok_def token_increment)[1])+

lemma pass_token_keeps:
  assumes "pass_token e s = Inr (r, s')" and "rc_ok al s"
  shows "keeps al s s'"
proof (cases "m_token_apply_list s")
  case Nil
  then show ?thesis using assms by (auto simp: pass_token_def keeps_refl)
next
  case (Cons ip ips)
  let ?s1 = "s\<lparr>m_token_apply_list := ips\<rparr>"
  have ok1: "rc_ok al ?s1" and k1: "keeps al s ?s1" using assms(2) by (auto simp: rc_ok_def keeps_def)
  show ?thesis
  proof (cases "map_of (m_all_agents s) ip")
    case None
    then show ?thesis using assms Cons k1 by (auto simp: pass_token_def Let_def)
  next
    case (Some q)
    then obtain p where p: "q = Some p" using assms Cons by (cases q) (auto simp: pass_token_def Let_def)
    then obtain r1 s2 where w: "write_data e p (Header RC_NODE_CS_GET_TOKEN_MSG_ACK 0 0) ?s1 = Inr (r1, s2)"
        and s': "if r1 < 0 then run_map (Pair 0) (agent_run_error p s2) = Inr (r, s') else (r, s') = (0, s2)"
      using assms Cons Some by (auto simp: pass_token_def Let_def split: if_splits)
    have k2: "keeps al ?s1 s2" using keeps_same[OF conjunct1[OF write_data_same[OF w]] ok1] .
    then have k12: "keeps al s s2" using keeps_trans[OF k1] by blast
    then show ?thesis using s' agent_run_error_keeps[of p s2 s'] keeps_rc_ok[OF k2 ok1]
      by (auto simp: run_map_eq_Inr split: if_splits intro: keeps_trans)
  qed
qed

lemma deal_bitmap_done_keeps:
  assumes "deal_bitmap_done e q p s = Inr (r, s')" and "rc_ok al s"
  shows "keeps al s s'"
proof -
  obtain c r1 s1 where w: "write_data e p c s = Inr (r1, s1)"
      and r: "if r1 \<noteq> 0 then (r, s') = (- 1, s1) else pass_token e s1 = Inr (r, s')"
    using assms(1) by (auto simp: deal_bitmap_done_def Let_def split: if_splits)
  have k: "keeps al s s1" using keeps_same[OF conjunct1[OF write_data_same[OF w]] assms(2)] .
  show ?thesis using r k pass_token_keeps[of e s1 r s'] keeps_rc_ok[OF k assms(2)]
    by (auto split: if_splits intro: keeps_trans)
qed

lemma insert_rules_at:
  assumes "rules_loop k i t acc = Inr (r, rs)" and "rules_at al acc" and "i \<le> length acc" and "al \<Longrightarrow> length acc = i" and "i + k < 2 ^ 31"
  shows "rules_at al rs"
  using assms
proof (induction k i t acc rule: rules_loop.induct)
  case (2 k i t acc)
  have "rules_at al (acc @ [\<lparr>br_status = NOT_START, br_bucket = of_nat i, br_ip = ips, br_using = INVALID_IP\<rparr>])" for ips
    using "2.prems" unat_of_nat_le[of i] by (auto simp: rules_at_def nth_append less_Suc_eq)
  then show ?case using "2.prems" "2.IH" by (auto split: option.splits)
qed simp

lemma insert_nodes_entry: "map_of (insert_nodes rs m) ip = Some q \<Longrightarrow> map_of m ip = Some q \<or> q = None"
proof -
  have "map_of (fold (\<lambda>ip m. if ip \<noteq> INVALID_IP then map_insert ip None m else m) ips m) ip = Some q \<Longrightarrow>
      map_of m ip = Some q \<or> q = None" for ips
  proof (induction ips arbitrary: m)
    case (Cons x ips)
    then have "map_of (if x \<noteq> INVALID_IP then map_insert x None m else m) ip = Some q \<or> q = None" by simp
    then show ?case by (auto split: if_splits)
  qed simp
  then show "map_of (insert_nodes rs m) ip = Some q \<Longrightarrow> map_of m ip = Some q \<or> q = None" by (simp add: insert_nodes_def)
qed

lemma get_all_rules_step:
  assumes "get_all_rules ty t s = Inr (r, s')" and "rc_ok al s" and "al \<Longrightarrow> m_all_rules s = []"
  shows "rc_ok al s' \<and> m_current_state s' = m_current_state s"
proof -
  obtain nb r1 rs where l: "rules_loop (nat (sint (nb :: u32))) 0 t (m_all_rules s) = Inr (r1, rs)"
      and s': "m_all_rules s' = rs" "m_all_heartbeats s' = m_all_heartbeats s" "m_current_state s' = m_current_state s"
        "m_current_token_holders s' = m_current_token_holders s" "m_max_token_holders s' = m_max_token_holders s"
    using assms(1) by (auto simp: get_all_rules_def Let_def split: if_splits)
  have "nat (sint nb) < 2 ^ 31" using sint_lt[of nb] by simp
  then have ok: "rules_at al rs"
    by (intro insert_rules_at[OF l]) (use assms(2,3) in \<open>auto simp: rc_ok_def\<close>)
  have "(\<forall>ip p. map_of (m_all_agents s') ip = Some (Some p) \<longrightarrow> map_of (m_all_agents s) ip = Some (Some p)) \<and>
      rc_heap s' = rc_heap s \<and> rc_next s' = rc_next s"
    using assms(1) by (auto simp: get_all_rules_def Let_def split: if_splits dest!: insert_nodes_entry)
  then have "agents_ok s'" using assms(2) agents_okD[of s] unfolding rc_ok_def by (intro agents_okI) metis
  then show ?thesis using s' assms(2) ok by (auto simp: rc_ok_def)
qed

lemma connect_one_fields:
  "m_all_rules (connect_one e ip s) = m_all_rules s" "m_all_heartbeats (connect_one e ip s) = m_all_heartbeats s"
  "m_current_state (connect_one e ip s) = m_current_state s"
  "m_current_token_holders (connect_one e ip s) = m_current_token_holders s"
  "m_max_token_holders (connect_one e ip s) = m_max_token_holders s"
  "m_token_apply_list (connect_one e ip s) = m_token_apply_list s"
  "m_all_agents (connect_one e ip s) = m_all_agents s"
  "rc_next (connect_one e ip s) = rc_next s + 1"
  "rc_heap (connect_one e ip s) = (rc_heap s)(rc_next s := Some ip)"
  by (simp_all add: connect_one_def Let_def)

lemma connect_nodes_keeps: "connect_nodes e m s = (m', s') \<Longrightarrow>
   m_all_rules s' = m_all_rules s \<and> m_all_heartbeats s' = m_all_heartbeats s \<and> m_current_state s' = m_current_state s \<and>
   m_current_token_holders s' = m_current_token_holders s \<and> m_max_token_holders s' = m_max_token_holders s \<and>
   m_token_apply_list s' = m_token_apply_list s"
proof (induction m arbitrary: s m' s')
  case (Cons a m)
  then show ?case by (cases a) (auto split: prod.splits simp: connect_one_fields)
qed simp

text \<open>After connecting, every node has an agent of its own.\<close>

lemma connect_nodes_agents:
  assumes "connect_nodes e m s = (m', s')"
  shows "map fst m' = map fst m \<and> rc_next s \<le> rc_next s' \<and> (\<forall>p < rc_next s. rc_heap s' p = rc_heap s p) \<and>
    m_all_agents s' = m_all_agents s \<and>
    (\<forall>(ip, q) \<in> set m'. \<exists>p. q = Some p \<and> rc_next s \<le> p \<and> p < rc_next s' \<and> rc_heap s' p = Some ip)"
  using assms
proof (induction m arbitrary: s m' s')
  case (Cons a m)
  obtain ip old where a: "a = (ip, old)" by force
  obtain m1 where r: "connect_nodes e m (connect_one e ip s) = (m1, s')" and m': "m' = (ip, Some (rc_next s)) # m1"
    using Cons.prems a by (auto split: prod.splits)
  note ih = Cons.IH[OF r]
  have "rc_heap s' (rc_next s) = Some ip" using ih by (simp add: connect_one_fields)
  moreover have "\<exists>p. q = Some p \<and> rc_next s \<le> p \<and> p < rc_next s' \<and> rc_heap s' p = Some i" if "(i, q) \<in> set m1" for i q
  proof -
    have "\<exists>p. q = Some p \<and> rc_next s + 1 \<le> p \<and> p < rc_next s' \<and> rc_heap s' p = Some i"
      using ih that by (auto simp: connect_one_fields)
    then show ?thesis by auto
  qed
  ultimately show ?case using ih m' a by (auto simp: connect_one_fields)
qed simp

lemma connect_all_agents: "connect_all_node_start_rc e s = (r, s') \<Longrightarrow> agents_ok s \<Longrightarrow> agents_ok s'"
proof -
  assume c: "connect_all_node_start_rc e s = (r, s')" and ok: "agents_ok s"
  show "agents_ok s'"
  proof (cases "timer_fails e")
    case True
    then show ?thesis using c ok by (simp add: connect_all_node_start_rc_def)
  next
    case False
    then obtain m s1 where n: "connect_nodes e (m_all_agents s) s = (m, s1)" and s': "s' = s1\<lparr>m_all_agents := m, m_timer := True\<rparr>"
      using c by (auto simp: connect_all_node_start_rc_def split: prod.splits)
    show ?thesis using connect_nodes_agents[OF n] s' by (fastforce simp: agents_ok_def dest: map_of_SomeD)
  qed
qed

lemma connect_all_keeps: "connect_all_node_start_rc e s = (r, s') \<Longrightarrow>
   m_all_rules s' = m_all_rules s \<and> m_all_heartbeats s' = m_all_heartbeats s \<and> m_current_state s' = m_current_state s \<and>
   m_current_token_holders s' = m_current_token_holders s \<and> m_max_token_holders s' = m_max_token_holders s \<and>
   m_token_apply_list s' = m_token_apply_list s"
  by (auto simp: connect_all_node_start_rc_def split: if_splits prod.splits dest!: connect_nodes_keeps)

lemma connect_all_ok: "connect_all_node_start_rc e s = (r, s') \<Longrightarrow> rc_ok al s \<Longrightarrow> rc_ok al s' \<and> m_current_state s' = m_current_state s"
  using connect_all_keeps[of e s r s'] connect_all_agents[of e s r s'] by (auto simp: rc_ok_def)

lemma rc_ok_state [simp]: "rc_ok al (s\<lparr>m_current_state := st\<rparr>) = rc_ok al s"
  by (simp add: rc_ok_def)

lemma delete_agents_keeps: "delete_agents m s = Inr s' \<Longrightarrow> \<exists>h. s' = s\<lparr>rc_heap := h\<rparr>"
proof (induction m s rule: delete_agents.induct)
  case (1 s)
  then show ?case by (auto intro: exI[of _ "rc_heap s"])
qed (auto split: option.splits)

lemma start_merge_step:
  assumes "start_merge_all_bitmap e t s = Inr (r, s')" and "rc_ok al s"
  shows "rc_ok al s' \<and> (m_current_state s \<in> {GENERATE_BITMAP, CHECK_INFOHASH} \<longrightarrow> m_current_state s' \<noteq> m_current_state s)"
proof -
  let ?first = "m_current_state s = GENERATE_BITMAP"
  define s1 where "s1 = s\<lparr>m_current_state := (if ?first then FINISH_ALL_BITMAP else FINISH_RECYCLER), m_all_rules := [],
    m_current_token_holders := 0, m_token_apply_list := []\<rparr>"
  obtain s2 where d: "delete_agents (m_all_agents s1) s1 = Inr s2"
    using assms by (auto simp: start_merge_all_bitmap_def Let_def s1_def)
  define s3 where "s3 = s2\<lparr>m_all_agents := [], m_all_heartbeats := [], m_retry_list := []\<rparr>"
  have r: "if \<not> ?first then (r, s') = (0, s3\<lparr>m_timer := False\<rparr>)
      else and_then (get_all_rules SU_RULER t s3) (\<lambda>(r, s4). if r < 0 then Inr (- 1, s4\<lparr>m_current_state := IDEL_STATE\<rparr>)
        else let (r', s5) = connect_all_node_start_rc e s4 in
          Inr (if r' < 0 then (- 1, s5) else (0, s5\<lparr>m_current_state := CHECK_INFOHASH\<rparr>))) = Inr (r, s')"
    using assms(1) d unfolding start_merge_all_bitmap_def Let_def s3_def s1_def by (simp split: if_splits)
  have ok3: "rc_ok al s3" and e3: "m_all_rules s3 = []" "m_current_state s3 = m_current_state s1"
    using delete_agents_keeps[OF d] assms(2) by (auto simp: s3_def s1_def rc_ok_def MAX_TOKEN_HOLDS_def)
  show ?thesis
  proof (cases ?first)
    case False
    then show ?thesis using r ok3 e3 by (auto simp: rc_ok_def s1_def)
  next
    case True
    then obtain r4 s4 where g: "get_all_rules SU_RULER t s3 = Inr (r4, s4)"
        and c: "if r4 < 0 then (r, s') = (- 1, s4\<lparr>m_current_state := IDEL_STATE\<rparr>)
          else (let (r', s5) = connect_all_node_start_rc e s4 in
            (r, s') = (if r' < 0 then (- 1, s5) else (0, s5\<lparr>m_current_state := CHECK_INFOHASH\<rparr>)))"
      using r by (auto split: if_splits prod.splits)
    have ok4: "rc_ok al s4 \<and> m_current_state s4 = FINISH_ALL_BITMAP"
      using get_all_rules_step[OF g ok3 e3(1)] e3(2) True by (simp add: s1_def)
    obtain r5 s5 where c5: "connect_all_node_start_rc e s4 = (r5, s5)" by force
    have "rc_ok al s5 \<and> m_current_state s5 = FINISH_ALL_BITMAP" using connect_all_ok[OF c5, of al] ok4 by simp
    then show ?thesis using c c5 ok4 True by (auto split: if_splits)
  qed
qed

lemma mark_finished_bucket: "mark_finished q ip r = Inr r' \<Longrightarrow> br_bucket r' = br_bucket r"
  by (auto simp: mark_finished_def Let_def split: if_splits)

lemma start_next_step:
  assumes "start_next e t ip p s = Inr (r, s')" and "rc_ok al s"
  shows "rc_step al s s' \<and> (r < 0 \<longrightarrow> keeps al s s')"
proof -
  consider (merge) r2 where "start_merge_all_bitmap e t s = Inr (r2, s')" "r = 0" | (same) "s' = s"
    | (start) n where "start_bucket e p n s = Inr (r, s')"
    using assms(1) by (auto simp: start_next_def Let_def run_map_eq_Inr split: if_splits)
  then show ?thesis
  proof cases
    case merge
    then show ?thesis using start_merge_step[OF merge(1) assms(2)] by (auto simp: rc_step_def)
  next
    case same
    then show ?thesis using assms(2) by (simp add: keeps_refl)
  next
    case start
    then show ?thesis using keeps_same[OF start_bucket_same[OF start] assms(2)] by (auto intro: keeps_rc_step)
  qed
qed

lemma deal_bucket_finish_step:
  assumes "deal_bucket_finish e t q p s = Inr (r, s')" and "rc_ok al s"
  shows "rc_step al s s' \<and> (r < 0 \<longrightarrow> keeps al s s')"
proof -
  obtain b r0 ip r1 where a: "at (m_all_rules s) (unat (b :: u32)) = Inr r0" and m: "mark_finished q ip r0 = Inr r1"
      and n: "start_next e t ip p (s\<lparr>m_all_rules := (m_all_rules s)[unat b := r1]\<rparr>) = Inr (r, s')"
    using assms(1) by (auto simp: deal_bucket_finish_def)
  define s1 where "s1 = s\<lparr>m_all_rules := (m_all_rules s)[unat b := r1]\<rparr>"
  have "rules_at al ((m_all_rules s)[unat b := r1])"
    using assms(2) a mark_finished_bucket[OF m] by (intro rules_at_update) (auto simp: rc_ok_def at_eq_Inr)
  then have k: "keeps al s s1" using assms(2) by (auto simp: s1_def keeps_def rc_ok_def)
  have e: "m_current_state s1 = m_current_state s" by (simp add: s1_def)
  have st: "rc_step al s1 s' \<and> (r < 0 \<longrightarrow> keeps al s1 s')"
    using start_next_step[OF n[folded s1_def] keeps_rc_ok[OF k assms(2)]] .
  have "rc_step al s s1" using k by (rule keeps_rc_step)
  then show ?thesis using rc_step_trans[OF _ e] keeps_trans[OF k] st by blast
qed

lemmas deal_keeps = deal_heartbeat_keeps deal_start_ack_keeps deal_get_token_keeps deal_bitmap_done_keeps
  send_first_keeps keeps_refl

lemma deal_with_data_step:
  assumes "deal_with_data e t q p s = Inr (r, s')" and "rc_ok al s"
  shows "rc_step al s s' \<and> (r < 0 \<longrightarrow> keeps al s s')"
proof (cases "rq_cmd q = NODE_CS_BUCKET_FINISH_MSG")
  case True
  then show ?thesis using assms deal_bucket_finish_step[of e t q p s r s']
    by (simp add: deal_with_data_def rc_commands)
next
  case False
  then have "keeps al s s'" using assms unfolding deal_with_data_def
    by (auto split: if_splits simp: run_map_eq_Inr intro: deal_keeps)
  then show ?thesis by (auto intro: keeps_rc_step)
qed

lemma agent_callback_step:
  assumes "agent_callback e t ev p s = Inr s'" and "rc_ok al s"
  shows "rc_step al s s'"
proof (cases ev)
  case Connect_Failed
  then have "keeps al s s'" using assms
    by (auto simp: agent_callback_def agent_connect_error_def keeps_def rc_ok_def)
  then show ?thesis by (auto intro: keeps_rc_step)
next
  case Connect_Success
  then obtain r s1 where f: "send_first_command e p s = Inr (r, s1)"
      and r: "if r < 0 then (\<exists>s2. agent_run_error p s1 = Inr s2 \<and> s' = s2\<lparr>rc_heap := (rc_heap s2)(p := None)\<rparr>) else s' = s1"
    using assms(1) by (auto simp: agent_callback_def rc_recycler_def split: if_splits)
  have k: "keeps al s s1" using send_first_keeps[OF f assms(2)] .
  have "keeps al s s'"
  proof (cases "r < 0")
    case True
    then obtain s2 where s2: "agent_run_error p s1 = Inr s2" "s' = s2\<lparr>rc_heap := (rc_heap s2)(p := None)\<rparr>" using r by auto
    then have "keeps al s s2" using k agent_run_error_keeps[OF s2(1)] keeps_rc_ok[OF k assms(2)] keeps_trans by blast
    then show ?thesis using s2(2) agents_ok_delete by (auto simp: keeps_def)
  qed (use r k in simp)
  then show ?thesis by (auto intro: keeps_rc_step)
next
  case (Arrived q)
  then obtain r s1 where f: "deal_with_data e t q p s = Inr (r, s1)"
      and r: "if r < 0 then agent_run_error p s1 = Inr s' else s' = s1"
    using assms(1) by (auto simp: agent_callback_def split: if_splits)
  show ?thesis
  proof (cases "r < 0")
    case True
    then have k: "keeps al s s1" using deal_with_data_step[OF f assms(2)] by simp
    then have "keeps al s s'" using agent_run_error_keeps[of p s1 s'] r True keeps_rc_ok[OF k assms(2)] keeps_trans by auto
    then show ?thesis by (auto intro: keeps_rc_step)
  qed (use r deal_with_data_step[OF f assms(2)] in simp)
qed (use assms agent_run_error_keeps[of p s s'] in \<open>auto simp: agent_callback_def intro: keeps_rc_step\<close>)

text \<open>The walk ends well only when nobody is silent; then it does nothing.\<close>

lemma agent_run_error_erases:
  assumes "agent_run_error p s = Inr s'" and "rc_heap s p = Some ip"
  shows "map_of (m_all_heartbeats s') ip = None"
  using assms
  by (auto simp: agent_run_error_def agent_ip_def release_bucket_def Let_def at_eq_Inr AList.delete_conv
      split: option.splits if_splits)

lemma silent_loop_result:
  assumes "silent_loop e m s = Inr s'" and "agents_ok s"
  shows "s' = s \<and> (\<forall>(ip, st) \<in> set m. rc_now e - ns_time st \<le> 20)"
  using assms
proof (induction m)
  case (Cons a m)
  obtain ip st where a: "a = (ip, st)" by force
  show ?case
  proof (cases "rc_now e - ns_time st \<le> 20")
    case True
    then show ?thesis using Cons a by simp
  next
    case False
    then obtain p s1 where r: "agent_run_error p s = Inr s1" and n: "map_of (m_all_heartbeats s1) ip \<noteq> None"
        and m: "map_of (m_all_agents s) ip = Some (Some p)"
      using Cons.prems a by (auto split: option.splits if_splits)
    have "rc_heap s p \<noteq> None" using r by (auto simp: agent_run_error_def agent_ip_def split: option.splits)
    then have "rc_heap s p = Some ip" using agents_okD[OF Cons.prems(2) m] by (elim conjE disjE) simp_all
    then show ?thesis using agent_run_error_erases[OF r] n by simp
  qed
qed simp

lemma retry_loop_keeps: "retry_loop n e ips s = Inr s' \<Longrightarrow> rc_ok al s \<Longrightarrow> keeps al s s'"
proof (induction n e ips s rule: retry_loop.induct)
  case (3 n e ip ips s)
  let ?s1 = "s\<lparr>rc_next := rc_next s + 1\<rparr>"
  let ?s2 = "?s1\<lparr>rc_heap := (rc_heap s)(rc_next s := Some ip)\<rparr>"
  let ?s3 = "?s2\<lparr>m_retry_list := ips, m_all_agents := map_put ip (Some (rc_next s)) (m_all_agents s)\<rparr>"
  have "agents_ok ?s1" "agents_ok ?s2" "agents_ok ?s3"
    using "3.prems"(2) unfolding rc_ok_def agents_ok_def by (auto simp: less_Suc_eq)
  then have k1: "keeps al s ?s1" and k2: "keeps al s ?s2" and k3: "keeps al s ?s3"
    using "3.prems"(2) by (auto simp: keeps_def rc_ok_def)
  show ?case
  proof (cases "map_of (m_all_agents s) ip")
    case None
    then show ?thesis using "3.prems" "3.IH"(1)[OF refl refl] k1 keeps_rc_ok[OF k1] keeps_trans[OF k1]
      by (simp add: Let_def)
  next
    case (Some old)
    then show ?thesis
      using "3.prems" "3.IH"(2)[OF refl refl _ refl] "3.IH"(3)[OF refl refl _ refl] k2 k3
        keeps_rc_ok[OF k2] keeps_trans[OF k2] keeps_rc_ok[OF k3] keeps_trans[OF k3]
      by (simp add: Let_def split: if_splits)
  qed
qed (simp_all add: keeps_refl)

lemma check_heartbeat_keeps:
  assumes "check_heartbeat_state n e s = Inr s'" and "rc_ok al s"
  shows "keeps al s s'"
proof (cases "m_current_state s \<noteq> GENERATE_BITMAP \<and> m_current_state s \<noteq> CHECK_INFOHASH")
  case True
  then show ?thesis using assms by (simp add: check_heartbeat_state_def keeps_refl)
next
  case False
  then obtain s1 where r: "silent_loop e (m_all_heartbeats s) s = Inr s1" "retry_loop n e (m_retry_list s1) s1 = Inr s'"
    using assms(1) by (auto simp: check_heartbeat_state_def split: if_splits)
  then have "s1 = s" using silent_loop_result assms(2) by (auto simp: rc_ok_def)
  then show ?thesis using retry_loop_keeps[OF r(2)] assms(2) by simp
qed

lemma start_do_recycler_ok:
  assumes "start_do_recycler e rnd index scale t s = Some (Inr (r, s'))" and "rc_ok al s" and "al \<Longrightarrow> m_all_rules s = []"
  shows "rc_ok al s'"
proof -
  define s1 where "s1 = init_paramaters e (s\<lparr>m_current_state := START_RUBBISH_RECYCLER, m_scale := scale, m_agent_index := index\<rparr>)"
  obtain s2 r3 s3 where c: "choice_hash_functions rnd s1 = Some (Inr s2)" and g: "get_all_rules MU_RULER t s2 = Inr (r3, s3)"
      and s': "if r3 < 0 then s' = s3\<lparr>m_current_state := IDEL_STATE\<rparr>
        else \<exists>r4 s4. connect_all_node_start_rc e s3 = (r4, s4) \<and>
          s' = (if r4 < 0 then s4 else s4\<lparr>m_current_state := GENERATE_BITMAP\<rparr>)"
    using assms(1) unfolding start_do_recycler_def Let_def s1_def by (auto split: if_splits prod.splits)
  have e2: "rc_ok al s2 = rc_ok al s" "m_all_rules s2 = m_all_rules s" using c
    by (auto simp: s1_def init_paramaters_def Let_def choice_hash_functions_def run_map_eq_Inr rc_ok_def)
  have ok3: "rc_ok al s3" by (rule conjunct1[OF get_all_rules_step[OF g]]) (use e2 assms(2,3) in simp_all)
  obtain r4 s4 where c4: "connect_all_node_start_rc e s3 = (r4, s4)" by force
  have "rc_ok al s4" using connect_all_ok[OF c4 ok3] by (rule conjunct1)
  then show ?thesis using s' c4 ok3 by (auto split: if_splits)
qed

text \<open>
  The states the manager reaches: events of agents, the timer and new runs in any order, and the
  deletion of agents by the event loop after it has recycled them. Nothing keeps a run from being
  started while another is under way; the flag tells whether that has never happened.
\<close>

inductive rc_history :: "bool \<Rightarrow> rcm \<Rightarrow> bool" where
  created: "rc_history True (new_rcm unset)"
| started: "rc_history al s \<Longrightarrow> start_do_recycler e rnd index scale t s = Some (Inr (r, s')) \<Longrightarrow>
    rc_history (al \<and> m_all_rules s = []) s'"
| called: "rc_history al s \<Longrightarrow> agent_callback e t ev p s = Inr s' \<Longrightarrow> rc_history al s'"
| ticked: "rc_history al s \<Longrightarrow> check_heartbeat_state n e s = Inr s' \<Longrightarrow> rc_history al s'"
| deleted: "rc_history al s \<Longrightarrow> rc_history al (s\<lparr>rc_heap := (rc_heap s)(p := None)\<rparr>)"

definition rc_reachable :: "rcm \<Rightarrow> bool" where
  "rc_reachable s \<longleftrightarrow> (\<exists>al. rc_history al s)"

lemma rc_history_ok: "rc_history al s \<Longrightarrow> rc_ok al s"
proof (induction rule: rc_history.induct)
  case (created unset)
  then show ?case by (auto simp: new_rcm_def rc_ok_def)
next
  case (started al s e rnd index scale t r s')
  have "\<not> (al \<and> m_all_rules s = []) \<or> al" by blast
  from rc_ok_weaken[OF started.IH this] have ok: "rc_ok (al \<and> m_all_rules s = []) s" .
  show ?case by (rule start_do_recycler_ok[OF started.hyps(2) ok]) (erule conjunct2)
next
  case (called al s e t ev p s')
  then show ?case using agent_callback_step[OF called.hyps(2) called.IH] by (auto simp only: rc_step_def)
next
  case (ticked al s n e s')
  then show ?case using keeps_rc_ok[OF check_heartbeat_keeps[OF ticked.hyps(2) ticked.IH] ticked.IH] by blast
next
  case (deleted al s p)
  then show ?case using agents_ok_delete by (auto simp: rc_ok_def)
qed

lemma rc_reachable_ok: "rc_reachable s \<Longrightarrow> rc_ok False s"
  using rc_history_ok rc_ok_weaken by (force simp: rc_reachable_def)

text \<open>
  C8 In every state the manager reaches, with runs started at any moment: the rule at place \<open>i\<close> is that
  of bucket \<open>i\<close> or of an earlier one, and is that of bucket \<open>i\<close> when no run was started before the rules
  of the last one were gone; every node is still recorded for bucket 0, at most one token is out, and an
  agent of the map that has not been deleted is one for its node. (For what a second start does to
  the rules see \<open>second_start_appends\<close>.)
\<close>

theorem rc_invariant:
  assumes "rc_history al s"
  shows "(\<forall>i < length (m_all_rules s). unat (br_bucket (m_all_rules s ! i)) \<le> i \<and>
      (al \<longrightarrow> br_bucket (m_all_rules s ! i) = of_nat i)) \<and>
    (\<forall>(ip, st) \<in> set (m_all_heartbeats s). ns_bucket st = 0) \<and> m_current_token_holders s \<le> 1 \<and>
    (\<forall>ip p. map_of (m_all_agents s) ip = Some (Some p) \<longrightarrow> rc_heap s p = None \<or> rc_heap s p = Some ip)"
  using rc_history_ok[OF assms]
  by (auto simp: rc_ok_def rules_at_def hb_ok_def MAX_TOKEN_HOLDS_def dest: agents_okD)

text \<open>
  C31 While a phase lasts, no event gives a token back: the number of tokens that are out never falls, so
  the one token, once granted, is only ever passed on.
\<close>

theorem token_never_returned:
  assumes "rc_reachable s" and "agent_callback e t ev p s = Inr s'"
    and "m_current_state s \<in> {GENERATE_BITMAP, CHECK_INFOHASH}" and "m_current_state s' = m_current_state s"
  shows "m_current_token_holders s \<le> m_current_token_holders s' \<and> m_current_token_holders s' \<le> 1"
proof -
  note ok = rc_reachable_ok[OF assms(1)]
  have st: "rc_step False s s'" using agent_callback_step[OF assms(2) ok] .
  then have "rc_ok False s'" using ok by (simp add: rc_step_def)
  then show ?thesis using st ok assms(3,4) by (auto simp: rc_step_def rc_ok_def MAX_TOKEN_HOLDS_def)
qed

text \<open>
  C32 A heartbeat from a node that has sent the first command is accepted exactly when it is for bucket 0: it
  is then recorded with its time and answered; for any other bucket the process is aborted.
\<close>

theorem heartbeat_only_bucket_zero:
  assumes "rc_reachable s" and "rc_heap s p = Some ip" and "map_of (m_all_heartbeats s) ip = Some st"
    and "rq_body q = Some [b, state, items, cpu, disk, net_speed]" and "\<not> write_fails e (write_count s)"
  shows "deal_heartbeat e q p s = (if b = 0 then
      Inr (0, s\<lparr>m_all_heartbeats := map_put ip (st\<lparr>ns_state := state, ns_items := items, ns_cpu := cpu,
                ns_disk := disk, ns_net := net_speed, ns_time := rc_now e\<rparr>) (m_all_heartbeats s),
              write_count := write_count s + 1,
              outbox := outbox s @ [(p, Header RC_CS_NODE_HEARTBEAT_MSG_ACK 0 0)]\<rparr>)
    else Inl Assert_Failed)"
proof -
  have "ns_bucket st = 0" using rc_reachable_ok[OF assms(1)] assms(3) by (auto simp: rc_ok_def dest: hb_ok_map_of)
  then show ?thesis using assms(2-5)
    by (auto simp: deal_heartbeat_def agent_ip_def body_word_def at_def write_data_def Let_def eval_nat_numeral)
qed

text \<open>
  C33 When a node has been silent for more than 20 seconds while a phase lasts, the tick of the timer never
  ends well: the walk over the heartbeats uses an entry that has been erased, or a null agent.
\<close>

theorem silent_node_crashes:
  assumes "rc_reachable s" and "m_current_state s \<in> {GENERATE_BITMAP, CHECK_INFOHASH}"
    and "(ip, st) \<in> set (m_all_heartbeats s)" and "20 < rc_now e - ns_time st"
  shows "\<exists>f. check_heartbeat_state n e s = Inl f"
proof -
  have ok: "agents_ok s" using rc_reachable_ok[OF assms(1)] by (simp add: rc_ok_def)
  have "silent_loop e (m_all_heartbeats s) s \<noteq> Inr s'" for s'
    using silent_loop_result[OF _ ok, of e "m_all_heartbeats s" s'] bspec[OF _ assms(3), of "\<lambda>(ip, st). rc_now e - ns_time st \<le> 20"]
      assms(4) by auto
  then obtain f where "silent_loop e (m_all_heartbeats s) s = Inl f" by (cases "silent_loop e (m_all_heartbeats s) s") auto
  then show ?thesis using assms(2) by (auto simp: check_heartbeat_state_def)
qed

subsection \<open>Starting a run, and trying nodes again\<close>

lemma insert_nodes_keys:
  "distinct (map fst m) \<Longrightarrow> distinct (map fst (insert_nodes rs m)) \<and>
   set (map fst (insert_nodes rs m)) = set (map fst m) \<union> {ip \<in> set (concat (map br_ip rs)). ip \<noteq> INVALID_IP}"
proof -
  have ins: "distinct (map fst m) \<Longrightarrow> distinct (map fst (map_insert x None m)) \<and>
      set (map fst (map_insert x None m)) = insert x (set (map fst m))" for x and m :: "(u32 \<times> nat option) list"
  proof (cases "map_of m x")
    case None
    assume d: "distinct (map fst m)"
    have "map fst (insort_key fst (x, None) m) = insort x (map fst m)" by (induction m) auto
    then show ?thesis using d None by (simp add: map_insert_def distinct_insort set_insort_key map_of_eq_None_iff)
  next
    case (Some q)
    assume d: "distinct (map fst m)"
    then have "x \<in> fst ` set m" using Some map_of_SomeD by force
    then show ?thesis using d Some by (auto simp: map_insert_def)
  qed
  have "distinct (map fst m) \<Longrightarrow>
      distinct (map fst (fold (\<lambda>ip m. if ip \<noteq> INVALID_IP then map_insert ip None m else m) ips m)) \<and>
      set (map fst (fold (\<lambda>ip m. if ip \<noteq> INVALID_IP then map_insert ip None m else m) ips m)) =
        set (map fst m) \<union> {ip \<in> set ips. ip \<noteq> INVALID_IP}" for ips
  proof (induction ips arbitrary: m)
    case (Cons x ips)
    then show ?case using Cons.IH[of "map_insert x None m"] ins[of m x] by auto
  qed simp
  then show "distinct (map fst m) \<Longrightarrow> distinct (map fst (insert_nodes rs m)) \<and>
     set (map fst (insert_nodes rs m)) = set (map fst m) \<union> {ip \<in> set (concat (map br_ip rs)). ip \<noteq> INVALID_IP}"
    by (simp only: insert_nodes_def)
qed

lemma rules_loop_result:
  assumes "rules_loop k i t acc = Inr (r, rs)" and "\<not> r < 0" and "length acc = i"
  shows "length rs = i + k \<and> take i rs = acc \<and> (\<forall>j. i \<le> j \<and> j < i + k \<longrightarrow> (\<exists>h.
    get_hash_rule (of_nat j) MU_RULER t = Inr (Some h) \<and>
    rs ! j = \<lparr>br_status = NOT_START, br_bucket = of_nat j, br_ip = hr_ip h, br_using = INVALID_IP\<rparr>))"
  using assms
proof (induction k i t acc rule: rules_loop.induct)
  case (2 k i t acc)
  then obtain h where h: "get_hash_rule (of_nat i) MU_RULER t = Inr (Some h)" by (auto split: option.splits)
  define r0 where "r0 = \<lparr>br_status = NOT_START, br_bucket = of_nat i :: u32, br_ip = hr_ip h, br_using = INVALID_IP\<rparr>"
  have l: "rules_loop k (i + 1) t (acc @ [r0]) = Inr (r, rs)" using "2.prems"(1) h by (simp add: r0_def)
  have "length rs = i + 1 + k \<and> take (i + 1) rs = acc @ [r0] \<and> (\<forall>j. i + 1 \<le> j \<and> j < i + 1 + k \<longrightarrow> (\<exists>h.
    get_hash_rule (of_nat j) MU_RULER t = Inr (Some h) \<and>
    rs ! j = \<lparr>br_status = NOT_START, br_bucket = of_nat j, br_ip = hr_ip h, br_using = INVALID_IP\<rparr>))"
    using "2.IH"[OF l[unfolded r0_def] "2.prems"(2)] "2.prems"(3) by (simp add: r0_def)
  then have ih: "length rs = i + 1 + k" "take (i + 1) rs = acc @ [r0]" "\<And>j. i + 1 \<le> j \<Longrightarrow> j < i + 1 + k \<Longrightarrow> \<exists>h.
    get_hash_rule (of_nat j) MU_RULER t = Inr (Some h) \<and>
    rs ! j = \<lparr>br_status = NOT_START, br_bucket = of_nat j, br_ip = hr_ip h, br_using = INVALID_IP\<rparr>" by blast+
  have i: "rs ! i = r0" using ih(2) "2.prems"(3) by (metis less_add_one nth_append_length nth_take)
  have t: "take i rs = acc" using ih(2) "2.prems"(3) by (metis append_eq_conv_conj le_add1 min.absorb1 take_take)
  have "\<exists>h. get_hash_rule (of_nat j) MU_RULER t = Inr (Some h) \<and>
    rs ! j = \<lparr>br_status = NOT_START, br_bucket = of_nat j, br_ip = hr_ip h, br_using = INVALID_IP\<rparr>"
    if "i \<le> j" "j < i + Suc k" for j
    using that ih(3)[of j] h i by (cases "j = i") (auto simp: r0_def)
  then show ?case using ih(1) t by auto
qed auto

text \<open>
  C12 A run that starts well from an idle manager: the rules are those of the table of the metadata nodes,
  none started; the nodes that keep a bucket are exactly the nodes of the map, each with a live agent of its own;
  the phase is that of the bitmaps.
\<close>

theorem start_run_correct:
  assumes "start_do_recycler e rnd index scale t s = Some (Inr (0, s'))"
    and "m_all_rules s = []" and "m_all_agents s = []" and "\<not> timer_fails e"
  shows "m_current_state s' = GENERATE_BITMAP \<and>
    length (m_all_rules s') = nat (sint (m_current_bucket_number t MU_RULER)) \<and>
    (\<forall>i < length (m_all_rules s'). \<exists>h. get_hash_rule (of_nat i) MU_RULER t = Inr (Some h) \<and>
       m_all_rules s' ! i = \<lparr>br_status = NOT_START, br_bucket = of_nat i, br_ip = hr_ip h, br_using = INVALID_IP\<rparr>) \<and>
    (\<forall>ip. (\<exists>p. map_of (m_all_agents s') ip = Some (Some p) \<and> rc_heap s' p = Some ip) \<longleftrightarrow>
       ip \<noteq> INVALID_IP \<and> (\<exists>r \<in> set (m_all_rules s'). ip \<in> set (br_ip r)))"
proof -
  define s1 where "s1 = init_paramaters e (s\<lparr>m_current_state := START_RUBBISH_RECYCLER, m_scale := scale, m_agent_index := index\<rparr>)"
  obtain s2 r3 s3 where c: "choice_hash_functions rnd s1 = Some (Inr s2)" and g: "get_all_rules MU_RULER t s2 = Inr (r3, s3)"
      and r: "if r3 < 0 then (0 :: int, s') = (- 1, s3\<lparr>m_current_state := IDEL_STATE\<rparr>)
        else let (r4, s4) = connect_all_node_start_rc e s3 in
          (0 :: int, s') = (if r4 < 0 then (- 1, s4) else (0, s4\<lparr>m_current_state := GENERATE_BITMAP\<rparr>))"
    using assms(1) unfolding start_do_recycler_def Let_def s1_def by (auto split: if_splits prod.splits)
  have e2: "m_all_rules s2 = []" "m_all_agents s2 = []" using c assms(2,3)
    by (auto simp: s1_def init_paramaters_def Let_def choice_hash_functions_def run_map_eq_Inr)
  have r3: "\<not> r3 < 0" using r by (auto split: if_splits)
  define n where "n = nat (sint (m_current_bucket_number t MU_RULER))"
  obtain r0 rs where l: "rules_loop n 0 t [] = Inr (r0, rs)" and r0: "\<not> r0 < 0"
      and s3: "s3 = s2\<lparr>m_all_rules := rs, m_all_agents := insert_nodes (take n rs) []\<rparr>"
    using g e2 r3 by (auto simp: get_all_rules_def get_bucket_number_def known_def Let_def n_def split: if_splits)
  have rs: "length rs = n" "\<forall>i < n. \<exists>h. get_hash_rule (of_nat i) MU_RULER t = Inr (Some h) \<and>
       rs ! i = \<lparr>br_status = NOT_START, br_bucket = of_nat i, br_ip = hr_ip h, br_using = INVALID_IP\<rparr>"
    using rules_loop_result[OF l r0] by auto
  obtain m s4 where c4: "connect_nodes e (m_all_agents s3) s3 = (m, s4)" by force
  have s': "s' = s4\<lparr>m_all_agents := m, m_timer := True, m_current_state := GENERATE_BITMAP\<rparr>"
    using r r3 c4 assms(4) by (simp add: connect_all_node_start_rc_def)
  note k = connect_nodes_keeps[OF c4] and a = connect_nodes_agents[OF c4]
  have keys: "distinct (map fst m)" "set (map fst m) = {ip \<in> set (concat (map br_ip rs)). ip \<noteq> INVALID_IP}"
    using a insert_nodes_keys[of "[]" "take n rs"] rs(1) s3 by auto
  have "(\<exists>p. map_of m ip = Some (Some p) \<and> rc_heap s4 p = Some ip) \<longleftrightarrow> ip \<in> set (map fst m)" for ip
  proof
    assume "ip \<in> set (map fst m)"
    then obtain q where q: "(ip, q) \<in> set m" by auto
    then have "map_of m ip = Some q" using keys(1) by simp
    then show "\<exists>p. map_of m ip = Some (Some p) \<and> rc_heap s4 p = Some ip" using a q by fastforce
  qed (auto dest: map_of_SomeD intro!: image_eqI)
  then show ?thesis using s' k s3 rs keys(2) by (auto simp: n_def)
qed

text \<open>
  A run that is started while the rules of another are still there: the rules of the new run follow
  them, so that the rule of bucket \<open>j\<close> is no longer at place \<open>j\<close>.
\<close>

lemma rules_loop_appends:
  "rules_loop k i t acc = Inr (r, rs) \<Longrightarrow> \<not> r < 0 \<Longrightarrow>
   \<exists>new. rs = acc @ new \<and> map br_bucket new = map of_nat [i..<i + k]"
proof (induction k i t acc rule: rules_loop.induct)
  case (2 k i t acc)
  then obtain h where h: "get_hash_rule (of_nat i) MU_RULER t = Inr (Some h)" by (auto split: option.splits)
  let ?r = "\<lparr>br_status = NOT_START, br_bucket = of_nat i :: u32, br_ip = hr_ip h, br_using = INVALID_IP\<rparr>"
  obtain new where "rs = (acc @ [?r]) @ new" "map br_bucket new = map of_nat [i + 1..<i + 1 + k]"
    using "2.IH" "2.prems" h by auto
  then have "rs = acc @ (?r # new) \<and> map br_bucket (?r # new) = map of_nat [i..<i + Suc k]"
    by (simp del: upt_Suc add: upt_conv_Cons)
  then show ?case by blast
qed simp

theorem second_start_appends:
  assumes "start_do_recycler e rnd index scale t s = Some (Inr (0, s'))" and "\<not> timer_fails e"
  shows "\<exists>new. m_all_rules s' = m_all_rules s @ new \<and>
    map br_bucket new = map of_nat [0..<nat (sint (m_current_bucket_number t MU_RULER))]"
proof -
  define s1 where "s1 = init_paramaters e (s\<lparr>m_current_state := START_RUBBISH_RECYCLER, m_scale := scale, m_agent_index := index\<rparr>)"
  obtain s2 r3 s3 where c: "choice_hash_functions rnd s1 = Some (Inr s2)" and g: "get_all_rules MU_RULER t s2 = Inr (r3, s3)"
      and r: "if r3 < 0 then (0 :: int, s') = (- 1, s3\<lparr>m_current_state := IDEL_STATE\<rparr>)
        else let (r4, s4) = connect_all_node_start_rc e s3 in
          (0 :: int, s') = (if r4 < 0 then (- 1, s4) else (0, s4\<lparr>m_current_state := GENERATE_BITMAP\<rparr>))"
    using assms(1) unfolding start_do_recycler_def Let_def s1_def by (auto split: if_splits prod.splits)
  have e2: "m_all_rules s2 = m_all_rules s" using c
    by (auto simp: s1_def init_paramaters_def Let_def choice_hash_functions_def run_map_eq_Inr)
  have r3: "\<not> r3 < 0" using r by (auto split: if_splits)
  obtain r0 where l: "rules_loop (nat (sint (m_current_bucket_number t MU_RULER))) 0 t (m_all_rules s) = Inr (r0, m_all_rules s3)"
    "\<not> r0 < 0"
    using g e2 r3 by (auto simp: get_all_rules_def get_bucket_number_def known_def Let_def split: if_splits)
  obtain m s4 where c4: "connect_nodes e (m_all_agents s3) s3 = (m, s4)" by force
  then have "m_all_rules s' = m_all_rules s3"
    using r r3 assms(2) connect_nodes_keeps[OF c4] by (simp add: connect_all_node_start_rc_def)
  then show ?thesis using rules_loop_appends[OF l] by simp
qed

definition connected :: "rcm \<Rightarrow> u32 \<Rightarrow> bool" where
  "connected s ip \<longleftrightarrow> (\<exists>p < rc_next s. map_of (m_all_agents s) ip = Some (Some p) \<and> rc_heap s p = Some ip)"

lemma retry_loop_reconnects:
  assumes "\<forall>ip \<in> set ips. map_of (m_all_agents s) ip \<noteq> None \<and> (\<forall>p. \<not> init_fails e ip p)"
    and "m_retry_list s = ips" and "length ips \<le> n"
  shows "\<exists>s'. retry_loop n e ips s = Inr s' \<and> m_retry_list s' = [] \<and> (\<forall>ip \<in> set ips. connected s' ip) \<and>
    (\<forall>ip. connected s ip \<longrightarrow> connected s' ip)"
  using assms
proof (induction ips arbitrary: s n)
  case (Cons ip ips)
  obtain k where n: "n = Suc k" using Cons.prems(3) by (cases n) auto
  define s1 where "s1 = s\<lparr>rc_next := rc_next s + 1, rc_heap := (rc_heap s)(rc_next s := Some ip), m_retry_list := ips,
    m_all_agents := map_put ip (Some (rc_next s)) (m_all_agents s)\<rparr>"
  have e: "retry_loop n e (ip # ips) s = retry_loop k e ips s1"
    using Cons.prems(1) n by (auto simp: Let_def s1_def)
  have "\<exists>s'. retry_loop k e ips s1 = Inr s' \<and> m_retry_list s' = [] \<and> (\<forall>ip \<in> set ips. connected s' ip) \<and>
    (\<forall>ip. connected s1 ip \<longrightarrow> connected s' ip)"
    using Cons.prems n by (intro Cons.IH) (auto simp: s1_def)
  moreover have "connected s1 ip" by (simp add: connected_def s1_def)
  moreover have "connected s1 j" if c: "connected s j" for j
  proof (cases "j = ip")
    case False
    obtain p where p: "p < rc_next s" "map_of (m_all_agents s) j = Some (Some p)" "rc_heap s p = Some j"
      using c unfolding connected_def by blast
    then show ?thesis unfolding connected_def using False by (intro exI[of _ p]) (simp add: s1_def)
  qed (simp add: \<open>connected s1 ip\<close>)
  ultimately show ?case using e by auto
qed simp

text \<open>
  C34 A tick of the timer in a phase, with no node silent and every node of the retry list known and
  reachable, ends: the retry list is empty afterwards and each of its nodes has a live agent again.
\<close>

theorem retry_reconnects:
  assumes "m_current_state s \<in> {GENERATE_BITMAP, CHECK_INFOHASH}"
    and "\<forall>(ip, st) \<in> set (m_all_heartbeats s). rc_now e - ns_time st \<le> 20"
    and "\<forall>ip \<in> set (m_retry_list s). map_of (m_all_agents s) ip \<noteq> None \<and> (\<forall>p. \<not> init_fails e ip p)"
    and "length (m_retry_list s) \<le> n"
  shows "\<exists>s'. check_heartbeat_state n e s = Inr s' \<and> m_retry_list s' = [] \<and>
    (\<forall>ip \<in> set (m_retry_list s). \<exists>p. map_of (m_all_agents s') ip = Some (Some p) \<and> rc_heap s' p = Some ip)"
proof -
  have "silent_loop e m s = Inr s" if "\<forall>(ip, st) \<in> set m. rc_now e - ns_time st \<le> 20" for m
    using that by (induction m) auto
  then have "check_heartbeat_state n e s = retry_loop n e (m_retry_list s) s"
    using assms(1,2) by (auto simp: check_heartbeat_state_def)
  then show ?thesis using retry_loop_reconnects[OF assms(3) refl assms(4)] unfolding connected_def by metis
qed

text \<open>One node that refuses, or is not in the map of the agents, keeps the loop busy for ever.\<close>

theorem retry_diverges:
  assumes "\<forall>p. init_fails e ip p \<or> map_of (m_all_agents s) ip = None"
  shows "retry_loop n e (ip # ips) s = Inl Diverges"
  using assms
proof (induction n arbitrary: s)
  case (Suc n)
  then show ?case by (auto simp: Let_def split: option.splits)
qed simp

subsection \<open>A run of two buckets\<close>

definition demo_env :: rc_env where
  "demo_env = \<lparr>write_fails = \<lambda>k. False, init_fails = \<lambda>ip p. False, timer_fails = False, rc_now = 100,
     rc_bits = 80000, rc_hashes = 2\<rparr>"

definition demo_start :: rcm where
  "demo_start = \<lparr>m_agent_index = 0, m_scale = 5, m_bitmap_size = 10240, m_hash_numbers = 2, m_block_bits = 8,
     m_current_hash_ids = [3, 4],
     m_all_rules = [\<lparr>br_status = NOT_START, br_bucket = 0, br_ip = [11, 12, 0, 0, 0], br_using = 0\<rparr>,
       \<lparr>br_status = NOT_START, br_bucket = 1, br_ip = [12, 13, 0, 0, 0], br_using = 0\<rparr>],
     m_current_token_holders = 0, m_max_token_holders = 1, m_token_apply_list = [], m_timer = True,
     m_all_agents = [(11, Some 0), (12, Some 1), (13, Some 2)], m_all_heartbeats = [], m_retry_list = [],
     m_current_state = GENERATE_BITMAP, rc_heap = (\<lambda>p. None)(0 := Some 11, 1 := Some 12, 2 := Some 13), rc_next = 3,
     outbox = [], write_count = 0\<rparr>"

lemma demo_run: "start_do_recycler demo_env [3, 3, 4] 0 5 demo_rules (new_rcm 0) = Some (Inr (0, demo_start))"
proof -
  have b: "get_bucket_number MU_RULER demo_rules = Inr 2" by (simp add: get_bucket_number_def known_def demo_rules_def Let_def)
  have lt: "\<not> (2 :: u32) \<le> 1" by (simp add: word_le_nat_alt)
  have h0: "get_hash_rule 0 MU_RULER demo_rules = Inr (Some \<lparr>hr_bucket = 0, hr_ip = [11, 12, 0, 0, 0]\<rparr>)"
    and h1: "get_hash_rule 1 MU_RULER demo_rules = Inr (Some \<lparr>hr_bucket = 1, hr_ip = [12, 13, 0, 0, 0]\<rparr>)"
    by (simp_all add: get_hash_rule_def known_def demo_rules_def vget_def vcapacity_def Let_def lt)
  have rl: "rules_loop 2 0 demo_rules [] = Inr (0, m_all_rules demo_start)"
    by (simp add: numeral_2_eq_2 h0 h1 demo_start_def INVALID_IP_def)
  have cl: "choice_loop [3, 3, 4] 2 0 [] = Some (Inr [3, 4])"
    by (simp add: choice_loop.simps)
  have nodes: "insert_nodes (m_all_rules demo_start) [] = [(11, None), (12, None), (13, None)]"
    by (simp add: insert_nodes_def map_insert_def INVALID_IP_def demo_start_def)
  have g: "get_all_rules MU_RULER demo_rules s = Inr (0, s\<lparr>m_all_rules := m_all_rules demo_start,
      m_all_agents := [(11, None), (12, None), (13, None)]\<rparr>)" if "m_all_rules s = []" "m_all_agents s = []" for s
    using that nodes by (simp add: get_all_rules_def b rl Let_def demo_start_def)
  have i: "init_paramaters demo_env s = s\<lparr>m_bitmap_size := 10240, m_hash_numbers := 2, m_block_bits := 8\<rparr>" for s
    by (simp add: init_paramaters_def demo_env_def Let_def)
  have h: "choice_hash_functions [3, 3, 4] s = Some (Inr (s\<lparr>m_current_hash_ids := [3, 4]\<rparr>))"
    if "m_hash_numbers s = 2" "m_current_hash_ids s = []" for s
    using that cl by (simp add: choice_hash_functions_def)
  show ?thesis
    by (simp add: start_do_recycler_def i h g new_rcm_def Let_def connect_all_node_start_rc_def connect_one_def)
      (simp add: demo_env_def demo_start_def MAX_TOKEN_HOLDS_def numeral_2_eq_2)
qed

text \<open>A second command of the client puts a rule of bucket 0 at place 2.\<close>

lemma second_start_misplaced:
  assumes "start_do_recycler demo_env rnd index scale demo_rules demo_start = Some (Inr (0, s'))"
  shows "length (m_all_rules s') = 4 \<and> br_bucket (m_all_rules s' ! 2) = 0"
proof -
  have "nat (sint (m_current_bucket_number demo_rules MU_RULER)) = 2" by (simp add: demo_rules_def)
  with second_start_appends[OF assms] obtain new where
    new: "m_all_rules s' = m_all_rules demo_start @ new" "map br_bucket new = [0, 1]"
    by (auto simp: demo_env_def upt_conv_Cons)
  have "length new = 2" using new(2) by (metis One_nat_def Suc_1 length_Cons length_map list.size(3))
  moreover obtain a c where "new = [a, c]" "br_bucket a = 0" using new(2) by auto
  ultimately show ?thesis using new(1) by (simp add: demo_start_def)
qed

lemma demo_start_history: "rc_history True demo_start"
  using started[OF created demo_run] by (simp add: new_rcm_def)

text \<open>Node 12 connects: it gets the first command and an entry for its heartbeats.\<close>

definition demo_state :: node_state where
  "demo_state = \<lparr>ns_bucket = 0, ns_state = INITING, ns_items = 0, ns_cpu = 0, ns_disk = 0, ns_net = 0, ns_time = 100\<rparr>"

definition demo_node :: rcm where
  "demo_node = demo_start\<lparr>m_all_heartbeats := [(12, demo_state)],
     write_count := Suc (Suc 0), outbox := [(1, Header RC_CS_NODE_INIT_MSG 72 0),
       (1, Init_Body \<lparr>ni_bitmap_size = 10240, ni_block_bits = 8, ni_hash_num = 2, ni_hash = [3, 4]\<rparr>)]\<rparr>"

lemma demo_node_history: "rc_history True demo_node"
proof -
  have "agent_callback demo_env demo_rules Connect_Success 1 demo_start = Inr demo_node"
    by (simp add: agent_callback_def send_first_command_def write_both_def write_data_def agent_ip_def map_insert_def
        demo_start_def demo_node_def demo_state_def demo_env_def Let_def)
  then show ?thesis by (rule called[OF demo_start_history])
qed

lemma demo_node_reachable: "rc_reachable demo_node"
  using demo_node_history by (auto simp: rc_reachable_def)

lemma find_next_bucket_correct_witness:
  "find_next_bucket 13 demo_start = int 1 \<and> find_next_bucket 14 demo_start = - 1"
proof -
  have ok: "rules_ok (m_all_rules demo_start)" using rc_history_ok[OF demo_start_history] by (simp add: rc_ok_def rules_at_rules_ok)
  have "find_next_bucket 13 demo_start = int 1 \<longleftrightarrow> 1 < length (m_all_rules demo_start) \<and>
      fits 13 (m_all_rules demo_start ! 1) \<and> (\<forall>i < 1. \<not> fits 13 (m_all_rules demo_start ! i))"
    using find_next_bucket_correct[OF ok, of 13] by blast
  then have "find_next_bucket 13 demo_start = int 1" by (simp add: demo_start_def fits_def)
  moreover have "find_next_bucket 14 demo_start = - 1 \<longleftrightarrow> (\<exists>r \<in> set (m_all_rules demo_start). br_status r \<noteq> FINISHED) \<and>
      (\<forall>r \<in> set (m_all_rules demo_start). \<not> fits 14 r)"
    using find_next_bucket_correct[OF ok, of 14] by blast
  then have "find_next_bucket 14 demo_start = - 1" by (simp add: demo_start_def fits_def)
  ultimately show ?thesis by blast
qed

lemma multiple_between: "2048 dvd (x :: nat) \<Longrightarrow> 2048 * k \<le> x + 2047 \<Longrightarrow> x < 2048 * (k + 1) \<Longrightarrow> x = 2048 * k"
  by (elim dvdE) auto

lemma bitmap_size_bounds_witness:
  "unat (m_bitmap_size (init_paramaters demo_env demo_start)) = 10240 \<and>
   unat (m_bitmap_size (init_paramaters (demo_env\<lparr>rc_bits := 16391\<rparr>) demo_start)) = 2048 \<and>
   unat (m_bitmap_size (init_paramaters (demo_env\<lparr>rc_bits := 7\<rparr>) demo_start)) = 0"
proof -
  have "unat (rc_bits demo_env div 8) = 10000" by (simp add: demo_env_def)
  then have "unat (m_bitmap_size (init_paramaters demo_env demo_start)) = 2048 * 5"
    using bitmap_size_bounds[of demo_env demo_start] by (intro multiple_between) simp_all
  moreover have "unat (m_bitmap_size (init_paramaters (demo_env\<lparr>rc_bits := 16391\<rparr>) demo_start)) = 2048 * 1"
    using bitmap_size_bounds[of "demo_env\<lparr>rc_bits := 16391\<rparr>" demo_start] by (intro multiple_between) simp_all
  moreover have "unat (m_bitmap_size (init_paramaters (demo_env\<lparr>rc_bits := 7\<rparr>) demo_start)) = 2048 * 0"
    using bitmap_size_bounds[of "demo_env\<lparr>rc_bits := 7\<rparr>" demo_start] by (intro multiple_between) simp_all
  ultimately show ?thesis by simp
qed

lemma choice_hash_correct_witness:
  "\<exists>s'. choice_hash_functions [3, 3, 4] ((new_rcm 0)\<lparr>m_hash_numbers := 2\<rparr>) = Some (Inr s') \<and> distinct (m_current_hash_ids s') \<and>
     length (m_current_hash_ids s') = 2"
proof -
  let ?s = "(new_rcm 0)\<lparr>m_hash_numbers := 2\<rparr>"
  have c: "choice_hash_functions [3, 3, 4] ?s = Some (Inr (?s\<lparr>m_current_hash_ids := [3, 4]\<rparr>))"
    by (simp add: choice_hash_functions_def choice_loop.simps new_rcm_def)
  have "m_current_hash_ids ?s = []" by (simp add: new_rcm_def)
  from choice_hash_correct[OF this c] c show ?thesis by auto
qed

lemma rc_invariant_witness: "m_current_token_holders demo_node \<le> 1 \<and> br_bucket (m_all_rules demo_node ! 1) = 1"
  using rc_invariant[OF demo_node_history] by (auto simp: demo_node_def demo_start_def)

lemma token_never_returned_witness:
  "\<exists>s'. agent_callback demo_env demo_rules
      (Arrived \<lparr>rq_cmd = RC_NODE_CS_GET_TOKEN_MSG, rq_error = 0, rq_body = None\<rparr>) 1 demo_node = Inr s' \<and>
     m_current_token_holders demo_node \<le> m_current_token_holders s' \<and> m_current_token_holders s' = 1"
proof -
  obtain s' where c: "agent_callback demo_env demo_rules
      (Arrived \<lparr>rq_cmd = RC_NODE_CS_GET_TOKEN_MSG, rq_error = 0, rq_body = None\<rparr>) 1 demo_node = Inr s'"
      and s': "m_current_state s' = GENERATE_BITMAP" "m_current_token_holders s' = 1"
    by (simp add: agent_callback_def deal_with_data_def deal_get_token_def rc_commands write_data_def agent_ip_def
        demo_node_def demo_start_def demo_env_def Let_def)
  have g: "m_current_state demo_node = GENERATE_BITMAP" by (simp add: demo_node_def demo_start_def)
  have "m_current_state s' = m_current_state demo_node" using g s'(1) by simp
  from token_never_returned[OF demo_node_reachable c _ this] g c s'(2) show ?thesis by simp
qed

lemma heartbeat_only_bucket_zero_witness:
  "deal_heartbeat demo_env \<lparr>rq_cmd = RC_CS_NODE_HEARTBEAT_MSG, rq_error = 0, rq_body = Some [1, 1, 5, 6, 7, 8]\<rparr> 1 demo_node
     = Inl Assert_Failed"
proof -
  let ?q = "\<lparr>rq_cmd = RC_CS_NODE_HEARTBEAT_MSG, rq_error = 0, rq_body = Some [1, 1, 5, 6, 7, 8]\<rparr> :: rc_req"
  have "rc_heap demo_node 1 = Some 12" "map_of (m_all_heartbeats demo_node) 12 = Some demo_state"
    "rq_body ?q = Some [1, 1, 5, 6, 7, 8]" "\<not> write_fails demo_env (write_count demo_node)"
    by (simp_all add: demo_node_def demo_start_def demo_env_def)
  then have "deal_heartbeat demo_env ?q 1 demo_node = Inl Assert_Failed"
    by (subst heartbeat_only_bucket_zero[OF demo_node_reachable]) (assumption | simp)+
  then show ?thesis .
qed

lemma silent_node_crashes_witness: "\<exists>f. check_heartbeat_state 5 (demo_env\<lparr>rc_now := 121\<rparr>) demo_node = Inl f"
  by (rule silent_node_crashes[OF demo_node_reachable, where ip = 12 and st = demo_state])
    (simp_all add: demo_node_def demo_state_def demo_start_def demo_env_def)

lemma start_run_correct_witness:
  "\<exists>p. map_of (m_all_agents demo_start) 13 = Some (Some p) \<and> rc_heap demo_start p = Some 13"
proof -
  have "(\<forall>ip. (\<exists>p. map_of (m_all_agents demo_start) ip = Some (Some p) \<and> rc_heap demo_start p = Some ip) \<longleftrightarrow>
       ip \<noteq> INVALID_IP \<and> (\<exists>r \<in> set (m_all_rules demo_start). ip \<in> set (br_ip r)))"
    using start_run_correct[OF demo_run] by (simp add: new_rcm_def demo_env_def)
  then show ?thesis by (simp add: INVALID_IP_def demo_start_def)
qed

lemma retry_reconnects_witness:
  "\<exists>s'. check_heartbeat_state 3 demo_env (demo_start\<lparr>m_retry_list := [11, 13]\<rparr>) = Inr s' \<and> m_retry_list s' = []"
proof -
  let ?s = "demo_start\<lparr>m_retry_list := [11, 13]\<rparr>"
  have "\<exists>s'. check_heartbeat_state 3 demo_env ?s = Inr s' \<and> m_retry_list s' = [] \<and>
    (\<forall>ip \<in> set (m_retry_list ?s). \<exists>p. map_of (m_all_agents s') ip = Some (Some p) \<and> rc_heap s' p = Some ip)"
    by (rule retry_reconnects) (simp_all add: demo_start_def demo_env_def)
  then show ?thesis by blast
qed

end
