(* ===== verification/Spec2Isabelle.thy ===== *)
theory Spec2Isabelle
  imports Timer_Reach DArray Epoll_Loop Tool_Text Atom_Added Recycler_Correct
begin

text \<open>
  A verification development of the core programs of the repository. The repository is a collection of
  small C and C++ programs; modelled are those with logic of their own: the timers of \<open>timer/\<close>, the
  arrays and sorting routines of \<open>dymanicArray/\<close>, the interned strings of \<open>atomString/\<close>, the network library of \<open>common/\<close>, and of the
  monitor server (\<open>Rubbish_cycler/MonitorServer/src/\<close>) the rule tables and the rubbish recycler.

  \<^bold>\<open>Conventions.\<close> An operation that can reach undefined behaviour, a failed assertion or the end of
  the process returns \<open>'a run\<close>, a fault or a result (\<open>Prelude\<close>); every branch of the code is a branch of
  the model. A class is a record with the names of its members, a method a function that returns the
  new state. Objects that are shared or deleted live at addresses of a store, so that using a deleted
  one is the fault \<open>Dangling\<close>. The operating system, the clock, random numbers, functions installed by
  a user and sizes computed in floating point are parameters, most of them fields of an environment
  record. Machine integers are words where the code relies on their width.

  \<^bold>\<open>Timers\<close> (\<open>timer/Timer.cpp\<close>, \<open>Heap.cpp\<close>, \<open>Timer_manager.cpp\<close>).
  \<^item> \<open>Heap_Order\<close>: heaps in an array over any weak order, with the facts on sifting that the timer heap
    and the heap sort share.
  \<^item> \<open>Timer\<close>: one timer (record \<open>timer\<close>), its expiry and how often it runs.
  \<^item> \<open>Timer_Heap\<close>: the class \<open>TimerHeap\<close>; adding, deleting and taking out the expired timers, with what they
    keep of the heap and what the last slot loses.
  \<^item> \<open>Timer_Manager\<close>: the class \<open>TimerManager\<close>, every operation.
  \<^item> \<open>Timer_Reach\<close>: the reachable managers as an inductive set, with every call of every operation, those that
    fail included; the invariant that ties heap, index map and store together, and the functional behaviour
    of adding, deleting and expiring. A call whose \<open>timerfd_settime\<close> fails leaves a timer in the heap that the
    map never learns of: the invariant says what such a timer is, and a theorem what it does later.

  \<^bold>\<open>Arrays\<close> (\<open>dymanicArray/sort.cpp\<close>, \<open>dArray.cpp\<close>).
  \<^item> \<open>Sort\<close>: the six sorting routines as loops over a list of cells; \<open>Sort_Correct\<close>: each sorts by any strict
    weak order and touches nothing else, and five of them agree.
  \<^item> \<open>DArray\<close>: the growing array; runs of insertions and deletions refine the same runs on a list.

  \<^bold>\<open>Interned strings\<close> (\<open>atomString/atom.cpp\<close>).
  \<^item> \<open>Atom_Table\<close>: the heap of atoms, strings as pointers into an atom or to a buffer of the caller, and
    every operation but the one that prints. A search along a chain is a partial function whose value is
    \<open>None\<close> when it does not end.
  \<^item> \<open>Atom_Correct\<close>: the chains as lists (\<open>seg\<close>), the tables in order, the reachable tables, and that every
    operation returns and does what it promises, in tables that were made without \<open>atomAdd\<close>; a theorem
    shows what \<open>atomAdd\<close> breaks of their order.
  \<^item> \<open>Atom_Added\<close>: the tables made by all operations, \<open>atomAdd\<close> included: the structure of the chains, and the
    order of the atoms that were copied.

  \<^bold>\<open>Network library\<close> (\<open>common/\<close>).
  \<^item> \<open>Net_Buffer\<close>, \<open>Net_Buffer_Correct\<close>: \<open>BufferManager\<close>; messages are read back as they were sent however
    the stream is cut, a write neither loses nor repeats a buffer. The network is a list of segments.
  \<^item> \<open>Net_Socket\<close>: \<open>SocketAddress\<close>, \<open>TCPSocket\<close>, and the exact reads and writes of \<open>util.cpp\<close>.
  \<^item> \<open>Net_Agent\<close>: \<open>EpollEvent\<close>, \<open>Agent\<close>, \<open>TCPAgent\<close>; the gates for reading and writing nest and agree with
    the kernel's table. The functions a user installs are reached through a pointer (\<open>op_place\<close>) into
    the object that owns them, so that a change there is seen by every agent. The size of a
    message has 32 bits: below \<open>2 ^ 31 - 20\<close> bytes of data it is sent whole, above \<open>send_data_too_long\<close> says
    what happens.
  \<^item> \<open>Agent_Manager\<close>: the class \<open>AgentManager\<close>. The locale \<open>agent_method\<close> says what a method of an agent may
    do to the world; it is interpreted for the methods of \<open>TCPAgent\<close>, and the operations of a reachable manager
    use no deleted agent as long as agents are recycled by pointer while they are in use; recycling by
    index, which no caller does, breaks this, as the same theorem shows. The locale \<open>own_method\<close> adds
    that a method leaves the event of the agent to the agent.
  \<^item> \<open>Epoll_Loop\<close>: \<open>Epoll\<close>, \<open>TCPListenAgent\<close>, \<open>Server\<close> and \<open>Client\<close>. The virtual functions an event calls are
    the record \<open>vtable\<close>; the locale \<open>event_handler\<close> is their contract, interpreted for both kinds of agents, so
    that any number of rounds of the loop is safe, for whatever \<open>epoll_wait\<close> reports of the objects that
    live when it answers. The bytes of a header in memory (\<open>header_bytes\<close>, \<open>header_of\<close>) are those of the
    platform, not of code of the repository.
  \<^item> \<open>Tool_Text\<close>: the text utilities of \<open>Tool.cpp\<close>.

  \<^bold>\<open>Monitor server\<close>.
  \<^item> \<open>Vec\<close>: \<open>std::vector\<close> with its capacity and size apart, since the tables are written behind the size.
  \<^item> \<open>Rule_Tables\<close>: \<open>RulerManager\<close>, \<open>cs_pow\<close> and \<open>cs_log\<close>; migrations and extensions of the tables.
  \<^item> \<open>Recycler\<close>, \<open>Recycler_Correct\<close>: \<open>RCManager\<close> (\<open>rubbish_recycler.cpp\<close>) with \<open>RC_agent.cpp\<close> and
    \<open>RC_protocol.h\<close>; the reachable states of the manager, with runs started at any moment, their invariant, and
    what follows for buckets, tokens, heartbeats and the retry list.

  The parts meet in these places: the manager of the timers owns the heap (\<open>Timer_Manager\<close> on
  \<open>Timer_Heap\<close>); the buffer manager is a member of the agent, the agents are owned by the agent manager
  and called by the event loop (\<open>Net_Buffer\<close>, \<open>Net_Agent\<close>, \<open>Agent_Manager\<close>, \<open>Epoll_Loop\<close>); the recycler
  reads the rule tables (\<open>Recycler\<close> on \<open>Rule_Tables\<close>).

  \<^bold>\<open>Loops and fuel\<close>. Loops are structural or have a measure, with these exceptions. \<open>log_loop\<close> has a
  number of rounds: after \<open>2 ^ 16\<close> the argument of \<open>cs_pow\<close> repeats, and \<open>cs_log_result\<close> says for which values
  34 rounds are enough and for which none are. \<open>retry_loop\<close> has a number of rounds: as many as the list has
  nodes are enough when every node can be reached (\<open>retry_reconnects\<close>), none are when one cannot
  (\<open>retry_diverges\<close>). \<open>choice_loop\<close> consumes a list of random numbers. \<open>epoll_run\<close> is the endless loop of
  the server on a finite list of answers of the kernel.

  \<^bold>\<open>Not modelled\<close>. The agents that take protobuf messages apart and call the managers, the tasks and work
  items, the rule files and the database of the monitor server; the load tables of its nodes; the C client
  of the recycler (\<open>MetaServer\<close>); \<open>cacheTable\<close>; generated and vendored code; the separate C
  programs, tests, scripts and web pages. A user function that calls back into the buffer manager, and
  allocation that fails, are not modelled either.
\<close>

end
